(* ===== verification/Prelude.thy ===== *)
theory Prelude
  imports Main "HOL-Library.Word"
begin

section \<open>What the component theories share\<close>

text \<open>
  The C notions every component of mikelibc needs: a result type whose left side is a fault
  (a failed \<open>assert\<close>, an access outside an allocation, a signed overflow, ...), heap blocks
  with bounds-checked reads and writes, C strings as NUL-terminated byte lists, and the
  non-negative C \<open>int\<close> counters of the loops. Each access that C leaves undefined is a
  branch of the model, so that a theorem \<open>\<dots> = Inr \<dots>\<close> says the code is free of that fault.
  The collections \<open>res_simps\<close> and \<open>blk_simps\<close> hold the rules the component proofs
  simplify with.
\<close>

named_theorems res_simps \<open>rules for the result type\<close>
named_theorems blk_simps \<open>rules for heap blocks\<close>

subsection \<open>Machine types\<close>

type_synonym byte = "8 word"
type_synonym u32 = "32 word"
type_synonym u64 = "64 word"

text \<open>Pointers are addresses, \<open>None\<close> is NULL.\<close>

type_synonym addr = nat
type_synonym ptr = "addr option"

subsection \<open>Words\<close>

lemma word_eq_of_nat: "unat (w :: 'a::len word) = n \<Longrightarrow> w = of_nat n"
  by auto

lemma unat_add_1: "unat (n :: u64) < 2 ^ 64 - 1 \<Longrightarrow> unat (n + 1) = unat n + 1"
  by (simp add: unat_word_ariths)

lemma unat_sub_1: "0 < unat (n :: 'a::len word) \<Longrightarrow> unat (n - 1) = unat n - 1"
  by (simp add: unat_gt_0 unat_minus_one)

lemma unat_of_nat_u64: "i < 2 ^ 64 \<Longrightarrow> unat (of_nat i :: u64) = i"
  by (simp add: unsigned_of_nat take_bit_nat_eq_self)

subsection \<open>Results\<close>

datatype fault =
    Assert_failed      \<comment> \<open>\<open>assert\<close> aborts the process\<close>
  | Out_of_bounds      \<comment> \<open>read or write outside an allocation\<close>
  | Uninit_read        \<comment> \<open>read of a cell never written\<close>
  | Null_deref
  | Invalid_pointer    \<comment> \<open>dereference of an address that holds no live object\<close>
  | Use_after_free
  | Double_free
  | Signed_overflow

type_synonym 'a res = "fault + 'a"

fun rbind :: "'a res \<Rightarrow> ('a \<Rightarrow> 'b res) \<Rightarrow> 'b res" where
  "rbind (Inl e) f = Inl e"
| "rbind (Inr x) f = f x"

lemma rbind_Inr_iff [res_simps]: "rbind r f = Inr y \<longleftrightarrow> (\<exists>x. r = Inr x \<and> f x = Inr y)"
  by (cases r) auto

lemma rbind_Inl_iff [res_simps]:
  "rbind r f = Inl e \<longleftrightarrow> r = Inl e \<or> (\<exists>x. r = Inr x \<and> f x = Inl e)"
  by (cases r) auto

lemma rbind_assoc: "rbind (rbind r f) g = rbind r (\<lambda>x. rbind (f x) g)"
  by (cases r) auto

lemma rbind_cong [fundef_cong]:
  "r = r' \<Longrightarrow> (\<And>x. r' = Inr x \<Longrightarrow> f x = f' x) \<Longrightarrow> rbind r f = rbind r' f'"
  by (cases r') auto

text \<open>A guard: the fault when the condition fails.\<close>

definition require :: "fault \<Rightarrow> bool \<Rightarrow> unit res" where
  "require e b = (if b then Inr () else Inl e)"

lemma require_simps [simp, res_simps]:
  "require e True = Inr ()" "require e False = Inl e"
  "require e b = Inr u \<longleftrightarrow> b" "require e b = Inl e' \<longleftrightarrow> \<not> b \<and> e' = e"
  by (auto simp: require_def)

text \<open>Code with a loop that may not end: \<open>None\<close> is not returning.\<close>

type_synonym 'a prog = "'a res option"

abbreviation ret :: "'a \<Rightarrow> 'a prog" where
  "ret x \<equiv> Some (Inr x)"

fun pbind :: "'a prog \<Rightarrow> ('a \<Rightarrow> 'b prog) \<Rightarrow> 'b prog" where
  "pbind None f = None"
| "pbind (Some (Inl e)) f = Some (Inl e)"
| "pbind (Some (Inr x)) f = f x"

lemma pbind_ret_iff [res_simps]: "pbind r f = ret y \<longleftrightarrow> (\<exists>x. r = ret x \<and> f x = ret y)"
  by (cases "(r, f)" rule: pbind.cases) auto

subsection \<open>Heap blocks\<close>

text \<open>
  A block is what \<open>malloc\<close> returned: a list of cells, \<open>None\<close> for a cell that was never
  written. After \<open>free\<close> the pointer dangles: every access to a \<open>Freed\<close> block faults.
\<close>

type_synonym 'a cells = "'a option list"

datatype 'a block = Live "'a cells" | Freed

fun blk_cells :: "'a block \<Rightarrow> 'a cells" where
  "blk_cells (Live b) = b"
| "blk_cells Freed = []"

definition blk_alloc :: "nat \<Rightarrow> 'a block" where
  "blk_alloc n = Live (replicate n None)"

fun blk_write :: "'a block \<Rightarrow> nat \<Rightarrow> 'a \<Rightarrow> 'a block res" where
  "blk_write Freed i x = Inl Use_after_free"
| "blk_write (Live b) i x =
     (if i < length b then Inr (Live (b[i := Some x])) else Inl Out_of_bounds)"

fun blk_read :: "'a block \<Rightarrow> nat \<Rightarrow> 'a res" where
  "blk_read Freed i = Inl Use_after_free"
| "blk_read (Live b) i =
     (if i < length b then (case b ! i of None \<Rightarrow> Inl Uninit_read | Some x \<Rightarrow> Inr x)
      else Inl Out_of_bounds)"

text \<open>\<open>realloc\<close> to \<open>n\<close> cells keeps the common prefix; the new cells are uninitialised.\<close>

fun blk_realloc :: "'a block \<Rightarrow> nat \<Rightarrow> 'a block res" where
  "blk_realloc Freed n = Inl Use_after_free"
| "blk_realloc (Live b) n = Inr (Live (take n b @ replicate (n - length b) None))"

text \<open>
  \<open>memmove\<close> of \<open>n\<close> cells from offset \<open>i\<close> to offset \<open>0\<close> of the same block: cells are
  copied as they are, initialised or not.
\<close>

fun blk_move_down :: "'a block \<Rightarrow> nat \<Rightarrow> nat \<Rightarrow> 'a block res" where
  "blk_move_down Freed i n = Inl Use_after_free"
| "blk_move_down (Live b) i n =
     (if i + n \<le> length b then Inr (Live (take n (drop i b) @ drop n b)) else Inl Out_of_bounds)"

fun blk_free :: "'a block \<Rightarrow> 'a block res" where
  "blk_free Freed = Inl Double_free"
| "blk_free (Live b) = Inr Freed"

lemma blk_write_Inr_iff [blk_simps]:
  "blk_write blk i x = Inr blk' \<longleftrightarrow>
     (\<exists>b. blk = Live b \<and> i < length b \<and> blk' = Live (b[i := Some x]))"
  by (cases blk) auto

lemma blk_read_Inr_iff [blk_simps]:
  "blk_read blk i = Inr x \<longleftrightarrow> (\<exists>b. blk = Live b \<and> i < length b \<and> b ! i = Some x)"
  by (cases blk) (auto split: option.splits)

lemma blk_move_down_Inr_iff [blk_simps]:
  "blk_move_down blk i n = Inr blk' \<longleftrightarrow>
     (\<exists>b. blk = Live b \<and> i + n \<le> length b \<and> blk' = Live (take n (drop i b) @ drop n b))"
  by (cases blk) auto

lemma length_move_down: "i + n \<le> length b \<Longrightarrow> length (take n (drop i b) @ drop n b) = length b"
  by simp

lemma segment_snoc:
  assumes "f \<le> e" "e < length b"
  shows "take (Suc e - f) (drop f (b[e := Some x])) = take (e - f) (drop f b) @ [Some x]"
proof -
  have "take (Suc (e - f)) (drop f (b[e := Some x])) = take (e - f) (drop f (b[e := Some x])) @ [Some x]"
    using assms by (subst take_Suc_conv_app_nth) auto
  also have "take (e - f) (drop f (b[e := Some x])) = take (e - f) (drop f b)"
    using assms by (simp add: drop_update_swap)
  finally show ?thesis using assms by (simp add: Suc_diff_le)
qed

text \<open>All cells of a segment are initialised, and their values.\<close>

definition initialised :: "'a cells \<Rightarrow> bool" where
  "initialised cs = list_all (\<lambda>c. c \<noteq> None) cs"

definition values_of :: "'a cells \<Rightarrow> 'a list" where
  "values_of cs = map the cs"

lemma initialised_simps [simp, blk_simps]:
  "initialised []" "initialised (c # cs) \<longleftrightarrow> c \<noteq> None \<and> initialised cs"
  "initialised (cs @ ds) \<longleftrightarrow> initialised cs \<and> initialised ds"
  "initialised (map Some xs)"
  by (auto simp: initialised_def list_all_iff)

lemma values_of_simps [simp, blk_simps]:
  "values_of [] = []" "values_of (c # cs) = the c # values_of cs"
  "values_of (cs @ ds) = values_of cs @ values_of ds" "values_of (map Some xs) = xs"
  "length (values_of cs) = length cs"
  by (auto simp: values_of_def comp_def)

lemma initialised_iff_map_Some: "initialised cs \<longleftrightarrow> cs = map Some (values_of cs)"
  by (induction cs) auto

subsection \<open>Libc string routines\<close>

text \<open>
  A C string is given by its bytes before the terminating NUL. \<open>strnlen\<close>, \<open>strncpy\<close>: the
  latter pads with NULs up to \<open>n\<close> and writes no terminator when the source is that long.
\<close>

definition strnlen :: "byte list \<Rightarrow> nat \<Rightarrow> nat" where
  "strnlen s n = min (length s) n"

definition strncpy_bytes :: "byte list \<Rightarrow> nat \<Rightarrow> byte list" where
  "strncpy_bytes s n = take n s @ replicate (n - length s) 0"

lemma length_strncpy_bytes [simp]: "length (strncpy_bytes s n) = n"
  by (auto simp: strncpy_bytes_def)

lemma strncpy_bytes_terminated:
  assumes "0 \<notin> set s"
  shows "0 \<in> set (strncpy_bytes s n) \<longleftrightarrow> length s < n"
  using assms by (auto simp: strncpy_bytes_def dest: in_set_takeD)

text \<open>The C string a block holds: its bytes up to the first NUL.\<close>

definition c_string :: "byte block \<Rightarrow> byte list" where
  "c_string blk = takeWhile (\<lambda>c. c \<noteq> 0) (values_of (blk_cells blk))"

lemma c_string_terminated [simp]:
  "0 \<notin> set s \<Longrightarrow> c_string (Live (map Some (s @ 0 # rest))) = s"
  by (simp only: c_string_def blk_cells.simps values_of_simps, subst takeWhile_append2) auto

subsection \<open>Memory as bytes\<close>

text \<open>Reading an array the caller passed.\<close>

definition arr_read :: "'a list \<Rightarrow> nat \<Rightarrow> 'a res" where
  "arr_read xs i = (if i < length xs then Inr (xs ! i) else Inl Out_of_bounds)"

text \<open>Writing bytes one by one from an offset.\<close>

fun write_at :: "byte block \<Rightarrow> nat \<Rightarrow> byte list \<Rightarrow> byte block res" where
  "write_at blk i [] = Inr blk"
| "write_at blk i (c # cs) = rbind (blk_write blk i c) (\<lambda>blk. write_at blk (i + 1) cs)"

text \<open>Reading a C string from memory, byte by byte up to its NUL.\<close>

fun read_cstr :: "byte cells \<Rightarrow> byte list res" where
  "read_cstr [] = Inl Out_of_bounds"
| "read_cstr (None # cs) = Inl Uninit_read"
| "read_cstr (Some c # cs) = (if c = 0 then Inr [] else rbind (read_cstr cs) (\<lambda>s. Inr (c # s)))"

lemma read_cstr_string: "0 \<notin> set s \<Longrightarrow> read_cstr (map Some s @ Some 0 # rest) = Inr s"
  by (induction s) auto

lemma read_cstr_uninit: "0 \<notin> set s \<Longrightarrow> read_cstr (map Some s @ None # rest) = Inl Uninit_read"
  by (induction s) auto

lemma read_cstr_unterminated: "0 \<notin> set s \<Longrightarrow> read_cstr (map Some s) = Inl Out_of_bounds"
  by (induction s) auto

lemma write_at_ok:
  "i + length cs \<le> length b \<Longrightarrow> write_at (Live b) i cs = Inr (Live (take i b @ map Some cs @ drop (i + length cs) b))"
proof (induction cs arbitrary: b i)
  case (Cons c cs)
  have "write_at (Live (b[i := Some c])) (i + 1) cs =
      Inr (Live (take (i + 1) (b[i := Some c]) @ map Some cs @ drop (i + 1 + length cs) (b[i := Some c])))"
    using Cons.prems by (intro Cons.IH) simp
  moreover have "take (i + 1) (b[i := Some c]) = take i b @ [Some c]"
    using Cons.prems by (simp add: take_Suc_conv_app_nth)
  ultimately show ?case using Cons.prems by simp
qed simp

lemma write_at_overflow:
  "length b < i + length cs \<Longrightarrow> i \<le> length b \<Longrightarrow> write_at (Live b) i cs = Inl Out_of_bounds"
proof (induction cs arbitrary: b i)
  case (Cons c cs)
  then show ?case by (cases "i < length b") auto
qed simp

lemma write_all:
  "length cs = n \<Longrightarrow> write_at (blk_alloc n) 0 cs = Inr (Live (map Some cs))"
  by (simp add: blk_alloc_def write_at_ok)

subsection \<open>Non-negative C ints\<close>

text \<open>The counters of the loops are C \<open>int\<close>s that only grow from 0: naturals whose
  increments are checked against \<open>INT_MAX\<close>.\<close>

definition INT_MAX :: nat where
  "INT_MAX = 2147483647"

definition int_add :: "nat \<Rightarrow> nat \<Rightarrow> nat res" where
  "int_add i k = (if i + k \<le> INT_MAX then Inr (i + k) else Inl Signed_overflow)"

lemma int_add_Inr_iff [res_simps]: "int_add i k = Inr j \<longleftrightarrow> i + k \<le> INT_MAX \<and> j = i + k"
  by (auto simp: int_add_def)

lemma int_add_ok [simp]: "i + k \<le> INT_MAX \<Longrightarrow> int_add i k = Inr (i + k)"
  by (simp add: int_add_def)

subsection \<open>Conversions\<close>

text \<open>A \<open>size_t\<close> stored in an \<open>int\<close>, and an \<open>int\<close> passed as \<open>size_t\<close>.\<close>

definition to_int :: "u64 \<Rightarrow> u32" where
  "to_int n = ucast n"

definition to_size :: "u32 \<Rightarrow> u64" where
  "to_size n = scast n"

lemma small_to_int:
  assumes "unat n < 2 ^ 31"
  shows "sint (to_int n) = int (unat n)"
proof -
  have "int (unat n) < int (2 ^ 31)"
    using assms by (simp only: of_nat_less_iff)
  then have "uint n < 2 ^ 31"
    by (simp only: of_nat_unat of_nat_power of_nat_numeral)
  moreover have "- (2 ^ 31) \<le> uint n"
    by (rule order_trans [OF _ unsigned_greater_eq]) simp
  ultimately have "signed_take_bit 31 (uint n) = uint n"
    by (intro signed_take_bit_int_eq_self)
  moreover have l: "LENGTH(32) - Suc 0 = (31 :: nat)" by simp
  moreover have "sint (to_int n) = signed_take_bit (LENGTH(32) - Suc 0) (uint n)"
    unfolding to_int_def by (rule signed_ucast_eq)
  ultimately show ?thesis by (simp only: of_nat_unat)
qed

lemma to_int_of_nat: "to_int (of_nat m) = of_nat m"
  by (simp add: to_int_def unsigned_of_nat word_of_nat_eq_iff)

lemma to_size_of_nat:
  assumes "m < 2 ^ 31"
  shows "to_size (of_nat m) = of_nat m"
proof -
  have "- (2 ^ 31) \<le> int m" by (rule order_trans [OF _ of_nat_0_le_iff]) simp
  moreover have "int m < int (2 ^ 31)" using assms by (simp only: of_nat_less_iff)
  ultimately have "signed_take_bit 31 (int m) = int m"
    by (intro signed_take_bit_int_eq_self) simp_all
  then show ?thesis by (simp add: to_size_def signed_of_nat)
qed

lemma sint_to_int:
  assumes "unat n = k" "k \<le> INT_MAX"
  shows "sint (to_int n) = int k"
  using small_to_int [of n] assms by (simp add: INT_MAX_def)

end
