(* ===== verification/Linked_List.thy ===== *)
theory Linked_List
  imports Prelude
begin

section \<open>The linked-list macros of madt.h\<close>

text \<open>
  The macros work on any struct with a \<open>next\<close> pointer: the model takes the accessor and the
  updater of that field as arguments, and a heap of such nodes. Each macro is one definition over
  the variables it is given; a loop over \<open>next\<close> is a \<open>partial_function\<close>, with \<open>None\<close> for a
  walk that does not end. The locale \<open>linked\<close> states what the macros need of the field, its
  lemmas describe each macro by the list of addresses a pointer leads to, and it is interpreted on
  the node type of the repository's test (and, in \<open>Mlog\<close>, on the loggers).
\<close>

subsection \<open>Heap and macros\<close>

type_synonym 'n heap = "addr \<rightharpoonup> 'n"

text \<open>\<open>mlinked_list_add\<close>: the \<open>while\<close> runs \<open>current\<close> to the last node.\<close>

partial_function (option) walk_last :: "('n \<Rightarrow> ptr) \<Rightarrow> 'n heap \<Rightarrow> addr \<Rightarrow> addr res option" where
  "walk_last nxt h c =
     (case h c of
        None \<Rightarrow> Some (Inl Invalid_pointer)
      | Some n \<Rightarrow> (case nxt n of None \<Rightarrow> Some (Inr c) | Some c' \<Rightarrow> walk_last nxt h c'))"

definition set_next_at :: "(ptr \<Rightarrow> 'n \<Rightarrow> 'n) \<Rightarrow> addr \<Rightarrow> ptr \<Rightarrow> 'n heap \<Rightarrow> 'n heap res" where
  "set_next_at set_nxt a p h =
     (case h a of None \<Rightarrow> Inl Invalid_pointer | Some n \<Rightarrow> Inr (h(a \<mapsto> set_nxt p n)))"

text \<open>The result: \<open>start\<close>, \<open>current\<close> and the heap afterwards.\<close>

definition mlinked_list_add ::
  "('n \<Rightarrow> ptr) \<Rightarrow> (ptr \<Rightarrow> 'n \<Rightarrow> 'n) \<Rightarrow> 'n heap \<Rightarrow> ptr \<Rightarrow> addr \<Rightarrow> (ptr \<times> ptr \<times> 'n heap) res option" where
  "mlinked_list_add nxt set_nxt h start new =
     (case start of
        None \<Rightarrow> Some (Inr (Some new, Some new, h))
      | Some a \<Rightarrow> Option.bind (walk_last nxt h a) (\<lambda>r.
          Some (rbind r (\<lambda>c. rbind (set_next_at set_nxt c (Some new) h) (\<lambda>h'. Inr (start, Some c, h'))))))"

partial_function (option) find_loop ::
  "('n \<Rightarrow> ptr) \<Rightarrow> ('k \<Rightarrow> 'n \<Rightarrow> bool) \<Rightarrow> 'k \<Rightarrow> 'n heap \<Rightarrow> ptr \<Rightarrow> ptr res option" where
  "find_loop nxt check handle h current =
     (case current of
        None \<Rightarrow> Some (Inr None)
      | Some c \<Rightarrow> (case h c of
          None \<Rightarrow> Some (Inl Invalid_pointer)
        | Some n \<Rightarrow> if check handle n then Some (Inr (Some c))
                    else find_loop nxt check handle h (nxt n)))"

definition mlinked_list_find ::
  "('n \<Rightarrow> ptr) \<Rightarrow> ('k \<Rightarrow> 'n \<Rightarrow> bool) \<Rightarrow> 'k \<Rightarrow> 'n heap \<Rightarrow> ptr \<Rightarrow> ptr res option" where
  "mlinked_list_find nxt check handle h start =
     (case start of None \<Rightarrow> Some (Inr None) | Some a \<Rightarrow> find_loop nxt check handle h (Some a))"

text \<open>\<open>mlinked_list_remove\<close>: the variables it reads and writes.\<close>

record 'n remove_vars =
  lv_hp :: "'n heap"
  lv_start :: ptr
  lv_current :: ptr
  lv_previous :: ptr
  lv_freenode :: ptr

partial_function (option) remove_loop ::
  "('n \<Rightarrow> ptr) \<Rightarrow> (ptr \<Rightarrow> 'n \<Rightarrow> 'n) \<Rightarrow> ('k \<Rightarrow> 'n \<Rightarrow> bool) \<Rightarrow> 'k \<Rightarrow> 'n remove_vars
     \<Rightarrow> 'n remove_vars res option" where
  "remove_loop nxt set_nxt check handle v =
     (case lv_current v of
        None \<Rightarrow> Some (Inr v)
      | Some c \<Rightarrow> (case lv_hp v c of
          None \<Rightarrow> Some (Inl Invalid_pointer)
        | Some n \<Rightarrow>
            if check handle n then
              (case lv_previous v of
                 None \<Rightarrow> remove_loop nxt set_nxt check handle
                   (v\<lparr>lv_start := nxt n, lv_previous := Some c, lv_freenode := Some c, lv_current := nxt n\<rparr>)
               | Some p \<Rightarrow> (case set_next_at set_nxt p (nxt n) (lv_hp v) of
                   Inl e \<Rightarrow> Some (Inl e)
                 | Inr h' \<Rightarrow> remove_loop nxt set_nxt check handle
                     (v\<lparr>lv_hp := h', lv_freenode := Some c, lv_current := Option.bind (h' c) nxt\<rparr>)))
            else remove_loop nxt set_nxt check handle (v\<lparr>lv_previous := Some c, lv_current := nxt n\<rparr>)))"

definition mlinked_list_remove ::
  "('n \<Rightarrow> ptr) \<Rightarrow> (ptr \<Rightarrow> 'n \<Rightarrow> 'n) \<Rightarrow> ('k \<Rightarrow> 'n \<Rightarrow> bool) \<Rightarrow> 'k \<Rightarrow> 'n remove_vars
     \<Rightarrow> 'n remove_vars res option" where
  "mlinked_list_remove nxt set_nxt check handle v =
     (case lv_start v of
        None \<Rightarrow> Some (Inr v)
      | Some a \<Rightarrow> remove_loop nxt set_nxt check handle (v\<lparr>lv_current := Some a\<rparr>))"

text \<open>\<open>mlinked_list_length\<close> with an \<open>int\<close> counter, as in the test.\<close>

partial_function (option) length_loop ::
  "('n \<Rightarrow> ptr) \<Rightarrow> 'n heap \<Rightarrow> ptr \<Rightarrow> nat \<Rightarrow> nat res option" where
  "length_loop nxt h current len =
     (case current of
        None \<Rightarrow> Some (Inr len)
      | Some c \<Rightarrow> (case h c of
          None \<Rightarrow> Some (Inl Invalid_pointer)
        | Some n \<Rightarrow> (case int_add len 1 of
            Inl e \<Rightarrow> Some (Inl e)
          | Inr len' \<Rightarrow> length_loop nxt h (nxt n) len')))"

definition mlinked_list_length :: "('n \<Rightarrow> ptr) \<Rightarrow> 'n heap \<Rightarrow> ptr \<Rightarrow> nat res option" where
  "mlinked_list_length nxt h start = length_loop nxt h start 0"

text \<open>The loops, one node at a time.\<close>

lemma walk_last_Some:
  "h c = Some n \<Longrightarrow>
     walk_last nxt h c = (case nxt n of None \<Rightarrow> Some (Inr c) | Some c' \<Rightarrow> walk_last nxt h c')"
  by (simp add: walk_last.simps [of nxt h c])

lemma find_loop_None [simp]: "find_loop nxt check handle h None = Some (Inr None)"
  by (simp add: find_loop.simps)

lemma find_loop_Some:
  "h c = Some n \<Longrightarrow> find_loop nxt check handle h (Some c) =
     (if check handle n then Some (Inr (Some c)) else find_loop nxt check handle h (nxt n))"
  by (simp add: find_loop.simps [of nxt check handle h "Some c"])

lemma length_loop_None [simp]: "length_loop nxt h None k = Some (Inr k)"
  by (simp add: length_loop.simps)

lemma length_loop_Some:
  "h c = Some n \<Longrightarrow> k + 1 \<le> INT_MAX \<Longrightarrow> length_loop nxt h (Some c) k = length_loop nxt h (nxt n) (k + 1)"
  by (simp add: length_loop.simps [of nxt h "Some c" k])

subsection \<open>The list a pointer leads to\<close>

primrec lst :: "('n \<Rightarrow> ptr) \<Rightarrow> 'n heap \<Rightarrow> ptr \<Rightarrow> addr list \<Rightarrow> bool" where
  "lst nxt h p [] \<longleftrightarrow> p = None"
| "lst nxt h p (a # as) \<longleftrightarrow>
     p = Some a \<and> (case h a of None \<Rightarrow> False | Some n \<Rightarrow> lst nxt h (nxt n) as)"

lemma lst_None [simp]: "lst nxt h None as \<longleftrightarrow> as = []"
  by (cases as) auto

lemma lst_Some:
  "lst nxt h (Some a) as \<longleftrightarrow> (\<exists>n bs. as = a # bs \<and> h a = Some n \<and> lst nxt h (nxt n) bs)"
  by (cases as) (auto split: option.splits)

lemma lst_unique: "lst nxt h p as \<Longrightarrow> lst nxt h p bs \<Longrightarrow> as = bs"
proof (induction as arbitrary: p bs)
  case (Cons a as)
  then show ?case by (cases bs) (auto split: option.splits)
qed simp

lemma lst_suffix: "lst nxt h p (as @ a # bs) \<Longrightarrow> lst nxt h (Some a) (a # bs)"
proof (induction as arbitrary: p)
  case (Cons x as)
  then obtain n where "lst nxt h (nxt n) (as @ a # bs)" by (auto split: option.splits)
  then show ?case by (rule Cons.IH)
qed simp

lemma lst_distinct: "lst nxt h p as \<Longrightarrow> distinct as"
proof (induction as arbitrary: p)
  case (Cons a as)
  have "a \<notin> set as"
  proof
    assume "a \<in> set as"
    then obtain us vs where "as = us @ a # vs" by (meson split_list)
    with Cons.prems have "lst nxt h (Some a) (a # us @ a # vs)" "lst nxt h (Some a) (a # vs)"
      using lst_suffix [of nxt h p "a # us" a vs] by (auto split: option.splits)
    then have "a # us @ a # vs = a # vs" by (rule lst_unique)
    then show False by (auto dest: arg_cong [where f = length])
  qed
  with Cons show ?case by (auto split: option.splits)
qed simp

lemma lst_live: "lst nxt h p as \<Longrightarrow> a \<in> set as \<Longrightarrow> h a \<noteq> None"
  by (induction as arbitrary: p) (auto split: option.splits)

lemma lst_frame: "lst nxt h p as \<Longrightarrow> (\<And>a. a \<in> set as \<Longrightarrow> h' a = h a) \<Longrightarrow> lst nxt h' p as"
  by (induction as arbitrary: p) (auto split: option.splits)

lemma lst_upd: "a \<notin> set as \<Longrightarrow> lst nxt (h(a := x)) p as = lst nxt h p as"
  by (auto elim!: lst_frame)

text \<open>The nodes that match, by address.\<close>

definition hits :: "('k \<Rightarrow> 'n \<Rightarrow> bool) \<Rightarrow> 'k \<Rightarrow> 'n heap \<Rightarrow> addr \<Rightarrow> bool" where
  "hits check handle h a = (case h a of None \<Rightarrow> False | Some n \<Rightarrow> check handle n)"

text \<open>The heap without its links.\<close>

definition erase :: "(ptr \<Rightarrow> 'n \<Rightarrow> 'n) \<Rightarrow> 'n heap \<Rightarrow> 'n heap" where
  "erase set_nxt h = (\<lambda>a. map_option (set_nxt None) (h a))"

subsection \<open>What the macros need of a node, and what they do\<close>

locale linked =
  fixes nxt :: "'n \<Rightarrow> ptr" and set_nxt :: "ptr \<Rightarrow> 'n \<Rightarrow> 'n"
  assumes nxt_set [simp]: "nxt (set_nxt p n) = p"
    and set_set [simp]: "set_nxt p (set_nxt q n) = set_nxt p n"
begin

lemma erase_upd: "h a = Some n \<Longrightarrow> erase set_nxt (h(a \<mapsto> set_nxt p n)) = erase set_nxt h"
  by (auto simp: erase_def fun_eq_iff)

lemma walk_last_ok:
  "lst nxt h (Some a) as \<Longrightarrow> walk_last nxt h a = Some (Inr (last as))"
proof (induction as arbitrary: a)
  case (Cons x as)
  from Cons.prems obtain n where n: "h a = Some n" "x = a" "lst nxt h (nxt n) as"
    unfolding lst_Some by blast
  show ?case
  proof (cases "nxt n")
    case None
    with n show ?thesis by (simp add: walk_last_Some)
  next
    case (Some b)
    with n have "as \<noteq> []" "lst nxt h (Some b) as" by auto
    with n Some Cons.IH [of b] show ?thesis by (simp add: walk_last_Some)
  qed
qed simp

lemma lst_link_last:
  "lst nxt h p as \<Longrightarrow> as \<noteq> [] \<Longrightarrow> h (last as) = Some n \<Longrightarrow> new \<notin> set as \<Longrightarrow>
     h new = Some m \<Longrightarrow> nxt m = None \<Longrightarrow> lst nxt (h(last as \<mapsto> set_nxt (Some new) n)) p (as @ [new])"
proof (induction as arbitrary: p)
  case (Cons x as)
  have d: "distinct (x # as)" using Cons.prems(1) by (rule lst_distinct)
  show ?case
  proof (cases "as = []")
    case True
    with Cons.prems show ?thesis by auto
  next
    case False
    with Cons.prems Cons.IH d have "x \<noteq> last as" by auto
    with Cons.prems Cons.IH False show ?thesis by (auto split: option.splits)
  qed
qed simp

lemma mlinked_list_add_ok:
  assumes l: "lst nxt h start as" and new: "h new = Some m" "nxt m = None" "new \<notin> set as"
  shows "\<exists>start' c h'. mlinked_list_add nxt set_nxt h start new = Some (Inr (start', c, h')) \<and>
     lst nxt h' start' (as @ [new]) \<and> erase set_nxt h' = erase set_nxt h \<and>
     (\<forall>a. a \<notin> set as \<longrightarrow> h' a = h a)"
proof (cases start)
  case None
  with l new show ?thesis by (auto simp: mlinked_list_add_def)
next
  case (Some a)
  with l have ne: "as \<noteq> []" by auto
  then obtain n where n: "h (last as) = Some n"
    using lst_live [OF l, of "last as"] by auto
  have "lst nxt (h(last as \<mapsto> set_nxt (Some new) n)) start (as @ [new])"
    using lst_link_last [OF l ne n new(3,1,2)] .
  with Some l ne n walk_last_ok [of h a as] show ?thesis
    by (auto simp: mlinked_list_add_def set_next_at_def erase_upd)
qed

lemma find_loop_ok:
  "lst nxt h p as \<Longrightarrow> find_loop nxt check handle h p = Some (Inr (List.find (hits check handle h) as))"
proof (induction as arbitrary: p)
  case Nil
  then show ?case by simp
next
  case (Cons x as)
  then obtain n where "p = Some x" "h x = Some n" "lst nxt h (nxt n) as"
    by (auto split: option.splits)
  with Cons.IH show ?case by (auto simp: find_loop_Some hits_def)
qed

lemma mlinked_list_find_ok:
  "lst nxt h start as \<Longrightarrow>
     mlinked_list_find nxt check handle h start = Some (Inr (List.find (hits check handle h) as))"
  using find_loop_ok [of h start as] by (auto simp: mlinked_list_find_def split: option.splits)

lemma length_loop_ok:
  "lst nxt h p as \<Longrightarrow> k + length as \<le> INT_MAX \<Longrightarrow> length_loop nxt h p k = Some (Inr (k + length as))"
proof (induction as arbitrary: p k)
  case Nil
  then show ?case by simp
next
  case (Cons x as)
  then obtain n where "p = Some x" "h x = Some n" "lst nxt h (nxt n) as"
    by (auto split: option.splits)
  with Cons.IH [of "nxt n" "Suc k"] Cons.prems(2) show ?case
    by (simp add: length_loop_Some)
qed

text \<open>
  The removal loop once \<open>previous\<close> is set to some node \<open>p\<close> whose \<open>next\<close> is \<open>current\<close>. The nodes
  after \<open>p\<close> end up without the matching ones; a pointer to the first of them, which the loop does
  not touch, still sees the leading matches.
\<close>

lemma remove_loop_hit:
  assumes "lv_current v = Some x" "lv_hp v x = Some n" "check handle n"
    and "lv_previous v = Some p" "lv_hp v p = Some pn" "p \<noteq> x"
  shows "remove_loop nxt set_nxt check handle v = remove_loop nxt set_nxt check handle
    (v\<lparr>lv_hp := (lv_hp v)(p \<mapsto> set_nxt (nxt n) pn), lv_freenode := Some x, lv_current := nxt n\<rparr>)"
  using assms by (simp add: remove_loop.simps [of nxt set_nxt check handle v] set_next_at_def)

lemma remove_loop_miss:
  assumes "lv_current v = Some x" "lv_hp v x = Some n" "\<not> check handle n"
  shows "remove_loop nxt set_nxt check handle v =
    remove_loop nxt set_nxt check handle (v\<lparr>lv_previous := Some x, lv_current := nxt n\<rparr>)"
  using assms by (simp add: remove_loop.simps [of nxt set_nxt check handle v])

lemma hits_upd:
  assumes "p \<notin> set as"
  shows "filter (hits check handle (h(p \<mapsto> q))) as = filter (hits check handle h) as"
    "filter (\<lambda>a. \<not> hits check handle (h(p \<mapsto> q)) a) as = filter (\<lambda>a. \<not> hits check handle h a) as"
    "takeWhile (hits check handle (h(p \<mapsto> q))) as = takeWhile (hits check handle h) as"
proof -
  have "hits check handle (h(p \<mapsto> q)) a = hits check handle h a" if "a \<in> set as" for a
    using that assms by (auto simp: hits_def)
  then show "filter (hits check handle (h(p \<mapsto> q))) as = filter (hits check handle h) as"
    "filter (\<lambda>a. \<not> hits check handle (h(p \<mapsto> q)) a) as = filter (\<lambda>a. \<not> hits check handle h a) as"
    "takeWhile (hits check handle (h(p \<mapsto> q))) as = takeWhile (hits check handle h) as"
    by (auto cong: filter_cong takeWhile_cong)
qed

lemma remove_loop_ok:
  "lst nxt (lv_hp v) (lv_current v) as \<Longrightarrow> lv_previous v = Some p \<Longrightarrow> lv_hp v p = Some pn \<Longrightarrow>
     nxt pn = lv_current v \<Longrightarrow> p \<notin> set as \<Longrightarrow> m = hits check handle (lv_hp v) \<Longrightarrow>
   \<exists>v' pn'. remove_loop nxt set_nxt check handle v = Some (Inr v') \<and> lv_start v' = lv_start v \<and>
     lv_hp v' p = Some pn' \<and> lst nxt (lv_hp v') (nxt pn') (filter (\<lambda>a. \<not> m a) as) \<and>
     lst nxt (lv_hp v') (lv_current v) (takeWhile m as @ filter (\<lambda>a. \<not> m a) as) \<and>
     erase set_nxt (lv_hp v') = erase set_nxt (lv_hp v) \<and>
     (\<forall>a. a \<noteq> p \<longrightarrow> a \<notin> set as \<longrightarrow> lv_hp v' a = lv_hp v a) \<and>
     lv_freenode v' = (if filter m as = [] then lv_freenode v else Some (last (filter m as))) \<and>
     lv_current v' = None"
proof (induction as arbitrary: v p pn m)
  case Nil
  then show ?case by (simp add: remove_loop.simps)
next
  case (Cons x as)
  then obtain n where x: "lv_current v = Some x" "lv_hp v x = Some n" "lst nxt (lv_hp v) (nxt n) as"
    by (auto split: option.splits)
  have d: "x \<notin> set as" "p \<noteq> x" "p \<notin> set as"
    using lst_distinct [OF Cons.prems(1)] Cons.prems(5) by auto
  show ?case
  proof (cases "check handle n")
    case True
    define h1 where "h1 = (lv_hp v)(p \<mapsto> set_nxt (nxt n) pn)"
    define v1 where "v1 = v\<lparr>lv_hp := h1, lv_freenode := Some x, lv_current := nxt n\<rparr>"
    have loop: "remove_loop nxt set_nxt check handle v = remove_loop nxt set_nxt check handle v1"
      using remove_loop_hit [where check = check and handle = handle, OF x(1,2) True Cons.prems(2,3) d(2)] by (simp add: v1_def h1_def)
    have e: "erase set_nxt h1 = erase set_nxt (lv_hp v)"
      using Cons.prems(3) by (simp add: h1_def erase_upd)
    have f1: "lv_hp v1 = h1" "lv_start v1 = lv_start v" "lv_current v1 = nxt n"
      "lv_previous v1 = Some p" "lv_freenode v1 = Some x"
      using Cons.prems(2) by (simp_all add: v1_def)
    note fm = hits_upd [OF d(3), of check handle "lv_hp v" "set_nxt (nxt n) pn", folded h1_def Cons.prems(6)]
    have l1: "lst nxt (lv_hp v1) (lv_current v1) as" "lv_hp v1 p = Some (set_nxt (nxt n) pn)"
      "nxt (set_nxt (nxt n) pn) = lv_current v1"
      using x d by (simp_all add: f1 h1_def lst_upd)
    from Cons.IH [OF l1(1) f1(4) l1(2,3) d(3) refl]
    obtain v' pn' where v': "remove_loop nxt set_nxt check handle v1 = Some (Inr v')"
      "lv_start v' = lv_start v" "lv_hp v' p = Some pn'"
      "lst nxt (lv_hp v') (nxt pn') (filter (\<lambda>a. \<not> m a) as)"
      "lst nxt (lv_hp v') (nxt n) (takeWhile m as @ filter (\<lambda>a. \<not> m a) as)"
      "erase set_nxt (lv_hp v') = erase set_nxt (lv_hp v)"
      "\<forall>a. a \<noteq> p \<longrightarrow> a \<notin> set as \<longrightarrow> lv_hp v' a = lv_hp v1 a"
      "lv_freenode v' = (if filter m as = [] then Some x else Some (last (filter m as)))"
      "lv_current v' = None"
      unfolding f1 fm e by blast
    have hx: "m x" using True x Cons.prems(6) by (simp add: hits_def)
    have "lv_hp v' x = Some n"
      using v'(7) d x by (simp add: v1_def h1_def)
    with v' loop hx x d show ?thesis
      by (auto simp: v1_def h1_def)
  next
    case False
    define v1 where "v1 = v\<lparr>lv_previous := Some x, lv_current := nxt n\<rparr>"
    have loop: "remove_loop nxt set_nxt check handle v = remove_loop nxt set_nxt check handle v1"
      using remove_loop_miss [where check = check and handle = handle, OF x(1,2) False] by (simp add: v1_def)
    have f1: "lv_hp v1 = lv_hp v" "lv_start v1 = lv_start v" "lv_current v1 = nxt n"
      "lv_previous v1 = Some x" "lv_freenode v1 = lv_freenode v"
      by (simp_all add: v1_def)
    have l1: "lst nxt (lv_hp v1) (lv_current v1) as" "lv_hp v1 x = Some n" "nxt n = lv_current v1"
      using x by (simp_all add: f1)
    have m1: "m = hits check handle (lv_hp v1)" using Cons.prems(6) by (simp add: f1)
    from Cons.IH [OF l1(1) f1(4) l1(2,3) d(1) m1]
    obtain v' n' where v': "remove_loop nxt set_nxt check handle v1 = Some (Inr v')"
      "lv_start v' = lv_start v" "lv_hp v' x = Some n'"
      "lst nxt (lv_hp v') (nxt n') (filter (\<lambda>a. \<not> m a) as)"
      "erase set_nxt (lv_hp v') = erase set_nxt (lv_hp v)"
      "\<forall>a. a \<noteq> x \<longrightarrow> a \<notin> set as \<longrightarrow> lv_hp v' a = lv_hp v a"
      "lv_freenode v' = (if filter m as = [] then lv_freenode v else Some (last (filter m as)))"
      "lv_current v' = None"
      unfolding f1 by blast
    have hx: "\<not> m x" using False x Cons.prems(6) by (simp add: hits_def)
    have "lv_hp v' p = Some pn" using v'(6) d Cons.prems(3) by simp
    with v' loop hx x d Cons.prems(4) show ?thesis by auto
  qed
qed

text \<open>The whole macro, with \<open>previous\<close> NULL as its callers leave it: every match goes except the
  second to last of a run of matches at the head.\<close>

lemma mlinked_list_remove_ok:
  assumes l: "lst nxt (lv_hp v) (lv_start v) as" and p: "lv_previous v = None"
    and m: "m = hits check handle (lv_hp v)"
  shows "\<exists>v'. mlinked_list_remove nxt set_nxt check handle v = Some (Inr v') \<and>
     lst nxt (lv_hp v') (lv_start v') (tl (takeWhile m as) @ filter (\<lambda>a. \<not> m a) as) \<and>
     erase set_nxt (lv_hp v') = erase set_nxt (lv_hp v) \<and>
     (\<forall>a. a \<notin> set as \<longrightarrow> lv_hp v' a = lv_hp v a) \<and>
     lv_freenode v' = (if filter m as = [] then lv_freenode v else Some (last (filter m as)))"
proof (cases as)
  case Nil
  with l show ?thesis by (auto simp: mlinked_list_remove_def)
next
  case (Cons x xs)
  with l obtain n where x: "lv_start v = Some x" "lv_hp v x = Some n" "lst nxt (lv_hp v) (nxt n) xs"
    by (auto split: option.splits)
  have d: "x \<notin> set xs" using lst_distinct [OF l] Cons by simp
  define v1 where "v1 = (if m x then v\<lparr>lv_start := nxt n, lv_previous := Some x, lv_freenode := Some x, lv_current := nxt n\<rparr>
      else v\<lparr>lv_previous := Some x, lv_current := nxt n\<rparr>)"
  have loop: "mlinked_list_remove nxt set_nxt check handle v = remove_loop nxt set_nxt check handle v1"
    using x p m
    by (simp add: mlinked_list_remove_def v1_def hits_def
        remove_loop.simps [of nxt set_nxt check handle "v\<lparr>lv_current := Some x\<rparr>"])
  have l1: "lst nxt (lv_hp v1) (lv_current v1) xs" using x by (simp add: v1_def)
  have h1: "lv_hp v1 = lv_hp v" "lv_current v1 = nxt n" "lv_previous v1 = Some x" by (simp_all add: v1_def)
  from remove_loop_ok [OF l1 h1(3) _ _ d, of n m check handle] x h1 m
  obtain v' n' where v': "remove_loop nxt set_nxt check handle v1 = Some (Inr v')"
    "lv_start v' = lv_start v1" "lv_hp v' x = Some n'"
    "lst nxt (lv_hp v') (nxt n') (filter (\<lambda>a. \<not> m a) xs)"
    "lst nxt (lv_hp v') (nxt n) (takeWhile m xs @ filter (\<lambda>a. \<not> m a) xs)"
    "erase set_nxt (lv_hp v') = erase set_nxt (lv_hp v)"
    "\<forall>a. a \<noteq> x \<longrightarrow> a \<notin> set xs \<longrightarrow> lv_hp v' a = lv_hp v a"
    "lv_freenode v' = (if filter m xs = [] then lv_freenode v1 else Some (last (filter m xs)))"
    by auto
  show ?thesis
  proof (cases "m x")
    case True
    with v' loop Cons show ?thesis by (auto simp: v1_def)
  next
    case False
    with v' loop Cons x show ?thesis by (auto simp: v1_def)
  qed
qed

end

subsection \<open>Walks that do not end\<close>

text \<open>Inside a set of nodes closed under \<open>next\<close> and without a match, the search never returns.\<close>

lemma find_loop_closed:
  assumes closed: "\<And>a. a \<in> S \<Longrightarrow> \<exists>n b. h a = Some n \<and> \<not> check handle n \<and> nxt n = Some b \<and> b \<in> S"
    and a: "a \<in> S"
  shows "find_loop nxt check handle h (Some a) = None"
proof (rule ccontr)
  assume "find_loop nxt check handle h (Some a) \<noteq> None"
  then obtain r where r: "find_loop nxt check handle h (Some a) = Some r" by auto
  have "\<not> (nx = nxt \<and> ch = check \<and> k = handle \<and> hh = h \<and> (\<exists>c \<in> S. p = Some c))"
    if "find_loop nx ch k hh p = Some r" for nx ch k hh p r
  proof (rule find_loop.raw_induct [where P = "\<lambda>nx ch k hh p r.
      \<not> (nx = nxt \<and> ch = check \<and> k = handle \<and> hh = h \<and> (\<exists>c \<in> S. p = Some c))", OF _ that])
    fix f nx ch k hh p r
    assume IH: "\<And>nx ch k hh p r. f nx ch k hh p = Some r \<Longrightarrow>
        \<not> (nx = nxt \<and> ch = check \<and> k = handle \<and> hh = h \<and> (\<exists>c \<in> S. p = Some c))"
      and eq: "(case p of None \<Rightarrow> Some (Inr None)
        | Some c \<Rightarrow> (case hh c of None \<Rightarrow> Some (Inl Invalid_pointer)
          | Some n \<Rightarrow> if ch k n then Some (Inr (Some c)) else f nx ch k hh (nx n))) = Some r"
    show "\<not> (nx = nxt \<and> ch = check \<and> k = handle \<and> hh = h \<and> (\<exists>c \<in> S. p = Some c))"
    proof
      assume "nx = nxt \<and> ch = check \<and> k = handle \<and> hh = h \<and> (\<exists>c \<in> S. p = Some c)"
      then obtain c where e: "nx = nxt" "ch = check" "k = handle" "hh = h" "c \<in> S" "p = Some c" by blast
      from closed [OF e(5)] obtain n b where
        "h c = Some n" "\<not> check handle n" "nxt n = Some b" "b \<in> S" by blast
      with eq e have "f nxt check handle h (Some b) = Some r" by simp
      from IH [OF this] \<open>b \<in> S\<close> show False by blast
    qed
  qed
  from this [OF r] a show False by blast
qed

lemma lst_next_in:
  "lst nxt h p as \<Longrightarrow> a \<in> set as \<Longrightarrow> a \<noteq> last as \<Longrightarrow>
     \<exists>n b. h a = Some n \<and> nxt n = Some b \<and> b \<in> set as"
proof (induction as arbitrary: p)
  case (Cons x as)
  from Cons.prems(1) obtain n where n: "h x = Some n" "lst nxt h (nxt n) as"
    by (auto split: option.splits)
  show ?case
  proof (cases "a = x")
    case True
    with Cons.prems have "as \<noteq> []" by auto
    with n True show ?thesis by (cases "nxt n") (auto simp: lst_Some)
  next
    case False
    with Cons.prems have "a \<in> set as" "a \<noteq> last as" by (auto split: if_splits)
    with Cons.IH [OF n(2)] show ?thesis by auto
  qed
qed simp

subsection \<open>The nodes of the test program\<close>

text \<open>\<open>mll_node_t\<close> of \<open>t/test_mlinked_list.c\<close> and the \<open>check\<close> function it passes.\<close>

record mll_node =
  mll_value :: int
  mll_next :: ptr

definition set_mll_next :: "ptr \<Rightarrow> mll_node \<Rightarrow> mll_node" where
  "set_mll_next p n = n\<lparr>mll_next := p\<rparr>"

definition mll_check :: "int \<Rightarrow> mll_node \<Rightarrow> bool" where
  "mll_check handle n \<longleftrightarrow> mll_value n = handle"

interpretation mll: linked mll_next set_mll_next
  by unfold_locales (simp_all add: set_mll_next_def)

text \<open>The macros on these nodes.\<close>

abbreviation mll_list :: "mll_node heap \<Rightarrow> ptr \<Rightarrow> addr list \<Rightarrow> bool" where
  "mll_list \<equiv> lst mll_next"

abbreviation mll_add :: "mll_node heap \<Rightarrow> ptr \<Rightarrow> addr \<Rightarrow> (ptr \<times> ptr \<times> mll_node heap) res option" where
  "mll_add \<equiv> mlinked_list_add mll_next set_mll_next"

text \<open>The list 1, 2, 3 the test builds, at addresses 10, 20, 30; and one with equal values at its
  head.\<close>

definition three_nodes :: "mll_node heap" where
  "three_nodes = [10 \<mapsto> \<lparr>mll_value = 1, mll_next = Some 20\<rparr>, 20 \<mapsto> \<lparr>mll_value = 2, mll_next = Some 30\<rparr>,
     30 \<mapsto> \<lparr>mll_value = 3, mll_next = None\<rparr>]"

definition twin_nodes :: "mll_node heap" where
  "twin_nodes = [10 \<mapsto> \<lparr>mll_value = 5, mll_next = Some 20\<rparr>, 20 \<mapsto> \<lparr>mll_value = 5, mll_next = Some 30\<rparr>,
     30 \<mapsto> \<lparr>mll_value = 3, mll_next = None\<rparr>]"

subsection \<open>The properties of the macros\<close>

text \<open>\<open>mlinked_list_add\<close> of a fresh node whose \<open>next\<close> is NULL returns, and \<open>start\<close> then leads
  to the old list followed by the new node. Nothing but links of the list's own nodes changes.\<close>

theorem mlinked_list_add_appends:
  assumes "mll_list h p as" and "h new = Some m" "mll_next m = None" "new \<notin> set as"
  shows "\<exists>p' c h'. mll_add h p new = Some (Inr (p', c, h')) \<and> mll_list h' p' (as @ [new]) \<and>
     erase set_mll_next h' = erase set_mll_next h \<and> (\<forall>a. a \<notin> set as \<longrightarrow> h' a = h a)"
  using mll.mlinked_list_add_ok [OF assms] .

theorem mlinked_list_add_appends_witness:
  "\<exists>p' c h'. mll_add (three_nodes(40 \<mapsto> \<lparr>mll_value = 4, mll_next = None\<rparr>)) (Some 10) 40
      = Some (Inr (p', c, h')) \<and> mll_list h' p' [10, 20, 30, 40]"
  using mlinked_list_add_appends [of "three_nodes(40 \<mapsto> \<lparr>mll_value = 4, mll_next = None\<rparr>)" "Some 10"
      "[10, 20, 30]" 40 "\<lparr>mll_value = 4, mll_next = None\<rparr>"]
  by (auto simp: three_nodes_def)

text \<open>\<open>mlinked_list_find\<close> returns the first node that \<open>check\<close> accepts, NULL when there is
  none, and \<open>mlinked_list_length\<close> counts the nodes of any list of fewer than \<open>2 ^ 31\<close> nodes.\<close>

theorem mlinked_list_find_first:
  assumes "mll_list h p as" and "length as \<le> INT_MAX"
  shows "mlinked_list_find mll_next mll_check handle h p
      = Some (Inr (List.find (hits mll_check handle h) as)) \<and>
    mlinked_list_length mll_next h p = Some (Inr (length as))"
  using mll.mlinked_list_find_ok [OF assms(1)] mll.length_loop_ok [OF assms(1), of 0] assms(2)
  by (simp add: mlinked_list_length_def)

theorem mlinked_list_find_first_witness:
  "mlinked_list_find mll_next mll_check 2 three_nodes (Some 10) = Some (Inr (Some 20)) \<and>
   mlinked_list_find mll_next mll_check 9 three_nodes (Some 10) = Some (Inr None) \<and>
   mlinked_list_length mll_next three_nodes (Some 10) = Some (Inr 3)"
  using mlinked_list_find_first [of three_nodes "Some 10" "[10, 20, 30]" 2]
    mlinked_list_find_first [of three_nodes "Some 10" "[10, 20, 30]" 9]
  by (simp add: three_nodes_def hits_def mll_check_def INT_MAX_def)

text \<open>C8: \<open>mlinked_list_remove\<close>, with \<open>previous\<close> NULL, returns on every list. Of the nodes that
  match, it unlinks all but one kind: when the list begins with several matches in a row, the second
  to the last of that run stay linked from \<open>start\<close>. \<open>freenode\<close> is the last match, so earlier
  ones cannot be freed by the caller.\<close>

theorem mlinked_list_remove_exact:
  assumes "mll_list (lv_hp v) (lv_start v) as" and "lv_previous v = None"
  shows "\<exists>v'. mlinked_list_remove mll_next set_mll_next mll_check handle v = Some (Inr v') \<and>
     mll_list (lv_hp v') (lv_start v')
       (tl (takeWhile (hits mll_check handle (lv_hp v)) as) @
        filter (\<lambda>a. \<not> hits mll_check handle (lv_hp v) a) as) \<and>
     erase set_mll_next (lv_hp v') = erase set_mll_next (lv_hp v) \<and>
     lv_freenode v' = (if filter (hits mll_check handle (lv_hp v)) as = [] then lv_freenode v
       else Some (last (filter (hits mll_check handle (lv_hp v)) as)))"
proof -
  from mll.mlinked_list_remove_ok [OF assms refl, of mll_check handle] obtain v' where
    "mlinked_list_remove mll_next set_mll_next mll_check handle v = Some (Inr v')"
    "mll_list (lv_hp v') (lv_start v') (tl (takeWhile (hits mll_check handle (lv_hp v)) as) @
        filter (\<lambda>a. \<not> hits mll_check handle (lv_hp v) a) as)"
    "erase set_mll_next (lv_hp v') = erase set_mll_next (lv_hp v)"
    "lv_freenode v' = (if filter (hits mll_check handle (lv_hp v)) as = [] then lv_freenode v
       else Some (last (filter (hits mll_check handle (lv_hp v)) as)))" by blast
  then show ?thesis by (intro exI [of _ v'] conjI)
qed

theorem mlinked_list_remove_exact_witness:
  "\<exists>v'. mlinked_list_remove mll_next set_mll_next mll_check 5
       \<lparr>lv_hp = twin_nodes, lv_start = Some 10, lv_current = None, lv_previous = None, lv_freenode = None\<rparr>
     = Some (Inr v') \<and> mll_list (lv_hp v') (lv_start v') [20, 30] \<and> lv_freenode v' = Some 20"
proof -
  have h: "hits mll_check 5 twin_nodes = (\<lambda>a. a = 10 \<or> a = 20)"
    by (auto simp: fun_eq_iff hits_def twin_nodes_def mll_check_def)
  have l: "mll_list twin_nodes (Some 10) [10, 20, 30]" by (simp add: twin_nodes_def)
  show ?thesis
    using mlinked_list_remove_exact [of "\<lparr>lv_hp = twin_nodes, lv_start = Some 10, lv_current = None,
      lv_previous = None, lv_freenode = None\<rparr>" "[10, 20, 30]" 5] l
    by (simp only: remove_vars.simps h) fastforce
qed

text \<open>Adding the node that is already the last one ties it to itself: the macro returns, but a
  search for a value that no node has then never returns.\<close>

theorem mlinked_list_add_twice_loops:
  assumes l: "mll_list h p as" and ne: "as \<noteq> []"
    and none: "\<forall>a \<in> set as. \<not> hits mll_check handle h a"
  shows "\<exists>p' c h'. mll_add h p (last as) = Some (Inr (p', c, h')) \<and>
     mlinked_list_find mll_next mll_check handle h' p' = None"
proof -
  from l ne obtain a n where p: "p = Some a" and n: "h (last as) = Some n"
    using lst_live [OF l, of "last as"] by (cases p) auto
  define h' where "h' = h(last as \<mapsto> set_mll_next (Some (last as)) n)"
  have add: "mll_add h p (last as) = Some (Inr (p, Some (last as), h'))"
    using mll.walk_last_ok [of h a as] l p n
    by (simp add: mlinked_list_add_def set_next_at_def h'_def)
  have "\<exists>m b'. h' b = Some m \<and> \<not> mll_check handle m \<and> mll_next m = Some b' \<and> b' \<in> set as"
    if b: "b \<in> set as" for b
  proof (cases "b = last as")
    case True
    moreover from none ne have "\<not> hits mll_check handle h (last as)" by simp
    ultimately show ?thesis
      using n ne by (simp add: h'_def set_mll_next_def mll_check_def hits_def)
  next
    case False
    with lst_next_in [OF l b] none b show ?thesis by (auto simp: h'_def hits_def)
  qed
  moreover have "a \<in> set as" using l p by (auto simp: lst_Some)
  ultimately have "find_loop mll_next mll_check handle h' (Some a) = None"
    by (rule find_loop_closed)
  with add p show ?thesis by (auto simp: mlinked_list_find_def)
qed

theorem mlinked_list_add_twice_loops_witness:
  "\<exists>p' c h'. mll_add three_nodes (Some 10) 30 = Some (Inr (p', c, h')) \<and>
     mlinked_list_find mll_next mll_check 9 h' p' = None"
  using mlinked_list_add_twice_loops [of three_nodes "Some 10" "[10, 20, 30]" 9]
  by (simp add: three_nodes_def hits_def mll_check_def)

end
