(* ===== verification/Mqueue.thy ===== *)
theory Mqueue
  imports Prelude
begin

section \<open>The queue of madt.c (\<open>mqueue_t\<close>)\<close>

text \<open>
  \<open>mqueue_t\<close> keeps \<open>void *\<close> items in a growing array: \<open>front\<close> is the index of the next
  item to leave, \<open>rear\<close> that of the last item that came in (\<open>(uint64_t)-1\<close> before the first),
  and every \<open>GC_COUNT\<close> dequeues the live segment is moved down to index 0. The model keeps the
  counters as 64-bit words and the array as a bounds-checked block, so that growing, moving and
  indexing can go wrong where the C can. This theory holds the single-threaded build; the
  condition-variable build is in \<open>Mqueue_Threads\<close>. \<open>malloc\<close>/\<open>realloc\<close> succeed or fail as
  the parameter \<open>mok\<close> (by size in bytes) says.
\<close>

subsection \<open>State\<close>

definition QUEUE_NAME_SIZE :: nat where
  "QUEUE_NAME_SIZE = 128"

text \<open>Items are \<open>void *\<close>: \<open>None\<close> is the NULL pointer.\<close>

record 'a mqueue =
  data :: "'a option block"
  front :: u64
  rear :: u64
  max_size :: u64
  gc_run :: u64
  alloc_size :: u64
  description :: "byte list"

definition GC_COUNT :: u64 where
  "GC_COUNT = 100"

text \<open>\<open>sizeof(void *)\<close> on the 64-bit targets of the build.\<close>

definition sizeof_ptr :: u64 where
  "sizeof_ptr = 8"

subsection \<open>Operations\<close>

definition mqueue_size_int :: "'a mqueue \<Rightarrow> u64" where
  "mqueue_size_int q = rear q + 1 - front q"

definition mqueue_size :: "'a mqueue \<Rightarrow> u64" where
  "mqueue_size q = mqueue_size_int q"

text \<open>\<open>bzero\<close> of the 128 bytes, then \<open>strncpy\<close> of at most 128 bytes of the name.\<close>

definition mqueue_name :: "byte list option \<Rightarrow> byte list" where
  "mqueue_name desc = (case desc of
     None \<Rightarrow> replicate QUEUE_NAME_SIZE 0
   | Some s \<Rightarrow> strncpy_bytes s QUEUE_NAME_SIZE)"

definition mqueue_init ::
  "(u64 \<Rightarrow> bool) \<Rightarrow> u64 \<Rightarrow> u64 \<Rightarrow> byte list option \<Rightarrow> 'a mqueue res" where
  "mqueue_init mok initial_size maxs desc =
     (let isize = (if initial_size < 1 then 1 else initial_size);
          data_size = isize * sizeof_ptr
      in rbind (require Assert_failed (mok data_size)) (\<lambda>_.
         Inr \<lparr>data = blk_alloc (unat data_size div unat sizeof_ptr),
              front = 0, rear = - 1, max_size = maxs, gc_run = GC_COUNT,
              alloc_size = isize, description = mqueue_name desc\<rparr>))"

definition mqueue_destroy :: "'a mqueue \<Rightarrow> 'a mqueue res" where
  "mqueue_destroy q = rbind (blk_free (data q)) (\<lambda>b. Inr (q\<lparr>data := b\<rparr>))"

text \<open>The common tail of both builds of \<open>mqueue_enqueue\<close>: advance \<open>rear\<close>, grow, store.\<close>

definition mqueue_grow :: "(u64 \<Rightarrow> bool) \<Rightarrow> 'a mqueue \<Rightarrow> 'a mqueue res" where
  "mqueue_grow mok q =
     (if rear q = alloc_size q then
        let data_size = alloc_size q * sizeof_ptr
        in rbind (require Assert_failed (mok (data_size * 2))) (\<lambda>_.
           rbind (blk_realloc (data q) (unat (data_size * 2) div unat sizeof_ptr)) (\<lambda>b.
           Inr (q\<lparr>data := b, alloc_size := alloc_size q * 2\<rparr>)))
      else Inr q)"

definition mqueue_append ::
  "(u64 \<Rightarrow> bool) \<Rightarrow> 'a mqueue \<Rightarrow> 'a option \<Rightarrow> (u64 \<times> 'a mqueue) res" where
  "mqueue_append mok q item =
     rbind (mqueue_grow mok (q\<lparr>rear := rear q + 1\<rparr>)) (\<lambda>q.
     rbind (blk_write (data q) (unat (rear q)) item) (\<lambda>b.
     let q = q\<lparr>data := b\<rparr> in Inr (mqueue_size_int q, q)))"

text \<open>\<open>return -1\<close> from a \<open>uint64_t\<close> function: the largest 64-bit value.\<close>

definition mqueue_enqueue ::
  "(u64 \<Rightarrow> bool) \<Rightarrow> 'a mqueue \<Rightarrow> 'a option \<Rightarrow> (u64 \<times> 'a mqueue) res" where
  "mqueue_enqueue mok q item =
     (if max_size q > 0 \<and> mqueue_size_int q = max_size q then Inr (- 1, q)
      else mqueue_append mok q item)"

definition mqueue_vacuum :: "'a mqueue \<Rightarrow> 'a mqueue res" where
  "mqueue_vacuum q =
     (if front q = 0 then Inr q
      else let bytes2copy = sizeof_ptr * mqueue_size_int q
           in rbind (blk_move_down (data q) (unat (front q)) (unat bytes2copy div unat sizeof_ptr))
                (\<lambda>b. Inr (q\<lparr>data := b, rear := rear q - front q, front := 0\<rparr>)))"

text \<open>The common tail of both builds of \<open>mqueue_dequeue\<close>: take the item, run housekeeping.\<close>

definition mqueue_take :: "'a mqueue \<Rightarrow> ('a option \<times> 'a mqueue) res" where
  "mqueue_take q =
     rbind (blk_read (data q) (unat (front q))) (\<lambda>item.
     let q = q\<lparr>front := front q + 1, gc_run := gc_run q - 1\<rparr>
     in if gc_run q = 0
        then rbind (mqueue_vacuum q) (\<lambda>q. Inr (item, q\<lparr>gc_run := GC_COUNT\<rparr>))
        else Inr (item, q))"

definition mqueue_dequeue :: "'a mqueue \<Rightarrow> ('a option \<times> 'a mqueue) res" where
  "mqueue_dequeue q = (if mqueue_size_int q = 0 then Inr (None, q) else mqueue_take q)"

subsection \<open>Invariant and abstraction\<close>

text \<open>
  The live segment is \<open>[q_first, q_end)\<close>. The invariant bounds the array below \<open>2 ^ 60\<close>
  slots (so that its byte size does not wrap), says that the segment lies in the array and has
  been written, and ties \<open>front\<close> to the countdown \<open>gc_run\<close>.
\<close>

definition q_first :: "'a mqueue \<Rightarrow> nat" where
  "q_first q = unat (front q)"

definition q_end :: "'a mqueue \<Rightarrow> nat" where
  "q_end q = unat (rear q + 1)"

definition segment :: "'a mqueue \<Rightarrow> 'a option cells" where
  "segment q = take (q_end q - q_first q) (drop (q_first q) (blk_cells (data q)))"

definition contents :: "'a mqueue \<Rightarrow> 'a option list" where
  "contents q = values_of (segment q)"

definition mqueue_inv :: "'a mqueue \<Rightarrow> bool" where
  "mqueue_inv q \<longleftrightarrow>
     data q \<noteq> Freed \<and> length (blk_cells (data q)) = unat (alloc_size q) \<and>
     0 < unat (alloc_size q) \<and> unat (alloc_size q) \<le> 2 ^ 60 \<and>
     q_first q \<le> q_end q \<and> q_end q \<le> unat (alloc_size q) \<and>
     initialised (segment q) \<and>
     0 < unat (gc_run q) \<and> q_first q + unat (gc_run q) \<le> 100"

text \<open>Room to store one more item: a free slot, or an array that may be doubled.\<close>

definition growable :: "(u64 \<Rightarrow> bool) \<Rightarrow> 'a mqueue \<Rightarrow> bool" where
  "growable mok q \<longleftrightarrow>
     (q_end q = unat (alloc_size q) \<longrightarrow>
        unat (alloc_size q) \<le> 2 ^ 59 \<and> mok (alloc_size q * sizeof_ptr * 2))"

subsection \<open>Each operation keeps the invariant and acts as the queue operation\<close>

lemma unat_GC_COUNT [simp]: "unat GC_COUNT = 100"
  by (simp add: GC_COUNT_def)

lemma unat_sizeof_ptr [simp]: "unat sizeof_ptr = 8"
  by (simp add: sizeof_ptr_def)

lemma mqueue_invE:
  assumes "mqueue_inv q"
  obtains b where "data q = Live b" "length b = unat (alloc_size q)" "0 < unat (alloc_size q)"
    "unat (alloc_size q) \<le> 2 ^ 60" "q_first q \<le> q_end q" "q_end q \<le> unat (alloc_size q)"
    "initialised (segment q)" "0 < unat (gc_run q)" "q_first q + unat (gc_run q) \<le> 100"
  using assms by (cases "data q") (auto simp: mqueue_inv_def)

lemma length_segment: "mqueue_inv q \<Longrightarrow> length (segment q) = q_end q - q_first q"
  by (auto simp: mqueue_inv_def segment_def)

lemma length_contents: "mqueue_inv q \<Longrightarrow> length (contents q) = q_end q - q_first q"
  by (simp add: contents_def length_segment)

lemma unat_size_int:
  assumes "mqueue_inv q"
  shows "unat (mqueue_size_int q) = length (contents q)"
proof -
  have "front q \<le> rear q + 1"
    using assms by (auto simp: mqueue_inv_def q_first_def q_end_def word_le_nat_alt)
  then show ?thesis
    using assms by (simp add: mqueue_size_int_def length_contents q_first_def q_end_def unat_sub)
qed

lemma size_int_eq_0: "mqueue_inv q \<Longrightarrow> mqueue_size_int q = 0 \<longleftrightarrow> contents q = []"
  using unat_size_int [of q] by (metis length_0_conv unat_eq_zero)

lemma unat_bytes: "unat (n :: u64) * 8 < 2 ^ 64 \<Longrightarrow> unat (n * sizeof_ptr) = unat n * 8"
  by (simp add: sizeof_ptr_def unat_word_ariths)

lemma mqueue_init_ok:
  assumes "unat n \<le> 2 ^ 60" and "mok ((if n < 1 then 1 else n) * sizeof_ptr)"
  shows "\<exists>q. mqueue_init mok n m desc = Inr q \<and> mqueue_inv q \<and> contents q = [] \<and> max_size q = m \<and>
     description q = mqueue_name desc \<and> unat (alloc_size q) = max 1 (unat n)"
proof -
  define k where "k = (if n < 1 then 1 else n)"
  have k: "unat k = max 1 (unat n)"
    by (auto simp: k_def word_less_nat_alt)
  with assms have "unat k \<le> 2 ^ 60" by simp
  then have b: "unat (k * sizeof_ptr) = unat k * 8"
    by (intro unat_bytes) simp
  show ?thesis
    using assms(2) unfolding mqueue_init_def k_def [symmetric] Let_def
    using b k \<open>unat k \<le> 2 ^ 60\<close>
    by (simp add: mqueue_inv_def contents_def segment_def q_first_def q_end_def blk_alloc_def)
qed
lemma mqueue_grow_ok:
  assumes inv: "mqueue_inv q" and room: "growable mok q"
  shows "\<exists>b a. mqueue_grow mok (q\<lparr>rear := rear q + 1\<rparr>)
             = Inr (q\<lparr>rear := rear q + 1, data := Live b, alloc_size := a\<rparr>)
           \<and> length b = unat a \<and> q_end q < unat a \<and> unat a \<le> 2 ^ 60 \<and>
           take (unat (alloc_size q)) b = blk_cells (data q) \<and>
           unat a = (if q_end q = unat (alloc_size q) then 2 * q_end q else unat (alloc_size q))"
proof -
  from inv obtain b where b: "data q = Live b" "length b = unat (alloc_size q)"
      "q_end q \<le> unat (alloc_size q)" "unat (alloc_size q) \<le> 2 ^ 60" "0 < unat (alloc_size q)"
    by (rule mqueue_invE)
  show ?thesis
  proof (cases "rear q + 1 = alloc_size q")
    case True
    then have e: "q_end q = unat (alloc_size q)" by (simp add: q_end_def)
    with room have s: "unat (alloc_size q) \<le> 2 ^ 59" and m: "mok (alloc_size q * sizeof_ptr * 2)"
      by (auto simp: growable_def)
    have "unat (alloc_size q * sizeof_ptr * 2) = unat (alloc_size q) * 16"
      using s by (simp add: sizeof_ptr_def unat_word_ariths)
    moreover have "unat (alloc_size q * 2) = unat (alloc_size q) * 2"
      using s by (simp add: unat_word_ariths)
    ultimately show ?thesis
      using True b e m s by (auto simp: mqueue_grow_def Let_def intro!: exI)
  next
    case False
    then have "q_end q < unat (alloc_size q)"
      using b(3) by (metis le_neq_implies_less q_end_def word_unat_eq_iff)
    with False b show ?thesis
      by (intro exI [of _ b] exI [of _ "alloc_size q"]) (simp add: mqueue_grow_def)
  qed
qed

lemma mqueue_append_ok:
  assumes inv: "mqueue_inv q" and room: "growable mok q"
  shows "\<exists>q'. mqueue_append mok q x = Inr (of_nat (length (contents q) + 1), q') \<and> mqueue_inv q' \<and>
     contents q' = contents q @ [x] \<and> max_size q' = max_size q \<and> front q' = front q \<and>
     gc_run q' = gc_run q \<and> description q' = description q \<and> q_end q' = q_end q + 1 \<and>
     unat (alloc_size q') =
       (if q_end q = unat (alloc_size q) then 2 * q_end q else unat (alloc_size q))"
proof -
  from mqueue_grow_ok [OF inv room] obtain b a where
    g: "mqueue_grow mok (q\<lparr>rear := rear q + 1\<rparr>)
          = Inr (q\<lparr>rear := rear q + 1, data := Live b, alloc_size := a\<rparr>)"
    and len: "length b = unat a" and e: "q_end q < unat a" and a: "unat a \<le> 2 ^ 60"
    and pre: "take (unat (alloc_size q)) b = blk_cells (data q)"
    and dbl: "unat a = (if q_end q = unat (alloc_size q) then 2 * q_end q else unat (alloc_size q))"
    by blast
  define q' where "q' = q\<lparr>rear := rear q + 1, alloc_size := a, data := Live (b[q_end q := Some x])\<rparr>"
  have r: "unat (rear q + 1) = q_end q" by (simp add: q_end_def)
  have e': "q_end q' = Suc (q_end q)" "q_first q' = q_first q"
    using e a unat_add_1 [of "rear q + 1"] by (simp_all add: q'_def q_end_def q_first_def)
  have eq: "mqueue_append mok q x = Inr (mqueue_size_int q', q')"
    using g len e by (simp add: mqueue_append_def r q'_def Let_def)
  from inv have fe: "q_first q \<le> q_end q" "q_end q \<le> unat (alloc_size q)"
    by (auto elim: mqueue_invE)
  have "segment q' = take (q_end q - q_first q) (drop (q_first q) b) @ [Some x]"
    unfolding segment_def e' using segment_snoc [of "q_first q" "q_end q" b x] fe e len
    by (simp add: q'_def)
  also have "take (q_end q - q_first q) (drop (q_first q) b) = segment q"
    unfolding segment_def pre [symmetric] using fe by (simp add: drop_take min_def)
  finally have seg: "segment q' = segment q @ [Some x]" .
  have inv': "mqueue_inv q'"
    using inv e fe len a unfolding mqueue_inv_def seg e' by (auto simp: q'_def)
  have con: "contents q' = contents q @ [x]" by (simp add: contents_def seg)
  have "mqueue_size_int q' = of_nat (length (contents q) + 1)"
    using unat_size_int [OF inv'] con by (intro word_eq_of_nat) simp
  then show ?thesis
    using eq inv' con e' dbl by (intro exI [of _ q']) (simp add: q'_def)
qed

lemma contents_nonempty:
  assumes inv: "mqueue_inv q" and c: "contents q = x # xs"
  shows "blk_read (data q) (q_first q) = Inr x" and "q_first q < q_end q"
    and "values_of (take (q_end q - Suc (q_first q)) (drop (Suc (q_first q)) (blk_cells (data q)))) = xs"
    and "initialised (take (q_end q - Suc (q_first q)) (drop (Suc (q_first q)) (blk_cells (data q))))"
proof -
  from inv obtain b where b: "data q = Live b" "length b = unat (alloc_size q)"
      "q_end q \<le> length b" "initialised (segment q)"
    by (auto elim!: mqueue_invE)
  show lt: "q_first q < q_end q"
    using c length_contents [OF inv] by simp
  obtain seg: "segment q = Some x # take (q_end q - Suc (q_first q)) (drop (Suc (q_first q)) b)"
    and "b ! q_first q = Some x"
  proof -
    have d: "drop (q_first q) b = b ! q_first q # drop (Suc (q_first q)) b"
      using lt b(3) by (simp add: Cons_nth_drop_Suc)
    moreover have "q_end q - q_first q = Suc (q_end q - Suc (q_first q))"
      using lt by simp
    ultimately have "segment q = b ! q_first q # take (q_end q - Suc (q_first q)) (drop (Suc (q_first q)) b)"
      by (simp add: segment_def b(1))
    moreover from this have "b ! q_first q = Some x"
      using b(4) c by (auto simp: contents_def)
    ultimately show thesis using that by simp
  qed
  then show "blk_read (data q) (q_first q) = Inr x"
    using lt b by simp
  show "values_of (take (q_end q - Suc (q_first q)) (drop (Suc (q_first q)) (blk_cells (data q)))) = xs"
    and "initialised (take (q_end q - Suc (q_first q)) (drop (Suc (q_first q)) (blk_cells (data q))))"
    using seg c b by (simp_all add: contents_def)
qed

lemma mqueue_vacuum_ok:
  assumes inv: "data q = Live b" "length b = unat (alloc_size q)" "unat (alloc_size q) \<le> 2 ^ 60"
      "q_first q \<le> q_end q" "q_end q \<le> unat (alloc_size q)"
  shows "\<exists>q'. mqueue_vacuum q = Inr q' \<and> segment q' = segment q \<and> front q' = 0 \<and>
      q_end q' = q_end q - q_first q \<and> max_size q' = max_size q \<and> alloc_size q' = alloc_size q \<and>
      gc_run q' = gc_run q \<and> description q' = description q \<and> data q' \<noteq> Freed \<and>
      length (blk_cells (data q')) = unat (alloc_size q)"
proof (cases "front q = 0")
  case True
  then show ?thesis using inv by (auto simp: mqueue_vacuum_def q_first_def)
next
  case False
  have le: "front q \<le> rear q + 1"
    using inv by (auto simp: q_first_def q_end_def word_le_nat_alt)
  have n: "unat (mqueue_size_int q) = q_end q - q_first q"
    using le by (simp add: mqueue_size_int_def q_first_def q_end_def unat_sub)
  have "unat (sizeof_ptr * mqueue_size_int q) div 8 = q_end q - q_first q"
    using n inv unat_bytes [of "mqueue_size_int q"] by (simp add: mult.commute)
  moreover have "unat (rear q - front q + 1) = q_end q - q_first q"
    using n by (simp add: mqueue_size_int_def algebra_simps)
  ultimately show ?thesis
    using False inv by (auto simp: mqueue_vacuum_def q_first_def q_end_def segment_def)
qed

lemma mqueue_take_ok:
  assumes inv: "mqueue_inv q" and c: "contents q = x # xs"
  shows "\<exists>q'. mqueue_take q = Inr (x, q') \<and> mqueue_inv q' \<and> contents q' = xs \<and>
     max_size q' = max_size q \<and> alloc_size q' = alloc_size q \<and> description q' = description q \<and>
     q_end q' \<le> q_end q"
proof -
  define q1 where "q1 = q\<lparr>front := front q + 1, gc_run := gc_run q - 1\<rparr>"
  from inv obtain b where b: "data q = Live b" "length b = unat (alloc_size q)" "0 < unat (alloc_size q)"
      "unat (alloc_size q) \<le> 2 ^ 60" "q_end q \<le> unat (alloc_size q)"
      "0 < unat (gc_run q)" "q_first q + unat (gc_run q) \<le> 100"
    by (rule mqueue_invE)
  note ne = contents_nonempty [OF inv c]
  have f1: "q_first q1 = Suc (q_first q)"
    using ne(2) b(4,5) unat_add_1 [of "front q"] by (simp add: q1_def q_first_def)
  have g1: "unat (gc_run q1) = unat (gc_run q) - 1"
    using b(6) by (simp add: q1_def unat_sub_1)
  have e1: "q_end q1 = q_end q" by (simp add: q1_def q_end_def)
  have seg1: "values_of (segment q1) = xs" "initialised (segment q1)"
    using ne(3,4) by (simp_all add: segment_def f1 e1) (simp_all add: q1_def)
  have tk: "mqueue_take q = (if gc_run q1 = 0
        then rbind (mqueue_vacuum q1) (\<lambda>q. Inr (x, q\<lparr>gc_run := GC_COUNT\<rparr>)) else Inr (x, q1))"
    using ne(1) by (simp add: mqueue_take_def q1_def q_first_def Let_def)
  show ?thesis
  proof (cases "gc_run q1 = 0")
    case False
    then have "0 < unat (gc_run q1)" by (simp add: unat_gt_0)
    then have "mqueue_inv q1"
      using b ne(2) f1 g1 e1 seg1 by (auto simp: mqueue_inv_def) (auto simp: q1_def)
    with False seg1 e1 show ?thesis
      by (intro exI [of _ q1]) (simp add: tk contents_def, simp add: q1_def)
  next
    case True
    have "\<exists>q'. mqueue_vacuum q1 = Inr q' \<and> segment q' = segment q1 \<and> front q' = 0 \<and>
      q_end q' = q_end q1 - q_first q1 \<and> max_size q' = max_size q1 \<and> alloc_size q' = alloc_size q1 \<and>
      gc_run q' = gc_run q1 \<and> description q' = description q1 \<and> data q' \<noteq> Freed \<and>
      length (blk_cells (data q')) = unat (alloc_size q1)"
      using b ne(2) f1 e1 by (intro mqueue_vacuum_ok [of _ b]) (simp_all, simp_all add: q1_def)
    then obtain q2 where v: "mqueue_vacuum q1 = Inr q2" and s2: "segment q2 = segment q1"
      and q2: "front q2 = 0" "q_end q2 = q_end q1 - q_first q1" "max_size q2 = max_size q"
        "alloc_size q2 = alloc_size q" "description q2 = description q" "data q2 \<noteq> Freed"
        "length (blk_cells (data q2)) = unat (alloc_size q)"
      by (auto simp: q1_def)
    define q3 where "q3 = q2\<lparr>gc_run := GC_COUNT\<rparr>"
    have s3: "segment q3 = segment q2" "q_end q3 = q_end q2" "q_first q3 = 0"
      using q2 by (simp_all add: q3_def segment_def q_first_def q_end_def)
    have "mqueue_inv q3"
      using q2 b e1 f1 ne(2) s2 s3 seg1 by (auto simp: mqueue_inv_def) (auto simp: q3_def)
    with True v s2 s3 seg1 q2 e1 show ?thesis
      by (intro exI [of _ q3]) (simp add: tk contents_def, simp add: q3_def)
  qed
qed

lemma mqueue_vacuum_inv:
  assumes inv: "mqueue_inv q"
  shows "\<exists>q'. mqueue_vacuum q = Inr q' \<and> mqueue_inv q' \<and> contents q' = contents q \<and>
      front q' = 0 \<and> max_size q' = max_size q \<and> alloc_size q' = alloc_size q \<and> q_end q' \<le> q_end q"
proof -
  from inv obtain b where b: "data q = Live b" "length b = unat (alloc_size q)"
      "unat (alloc_size q) \<le> 2 ^ 60" "q_first q \<le> q_end q" "q_end q \<le> unat (alloc_size q)"
    by (rule mqueue_invE)
  from mqueue_vacuum_ok [OF b] obtain q' where q':
    "mqueue_vacuum q = Inr q'" "segment q' = segment q" "front q' = 0"
      "q_end q' = q_end q - q_first q" "max_size q' = max_size q" "alloc_size q' = alloc_size q"
      "gc_run q' = gc_run q" "data q' \<noteq> Freed" "length (blk_cells (data q')) = unat (alloc_size q)"
    by blast
  moreover have "q_first q' = 0" using q' by (simp add: q_first_def)
  ultimately have "mqueue_inv q'"
    using inv b by (auto simp: mqueue_inv_def)
  with q' show ?thesis by (intro exI [of _ q']) (simp add: contents_def)
qed
end
