(* ===== verification/Mqueue_Spec.thy ===== *)
theory Mqueue_Spec
  imports Mqueue
begin

section \<open>What the queue promises: a bounded first-in first-out list\<close>

text \<open>
  The contract of \<open>mqueue_t\<close> as a locale (\<open>fifo\<close>, extended by \<open>bounded_fifo\<close>) over the
  operations a client calls, its interpretation on the model of the C code, and the refinement
  of whole runs: any sequence of operations on the array queue returns what the same sequence
  returns on an abstract list, and a bounded queue needs a bounded array however long it runs.
\<close>

subsection \<open>The contract\<close>

locale fifo =
  fixes inv :: "'q \<Rightarrow> bool" and items :: "'q \<Rightarrow> 'i list" and room :: "'q \<Rightarrow> bool"
    and push :: "'q \<Rightarrow> 'i \<Rightarrow> ('n \<times> 'q) res" and pop :: "'q \<Rightarrow> ('i \<times> 'q) res"
  assumes push_law: "inv q \<Longrightarrow> room q \<Longrightarrow>
      \<exists>n q'. push q x = Inr (n, q') \<and> inv q' \<and> items q' = items q @ [x]"
    and pop_law: "inv q \<Longrightarrow> items q = x # xs \<Longrightarrow>
      \<exists>q'. pop q = Inr (x, q') \<and> inv q' \<and> items q' = xs"

locale bounded_fifo = fifo inv items room push pop
  for inv :: "'q \<Rightarrow> bool" and items :: "'q \<Rightarrow> 'i list" and room :: "'q \<Rightarrow> bool"
    and push :: "'q \<Rightarrow> 'i \<Rightarrow> ('n \<times> 'q) res" and pop :: "'q \<Rightarrow> ('i \<times> 'q) res" +
  fixes cap :: "'q \<Rightarrow> nat"
  assumes room_law: "inv q \<Longrightarrow> length (items q) < cap q \<longleftrightarrow> room q"
    and push_cap: "inv q \<Longrightarrow> room q \<Longrightarrow> push q x = Inr (n, q') \<Longrightarrow> cap q' = cap q"
    and pop_cap: "inv q \<Longrightarrow> items q \<noteq> [] \<Longrightarrow> pop q = Inr (y, q') \<Longrightarrow> cap q' = cap q"
    and within_cap: "inv q \<Longrightarrow> length (items q) \<le> cap q"

text \<open>Filling and draining through an interface, used by its clients.\<close>

fun push_all :: "('q \<Rightarrow> 'i \<Rightarrow> ('n \<times> 'q) res) \<Rightarrow> 'q \<Rightarrow> 'i list \<Rightarrow> 'q res" where
  "push_all push q [] = Inr q"
| "push_all push q (x # xs) = rbind (push q x) (\<lambda>(_, q'). push_all push q' xs)"

fun pop_n :: "('q \<Rightarrow> ('i \<times> 'q) res) \<Rightarrow> nat \<Rightarrow> 'q \<Rightarrow> ('i list \<times> 'q) res" where
  "pop_n pop 0 q = Inr ([], q)"
| "pop_n pop (Suc n) q =
     rbind (pop q) (\<lambda>(x, q'). rbind (pop_n pop n q') (\<lambda>(xs, q''). Inr (x # xs, q'')))"

context fifo
begin

lemma pushD:
  assumes "inv q" "room q" "push q x = Inr (n, q')"
  shows "inv q'" and "items q' = items q @ [x]"
  using push_law [OF assms(1,2), of x] assms(3) by auto

lemma popD:
  assumes "inv q" "items q \<noteq> []" "pop q = Inr (y, q')"
  shows "inv q'" and "items q = y # items q'"
proof -
  from assms(2) obtain x xs where "items q = x # xs" by (cases "items q") auto
  with pop_law [OF assms(1) this] assms(3) show "inv q'" and "items q = y # items q'" by auto
qed

lemma drain_order:
  "inv q \<Longrightarrow> items q = xs @ ys \<Longrightarrow>
     \<exists>q'. pop_n pop (length xs) q = Inr (xs, q') \<and> inv q' \<and> items q' = ys"
proof (induction xs arbitrary: q)
  case Nil
  then show ?case by simp
next
  case (Cons x xs)
  then obtain q1 where "pop q = Inr (x, q1)" "inv q1" "items q1 = xs @ ys"
    using pop_law [of q x "xs @ ys"] by auto
  with Cons.IH [of q1] show ?case by auto
qed

end

context bounded_fifo
begin

lemma fill_ok:
  "inv q \<Longrightarrow> length (items q) + length xs \<le> cap q \<Longrightarrow>
     \<exists>q'. push_all push q xs = Inr q' \<and> inv q' \<and> items q' = items q @ xs \<and> cap q' = cap q"
proof (induction xs arbitrary: q)
  case Nil
  then show ?case by simp
next
  case (Cons x xs)
  then have r: "room q" by (simp add: room_law [symmetric])
  with Cons.prems(1) obtain n q1 where q1: "push q x = Inr (n, q1)" "inv q1" "items q1 = items q @ [x]"
    using push_law by blast
  moreover from this have "cap q1 = cap q" using push_cap [OF Cons.prems(1) r] by blast
  ultimately show ?case using Cons.IH [of q1] Cons.prems(2) by auto
qed

text \<open>What is put in comes out, in that order, after what was there.\<close>

lemma fill_then_drain:
  assumes "inv q" "length (items q) + length xs \<le> cap q"
  shows "\<exists>q' q''. push_all push q xs = Inr q' \<and>
     pop_n pop (length (items q) + length xs) q' = Inr (items q @ xs, q'') \<and> inv q'' \<and> items q'' = []"
proof -
  from fill_ok [OF assms] obtain q' where q': "push_all push q xs = Inr q'" "inv q'" "items q' = items q @ xs"
    by blast
  with drain_order [of q' "items q @ xs" "[]"] show ?thesis by auto
qed

end

subsection \<open>The C queue meets it\<close>

text \<open>A machine whose \<open>malloc\<close> never fails, and a bounded queue of at most \<open>2 ^ 58\<close> items.\<close>

definition malloc_total :: "u64 \<Rightarrow> bool" where
  "malloc_total s = True"

definition bounded_inv :: "'a mqueue \<Rightarrow> bool" where
  "bounded_inv q \<longleftrightarrow> mqueue_inv q \<and> 0 < unat (max_size q) \<and> unat (max_size q) \<le> 2 ^ 58 \<and>
     length (contents q) \<le> unat (max_size q)"

definition has_room :: "'a mqueue \<Rightarrow> bool" where
  "has_room q \<longleftrightarrow> length (contents q) < unat (max_size q)"

lemma q_end_bound: "mqueue_inv q \<Longrightarrow> q_end q \<le> 99 + length (contents q)"
  by (auto simp: length_contents mqueue_inv_def)

lemma growable_total: "mqueue_inv q \<Longrightarrow> q_end q \<le> 2 ^ 59 \<Longrightarrow> growable malloc_total q"
  by (simp add: growable_def malloc_total_def)

interpretation bq: bounded_fifo bounded_inv contents has_room "mqueue_append malloc_total" mqueue_take
  "\<lambda>q. unat (max_size q)"
proof unfold_locales
  fix q :: "'a mqueue" and x
  assume q: "bounded_inv q" "has_room q"
  then have "growable malloc_total q"
    using q_end_bound [of q] by (intro growable_total) (auto simp: bounded_inv_def)
  with q mqueue_append_ok [of q malloc_total x]
  show "\<exists>n q'. mqueue_append malloc_total q x = Inr (n, q') \<and> bounded_inv q' \<and> contents q' = contents q @ [x]"
    by (auto simp: bounded_inv_def has_room_def)
  fix n q'
  assume "mqueue_append malloc_total q x = Inr (n, q')"
  with q \<open>growable malloc_total q\<close> mqueue_append_ok [of q malloc_total x]
  show "unat (max_size q') = unat (max_size q)"
    by (auto simp: bounded_inv_def)
next
  fix q :: "'a mqueue" and x xs
  assume "bounded_inv q" "contents q = x # xs"
  with mqueue_take_ok [of q x xs]
  show "\<exists>q'. mqueue_take q = Inr (x, q') \<and> bounded_inv q' \<and> contents q' = xs"
    by (auto simp: bounded_inv_def)
next
  fix q q' :: "'a mqueue" and y
  assume "bounded_inv q" "contents q \<noteq> []" "mqueue_take q = Inr (y, q')"
  then show "unat (max_size q') = unat (max_size q)"
    using mqueue_take_ok [of q "hd (contents q)" "tl (contents q)"] by (auto simp: bounded_inv_def)
qed (auto simp: bounded_inv_def has_room_def)

subsection \<open>Runs of operations\<close>

datatype 'a qop = Enqueue "'a option" | Dequeue | Vacuum | Size

datatype 'a qout = Count u64 | Item "'a option" | Vacuumed

fun queue_step :: "(u64 \<Rightarrow> bool) \<Rightarrow> 'a mqueue \<Rightarrow> 'a qop \<Rightarrow> ('a qout \<times> 'a mqueue) res" where
  "queue_step mok q (Enqueue x) = rbind (mqueue_enqueue mok q x) (\<lambda>(n, q'). Inr (Count n, q'))"
| "queue_step mok q Dequeue = rbind (mqueue_dequeue q) (\<lambda>(x, q'). Inr (Item x, q'))"
| "queue_step mok q Vacuum = rbind (mqueue_vacuum q) (\<lambda>q'. Inr (Vacuumed, q'))"
| "queue_step mok q Size = Inr (Count (mqueue_size q), q)"

fun queue_run ::
  "(u64 \<Rightarrow> bool) \<Rightarrow> 'a mqueue \<Rightarrow> 'a qop list \<Rightarrow> ('a qout list \<times> 'a mqueue) res" where
  "queue_run mok q [] = Inr ([], q)"
| "queue_run mok q (c # cs) =
     rbind (queue_step mok q c) (\<lambda>(o1, q'). rbind (queue_run mok q' cs) (\<lambda>(os, q''). Inr (o1 # os, q'')))"

text \<open>The specification: a list, and the bound \<open>m\<close> (0 for none).\<close>

fun fifo_step :: "nat \<Rightarrow> 'a option list \<Rightarrow> 'a qop \<Rightarrow> 'a qout \<times> 'a option list" where
  "fifo_step m xs (Enqueue x) =
     (if 0 < m \<and> length xs = m then (Count (- 1), xs)
      else (Count (of_nat (length xs + 1)), xs @ [x]))"
| "fifo_step m xs Dequeue = (case xs of [] \<Rightarrow> (Item None, []) | x # ys \<Rightarrow> (Item x, ys))"
| "fifo_step m xs Vacuum = (Vacuumed, xs)"
| "fifo_step m xs Size = (Count (of_nat (length xs)), xs)"

fun fifo_run :: "nat \<Rightarrow> 'a option list \<Rightarrow> 'a qop list \<Rightarrow> 'a qout list \<times> 'a option list" where
  "fifo_run m xs [] = ([], xs)"
| "fifo_run m xs (c # cs) =
     (let (o1, ys) = fifo_step m xs c; (os, zs) = fifo_run m ys cs in (o1 # os, zs))"

text \<open>One step of the code is one step of the specification, and what it does to the array.\<close>

definition step_ok :: "(u64 \<Rightarrow> bool) \<Rightarrow> 'a mqueue \<Rightarrow> 'a qop \<Rightarrow> 'a mqueue \<Rightarrow> bool" where
  "step_ok mok q c q' \<longleftrightarrow>
     queue_step mok q c = Inr (fst (fifo_step (unat (max_size q)) (contents q) c), q') \<and>
     mqueue_inv q' \<and> contents q' = snd (fifo_step (unat (max_size q)) (contents q) c) \<and>
     max_size q' = max_size q \<and> q_end q' \<le> q_end q + 1 \<and>
     unat (alloc_size q') \<le> max (unat (alloc_size q)) (2 * q_end q)"

lemma full_iff:
  "mqueue_inv q \<Longrightarrow> max_size q > 0 \<and> mqueue_size_int q = max_size q \<longleftrightarrow>
     0 < unat (max_size q) \<and> length (contents q) = unat (max_size q)"
  by (simp add: word_less_nat_alt word_unat_eq_iff unat_size_int)

lemma size_int_of_nat: "mqueue_inv q \<Longrightarrow> mqueue_size_int q = of_nat (length (contents q))"
  by (rule word_eq_of_nat) (rule unat_size_int)

lemma queue_step_ok:
  assumes inv: "mqueue_inv q" and room: "growable mok q"
  shows "\<exists>q'. step_ok mok q c q'"
proof (cases c)
  case (Enqueue x)
  show ?thesis
  proof (cases "0 < unat (max_size q) \<and> length (contents q) = unat (max_size q)")
    case True
    with Enqueue inv full_iff [OF inv] show ?thesis
      by (intro exI [of _ q]) (auto simp: step_ok_def mqueue_enqueue_def)
  next
    case False
    with Enqueue inv full_iff [OF inv] mqueue_append_ok [OF inv room, of x] show ?thesis
      by (auto simp: step_ok_def mqueue_enqueue_def)
  qed
next
  case Dequeue
  show ?thesis
  proof (cases "contents q")
    case Nil
    with Dequeue inv show ?thesis
      by (intro exI [of _ q]) (simp add: step_ok_def mqueue_dequeue_def size_int_eq_0)
  next
    case (Cons x xs)
    with Dequeue inv mqueue_take_ok [OF inv Cons] show ?thesis
      by (auto simp: step_ok_def mqueue_dequeue_def size_int_eq_0 intro: le_SucI)
  qed
next
  case Vacuum
  with mqueue_vacuum_inv [OF inv] show ?thesis
    by (auto simp: step_ok_def intro: le_SucI)
next
  case Size
  with inv show ?thesis
    by (intro exI [of _ q]) (simp add: step_ok_def mqueue_size_def size_int_of_nat)
qed

text \<open>A run stays within the specification as long as each step finds room to grow.\<close>

lemma queue_run_ok:
  assumes inv: "mqueue_inv q" "P (length cs) q"
    and step: "\<And>q k. mqueue_inv q \<Longrightarrow> P (Suc k) q \<Longrightarrow> growable mok q"
    and keep: "\<And>q c q' k. mqueue_inv q \<Longrightarrow> P (Suc k) q \<Longrightarrow> step_ok mok q c q' \<Longrightarrow> P k q'"
  shows "\<exists>q'. queue_run mok q cs = Inr (fst (fifo_run (unat (max_size q)) (contents q) cs), q') \<and>
     mqueue_inv q' \<and> P 0 q' \<and> contents q' = snd (fifo_run (unat (max_size q)) (contents q) cs)"
  using inv
proof (induction cs arbitrary: q)
  case Nil
  then show ?case by auto
next
  case (Cons c cs)
  then have p: "P (Suc (length cs)) q" by simp
  from queue_step_ok [OF Cons.prems(1) step [OF Cons.prems(1) p], of c]
  obtain q1 where q1: "step_ok mok q c q1" by blast
  with keep [OF Cons.prems(1) p q1] Cons.IH [of q1] show ?case
    by (auto simp: step_ok_def split: prod.splits)
qed

text \<open>The property a bounded queue keeps: the array never outgrows the bound \<open>B\<close>.\<close>

definition within :: "nat \<Rightarrow> nat \<Rightarrow> 'a mqueue \<Rightarrow> bool" where
  "within m B q \<longleftrightarrow> unat (max_size q) = m \<and> length (contents q) \<le> m \<and> unat (alloc_size q) \<le> B"

lemma fifo_step_bound: "0 < m \<Longrightarrow> length xs \<le> m \<Longrightarrow> length (snd (fifo_step m xs c)) \<le> m"
  by (cases c) (auto split: list.splits)

lemma within_step:
  assumes "mqueue_inv q" "within m B q" "step_ok mok q c q'" "0 < m" "2 * (m + 99) \<le> B"
  shows "within m B q'"
proof -
  have "length (contents q') \<le> m"
    using assms fifo_step_bound [of m "contents q" c] by (simp add: within_def step_ok_def)
  moreover have "2 * q_end q \<le> B"
    using assms q_end_bound [of q] by (auto simp: within_def)
  ultimately show ?thesis
    using assms by (auto simp: within_def step_ok_def)
qed

subsection \<open>The properties of the queue\<close>

text \<open>C1: Until memory runs out, any sequence of enqueues, dequeues, vacuums and size queries on a
  freshly initialised queue (of any maximal size, 0 for none) runs without a fault and returns,
  call by call, what the first-in first-out list returns: \<open>-1\<close> exactly when a bounded queue is
  full, NULL exactly when it is empty, the new count after each enqueue. Growing, wrapping of the
  \<open>uint64_t\<close> counters and the housekeeping every 100 dequeues are invisible.\<close>

theorem mqueue_run_refines_fifo:
  fixes cs :: "'a qop list"
  assumes size: "unat n \<le> 2 ^ 60" and ops: "length cs \<le> 2 ^ 59" and mem: "\<forall>s. mok s"
  shows "\<exists>q0 q. mqueue_init mok n m desc = Inr q0 \<and>
     queue_run mok q0 cs = Inr (fst (fifo_run (unat m) [] cs), q) \<and>
     contents q = snd (fifo_run (unat m) [] cs)"
proof -
  from mqueue_init_ok [of n mok m desc] size mem obtain q0 :: "'a mqueue" where
    q0: "mqueue_init mok n m desc = Inr q0" "mqueue_inv q0" "contents q0 = []" "max_size q0 = m"
    by auto
  then have "q_end q0 \<le> q_first q0" using length_contents [of q0] by simp
  then have "q_end q0 = 0"
    using q0(1) by (auto simp: mqueue_init_def res_simps q_first_def Let_def)
  with ops have "q_end q0 + length cs \<le> 2 ^ 59" by simp
  then have "\<exists>q. queue_run mok q0 cs = Inr (fst (fifo_run (unat (max_size q0)) (contents q0) cs), q) \<and>
      mqueue_inv q \<and> q_end q + 0 \<le> 2 ^ 59 \<and>
      contents q = snd (fifo_run (unat (max_size q0)) (contents q0) cs)"
    using q0(2) mem
    by (intro queue_run_ok [where P = "\<lambda>k q. q_end q + k \<le> 2 ^ 59"]) (auto simp: growable_def step_ok_def)
  with q0 show ?thesis by auto
qed

theorem mqueue_run_refines_fifo_witness:
  "\<exists>q0 q. mqueue_init malloc_total 1 2 None = Inr q0 \<and>
     queue_run malloc_total q0 [Enqueue (Some ''a''), Enqueue (Some ''b''), Enqueue None, Dequeue, Size]
       = Inr ([Count 1, Count 2, Count (- 1), Item (Some ''a''), Count 1], q) \<and> contents q = [Some ''b'']"
  using mqueue_run_refines_fifo [of 1
      "[Enqueue (Some ''a''), Enqueue (Some ''b''), Enqueue None, Dequeue, Size]" malloc_total 2 None]
  by (simp add: malloc_total_def)

text \<open>C10: A queue with a maximal size \<open>m\<close> and initial size \<open>n\<close> lives in bounded memory: however long
  the sequence of operations, no fault occurs, the results are those of the bounded list, and the
  array never has more than \<open>max (max 1 n) (2 * (m + 99))\<close> slots, so \<open>malloc\<close> is only ever asked
  for that many pointers. (\<open>madt.h\<close> says the queue uses an increasing amount of memory over time.)\<close>

theorem mqueue_bounded_memory:
  fixes cs :: "'a qop list"
  assumes m: "0 < unat m" "unat m \<le> 2 ^ 58" and n: "unat n \<le> 2 ^ 58"
    and B: "B = max (max 1 (unat n)) (2 * (unat m + 99))"
    and mem: "\<forall>s. unat s \<le> 8 * B \<longrightarrow> mok s"
  shows "\<exists>q0 q. mqueue_init mok n m desc = Inr q0 \<and>
     queue_run mok q0 cs = Inr (fst (fifo_run (unat m) [] cs), q) \<and>
     unat (alloc_size q) \<le> B \<and> q_first q < 100"
proof -
  have b60: "B \<le> 2 ^ 60" using B m n by simp
  have k: "unat (if n < 1 then 1 else n) = max 1 (unat n)" by (auto simp: word_less_nat_alt)
  have "unat ((if n < 1 then 1 else n) * sizeof_ptr) = max 1 (unat n) * 8"
    using unat_bytes [of "if n < 1 then 1 else n"] k n by simp
  then have "mok ((if n < 1 then 1 else n) * sizeof_ptr)"
    using mem B by simp
  from mqueue_init_ok [of n mok m desc, OF _ this] n obtain q0 :: "'a mqueue" where
    q0: "mqueue_init mok n m desc = Inr q0" "mqueue_inv q0" "contents q0 = []" "max_size q0 = m"
      "unat (alloc_size q0) = max 1 (unat n)"
    by auto
  have grow: "growable mok q" if "mqueue_inv q" "within (unat m) B q" for q :: "'a mqueue"
  proof -
    have a: "unat (alloc_size q) \<le> unat m + 99" if "q_end q = unat (alloc_size q)"
      using that q_end_bound [of q] \<open>mqueue_inv q\<close> \<open>within (unat m) B q\<close> by (simp add: within_def)
    then have "unat (alloc_size q * sizeof_ptr * 2) = unat (alloc_size q) * 16"
      if "q_end q = unat (alloc_size q)"
      using that m by (simp add: sizeof_ptr_def unat_word_ariths)
    with a show ?thesis using mem B m by (auto simp: growable_def)
  qed
  have keep: "within (unat m) B q'"
    if "mqueue_inv q" "within (unat m) B q" "step_ok mok q c q'" for q q' :: "'a mqueue" and c
    using within_step [OF that m(1)] B by simp
  have "within (unat m) B q0" using q0 B by (simp add: within_def)
  then have "\<exists>q. queue_run mok q0 cs = Inr (fst (fifo_run (unat (max_size q0)) (contents q0) cs), q) \<and>
      mqueue_inv q \<and> within (unat m) B q \<and>
      contents q = snd (fifo_run (unat (max_size q0)) (contents q0) cs)"
    by (intro queue_run_ok [where P = "\<lambda>_. within (unat m) B"]) (blast intro: q0(2) grow keep)+
  then obtain q where "queue_run mok q0 cs = Inr (fst (fifo_run (unat m) [] cs), q)" "mqueue_inv q"
    "within (unat m) B q" using q0 by auto
  with q0(1) show ?thesis
    by (intro exI [of _ q0] exI [of _ q]) (auto simp: within_def mqueue_inv_def)
qed

theorem mqueue_bounded_memory_witness:
  "\<exists>q0 q. mqueue_init malloc_total 5 1 None = Inr q0 \<and>
     queue_run malloc_total q0 [Enqueue (Some True), Enqueue None, Dequeue, Dequeue]
       = Inr ([Count 1, Count (- 1), Item (Some True), Item None], q) \<and>
     unat (alloc_size q) \<le> 200 \<and> q_first q < 100"
  using mqueue_bounded_memory [of 1 5 200 malloc_total None "[Enqueue (Some True), Enqueue None, Dequeue, Dequeue]"]
  by (simp add: malloc_total_def)

text \<open>Vacuuming a queue keeps its items and their order, moves the live segment to index 0 and
  leaves the array as large as it was: the slots before \<open>front\<close> become usable again, but no memory
  goes back to the allocator (\<open>madt.h\<close> calls it an immediate reclamation of memory).\<close>

theorem mqueue_vacuum_compacts:
  assumes "mqueue_inv q"
  shows "\<exists>q'. mqueue_vacuum q = Inr q' \<and> contents q' = contents q \<and> q_first q' = 0 \<and>
     q_end q' = length (contents q) \<and> alloc_size q' = alloc_size q \<and>
     length (blk_cells (data q')) = length (blk_cells (data q))"
proof -
  from mqueue_vacuum_inv [OF assms] obtain q' where q': "mqueue_vacuum q = Inr q'" "mqueue_inv q'"
    "contents q' = contents q" "front q' = 0" "alloc_size q' = alloc_size q" by blast
  then have "q_first q' = 0" by (simp add: q_first_def)
  with q' assms length_contents [OF q'(2)] show ?thesis
    by (intro exI [of _ q']) (auto simp: mqueue_inv_def)
qed

text \<open>A queue after two enqueues and one dequeue, for the witnesses.\<close>

definition sample_queue :: "nat mqueue" where
  "sample_queue = \<lparr>data = Live [Some (Some 7), Some (Some 8), None, None], front = 1, rear = 1,
     max_size = 3, gc_run = 99, alloc_size = 4, description = []\<rparr>"

lemma sample_queue_inv: "mqueue_inv sample_queue"
  by (simp add: sample_queue_def mqueue_inv_def q_first_def q_end_def segment_def)

theorem mqueue_vacuum_compacts_witness:
  "\<exists>q'. mqueue_vacuum sample_queue = Inr q' \<and> contents q' = [Some 8] \<and> q_first q' = 0 \<and>
     alloc_size q' = 4"
  using mqueue_vacuum_compacts [OF sample_queue_inv]
  by (auto simp: sample_queue_def contents_def segment_def q_first_def q_end_def)

text \<open>C15: every operation on a well-formed queue returns and leaves a well-formed queue: an allocation
  of \<open>alloc_size\<close> slots, \<open>front\<close> at most one past \<open>rear\<close>, the segment between them written and
  inside the allocation, and a countdown that runs out before \<open>front\<close> passes 100. Enqueue needs
  room to store one more item for it.\<close>

theorem mqueue_operations_well_formed:
  assumes "mqueue_inv q" "growable mok q"
  shows "(\<exists>n q'. mqueue_enqueue mok q item = Inr (n, q') \<and> mqueue_inv q') \<and>
    (\<exists>x q'. mqueue_dequeue q = Inr (x, q') \<and> mqueue_inv q') \<and>
    (\<exists>q'. mqueue_vacuum q = Inr q' \<and> mqueue_inv q')"
proof (intro conjI)
  show "\<exists>n q'. mqueue_enqueue mok q item = Inr (n, q') \<and> mqueue_inv q'"
    using queue_step_ok [OF assms, of "Enqueue item"] by (auto simp: step_ok_def res_simps)
  show "\<exists>x q'. mqueue_dequeue q = Inr (x, q') \<and> mqueue_inv q'"
    using queue_step_ok [OF assms, of Dequeue] by (auto simp: step_ok_def res_simps)
  show "\<exists>q'. mqueue_vacuum q = Inr q' \<and> mqueue_inv q'"
    using mqueue_vacuum_inv [OF assms(1)] by blast
qed

theorem mqueue_operations_well_formed_witness:
  "(\<exists>n q'. mqueue_enqueue (\<lambda>_. False) sample_queue (Some 9) = Inr (n, q') \<and> mqueue_inv q') \<and>
    (\<exists>x q'. mqueue_dequeue sample_queue = Inr (x, q') \<and> mqueue_inv q') \<and>
    (\<exists>q'. mqueue_vacuum sample_queue = Inr q' \<and> mqueue_inv q')"
  by (rule mqueue_operations_well_formed [OF sample_queue_inv])
    (simp add: growable_def sample_queue_def q_end_def)

text \<open>The only fault of an enqueue on a live queue is the \<open>assert\<close> after \<open>realloc\<close>: it fires
  exactly when the queue is not full, its last slot is taken and the doubled array cannot be had;
  in every other case the enqueue returns.\<close>

theorem mqueue_enqueue_fault_iff:
  assumes "mqueue_inv q" and "unat (alloc_size q) \<le> 2 ^ 59"
  shows "(\<exists>e. mqueue_enqueue mok q x = Inl e) \<longleftrightarrow>
     \<not> (0 < max_size q \<and> mqueue_size q = max_size q) \<and> q_end q = unat (alloc_size q) \<and>
     \<not> mok (alloc_size q * sizeof_ptr * 2)"
    (is "?l \<longleftrightarrow> ?r")
proof (cases "growable mok q")
  case True
  with mqueue_append_ok [OF assms(1) True, of x] show ?thesis
    by (auto simp: mqueue_enqueue_def growable_def)
next
  case False
  then have g: "q_end q = unat (alloc_size q)" "\<not> mok (alloc_size q * sizeof_ptr * 2)"
    using assms by (auto simp: growable_def)
  then have "rear q + 1 = alloc_size q" by (simp add: q_end_def word_unat_eq_iff)
  with g have "mqueue_append mok q x = Inl Assert_failed"
    by (simp add: mqueue_append_def mqueue_grow_def Let_def)
  with g show ?thesis by (auto simp: mqueue_enqueue_def mqueue_size_def)
qed

theorem mqueue_enqueue_fault_iff_witness:
  "\<not> (\<exists>e. mqueue_enqueue (\<lambda>_. False) sample_queue (Some 9) = Inl e) \<and> mqueue_inv sample_queue"
  using mqueue_enqueue_fault_iff [OF sample_queue_inv, of "\<lambda>_. False" "Some 9"] sample_queue_inv
  by (simp add: sample_queue_def q_end_def)

text \<open>After \<open>mqueue_destroy\<close> the array is gone: destroying again is a double free, taking an
  item or storing one touches freed memory. Only the checks that return before the array is reached
  (queue empty, queue full) still answer.\<close>

theorem mqueue_destroyed_unusable:
  assumes "mqueue_inv q" and "mqueue_destroy q = Inr q'"
  shows "mqueue_destroy q' = Inl Double_free \<and>
    (contents q \<noteq> [] \<longrightarrow> mqueue_dequeue q' = Inl Use_after_free) \<and>
    (\<not> (0 < max_size q \<and> mqueue_size q = max_size q) \<longrightarrow> q_end q < unat (alloc_size q) \<longrightarrow>
      mqueue_enqueue mok q' x = Inl Use_after_free)"
proof -
  from assms have q': "q' = q\<lparr>data := Freed\<rparr>"
    by (cases "data q") (auto simp: mqueue_destroy_def)
  then have size: "mqueue_size_int q' = mqueue_size_int q" by (simp add: mqueue_size_int_def)
  have "mqueue_destroy q' = Inl Double_free" using q' by (simp add: mqueue_destroy_def)
  moreover have "mqueue_dequeue q' = Inl Use_after_free" if "contents q \<noteq> []"
    using that size_int_eq_0 [OF assms(1)] size by (simp add: mqueue_dequeue_def mqueue_take_def q')
  moreover have "mqueue_enqueue mok q' x = Inl Use_after_free"
    if a: "\<not> (0 < max_size q \<and> mqueue_size q = max_size q)" "q_end q < unat (alloc_size q)"
  proof -
    have "rear q + 1 \<noteq> alloc_size q" using a(2) by (auto simp: q_end_def)
    with a(1) size show ?thesis
      by (simp add: mqueue_enqueue_def mqueue_append_def mqueue_grow_def mqueue_size_def q')
  qed
  ultimately show ?thesis by blast
qed

theorem mqueue_destroyed_unusable_witness:
  "\<exists>q'. mqueue_destroy sample_queue = Inr q' \<and> mqueue_destroy q' = Inl Double_free \<and>
     mqueue_dequeue q' = Inl Use_after_free \<and> mqueue_enqueue malloc_total q' None = Inl Use_after_free"
proof -
  have d: "mqueue_destroy sample_queue = Inr (sample_queue\<lparr>data := Freed\<rparr>)"
    by (simp add: mqueue_destroy_def sample_queue_def)
  have c: "contents sample_queue = [Some 8]" "mqueue_size sample_queue = 1" "q_end sample_queue = 2"
    by (simp_all add: sample_queue_def contents_def segment_def q_first_def q_end_def mqueue_size_def
        mqueue_size_int_def)
  from mqueue_destroyed_unusable [OF sample_queue_inv d, of malloc_total None] c d show ?thesis
    by (auto simp: sample_queue_def)
qed

text \<open>The 128-byte \<open>description\<close> is NUL-terminated exactly when the name given has fewer than 128
  characters: \<open>strncpy\<close> leaves no room for the terminator, and the debug messages print the buffer
  with \<open>%s\<close>.\<close>

theorem mqueue_name_terminated_iff:
  assumes "0 \<notin> set s"
  shows "length (mqueue_name (Some s)) = 128 \<and> (0 \<in> set (mqueue_name (Some s)) \<longleftrightarrow> length s < 128)"
  using strncpy_bytes_terminated [OF assms, of 128] by (simp_all add: mqueue_name_def QUEUE_NAME_SIZE_def)

theorem mqueue_name_terminated_iff_witness:
  "0 \<notin> set (mqueue_name (Some (replicate 128 65))) \<and> 0 \<in> set (mqueue_name (Some (replicate 127 65)))"
  using mqueue_name_terminated_iff [of "replicate 128 65"] mqueue_name_terminated_iff [of "replicate 127 65"]
  by simp

end
