(* ===== verification/Mutex.thy ===== *)
theory Mutex
  imports Prelude
begin

section \<open>A mutex among threads\<close>

text \<open>
  What the two threaded components (the queue and the loggers) share: the program points of the
  threads are a list, \<open>holds\<close> says at which of them a thread is inside the mutex, and the owner
  recorded by the mutex agrees with them. Every step of a thread acquires, releases or keeps the
  mutex; the lemmas say how each of the three keeps the agreement.
\<close>

definition owner_ok :: "('p \<Rightarrow> bool) \<Rightarrow> nat option \<Rightarrow> 'p list \<Rightarrow> bool" where
  "owner_ok holds m ps \<longleftrightarrow> (case m of
     None \<Rightarrow> map holds ps = replicate (length ps) False
   | Some i \<Rightarrow> i < length ps \<and> map holds ps = (replicate (length ps) False)[i := True])"

lemma owner_holds:
  "owner_ok holds m ps \<Longrightarrow> i < length ps \<Longrightarrow> holds (ps ! i) \<longleftrightarrow> m = Some i"
  by (cases m) (auto simp: owner_ok_def nth_list_update dest!: arg_cong [where f = "\<lambda>hs. hs ! i"] split: if_splits)

lemma owner_acquire:
  "owner_ok holds None ps \<Longrightarrow> i < length ps \<Longrightarrow> holds p \<Longrightarrow> owner_ok holds (Some i) (ps[i := p])"
  by (simp add: owner_ok_def map_update)

lemma owner_release:
  "owner_ok holds m ps \<Longrightarrow> i < length ps \<Longrightarrow> holds (ps ! i) \<Longrightarrow> \<not> holds p \<Longrightarrow>
     owner_ok holds None (ps[i := p])"
  using owner_holds [of holds m ps i] by (simp add: owner_ok_def map_update list_update_same_conv)

lemma owner_keep:
  assumes "owner_ok holds m ps" "i < length ps" "holds p = holds (ps ! i)"
  shows "owner_ok holds m (ps[i := p])"
proof -
  have "map holds (ps[i := p]) = map holds ps"
    using assms(2,3) by (simp add: map_update list_update_same_conv)
  with assms(1) show ?thesis by (simp add: owner_ok_def split: option.splits)
qed

lemma owner_keep2:
  assumes "owner_ok holds m ps" "i < length ps" "j < length ps" "holds p = holds (ps ! i)"
    "\<not> holds (ps ! j)" "\<not> holds r" "holds (ps ! i)"
  shows "owner_ok holds m (ps[i := p, j := r])"
proof -
  have "i \<noteq> j" using assms by auto
  with assms show ?thesis by (intro owner_keep) auto
qed

lemma owner_idle: "\<not> holds p \<Longrightarrow> owner_ok holds None (replicate n p)"
  by (simp add: owner_ok_def map_replicate)

lemmas owner_steps = owner_acquire owner_release owner_keep owner_keep2

text \<open>A free mutex is held at no program point; a taken one is held by its owner.\<close>

lemma owner_free: "owner_ok holds None ps \<Longrightarrow> i < length ps \<Longrightarrow> \<not> holds (ps ! i)"
  by (simp add: owner_holds)

lemma owner_taken: "owner_ok holds (Some j) ps \<Longrightarrow> j < length ps \<and> holds (ps ! j)"
  using owner_holds [of holds "Some j" ps j] by (auto simp: owner_ok_def)

subsection \<open>Work left\<close>

text \<open>Each program point has a weight, the work left before the call returns.\<close>

definition work :: "('p \<Rightarrow> int) \<Rightarrow> 'p list \<Rightarrow> int" where
  "work weight ps = sum_list (map weight ps)"

lemma work_nonneg: "(\<And>p. 0 \<le> weight p) \<Longrightarrow> 0 \<le> work weight ps"
  unfolding work_def by (intro sum_list_nonneg) auto

lemma work_bound: "(\<And>p. weight p \<le> b) \<Longrightarrow> work weight ps \<le> b * int (length ps)"
proof (induction ps)
  case (Cons p ps)
  then show ?case by (simp add: work_def algebra_simps add_mono)
qed (simp add: work_def)

lemma work_update:
  "i < length ps \<Longrightarrow> work weight (ps[i := p]) = work weight ps + weight p - weight (ps ! i)"
  by (induction ps arbitrary: i) (auto simp: work_def split: nat.splits)

end
