(* ===== verification/Mqueue_Threads.thy ===== *)
theory Mqueue_Threads
  imports Mqueue_Spec Mutex
begin

section \<open>The queue between threads (\<open>MIKELIBC_THREADS\<close>)\<close>

text \<open>
  The build with \<open>MIKELIBC_THREADS\<close> guards every operation with one mutex and lets a producer
  sleep on the condition \<open>full\<close> and a consumer on \<open>empty\<close>. The model is a step relation over any
  number of threads: each is at one of the program points below, a step is one thread moving past
  one synchronisation call or doing the queue work it does while it holds the mutex. A waiting
  thread may wake with no signal (C11 permits it); \<open>cnd_signal\<close> wakes one sleeper if there is one.
  The ghost fields \<open>sent\<close> and \<open>received\<close> record the items stored and taken, in order.
\<close>

subsection \<open>Threads and their steps\<close>

datatype 'a pc =
    Idle
  | Enq_lock "'a option"     \<comment> \<open>about to \<open>mtx_lock\<close> in \<open>mqueue_enqueue\<close>\<close>
  | Enq_check "'a option"    \<comment> \<open>holds the mutex, at the test of the \<open>while\<close>\<close>
  | Enq_sleep "'a option"    \<comment> \<open>in \<open>cnd_wait\<close> on \<open>full\<close>, mutex released\<close>
  | Enq_woken "'a option"    \<comment> \<open>woken, has to take the mutex again\<close>
  | Enq_signal u64           \<comment> \<open>item stored, about to \<open>cnd_signal\<close> \<open>empty\<close>\<close>
  | Enq_unlock u64
  | Deq_lock
  | Deq_check
  | Deq_sleep                \<comment> \<open>in \<open>cnd_wait\<close> on \<open>empty\<close>\<close>
  | Deq_woken
  | Deq_signal "'a option"   \<comment> \<open>item taken, about to \<open>cnd_signal\<close> \<open>full\<close>\<close>
  | Deq_unlock "'a option"
  | Size_lock
  | Size_held

record 'a machine =
  queue :: "'a mqueue"
  mutex :: "nat option"
  pcs :: "'a pc list"
  crashed :: "fault option"
  sent :: "'a option list"
  received :: "'a option list"

fun holds_mutex :: "'a pc \<Rightarrow> bool" where
  "holds_mutex (Enq_check x) = True"
| "holds_mutex (Enq_signal n) = True"
| "holds_mutex (Enq_unlock n) = True"
| "holds_mutex Deq_check = True"
| "holds_mutex (Deq_signal x) = True"
| "holds_mutex (Deq_unlock x) = True"
| "holds_mutex Size_held = True"
| "holds_mutex _ = False"

definition at_pc :: "'a machine \<Rightarrow> nat \<Rightarrow> 'a pc \<Rightarrow> bool" where
  "at_pc s i p \<longleftrightarrow> i < length (pcs s) \<and> pcs s ! i = p"

definition goto :: "nat \<Rightarrow> 'a pc \<Rightarrow> 'a machine \<Rightarrow> 'a machine" where
  "goto i p s = s\<lparr>pcs := (pcs s)[i := p]\<rparr>"

definition queue_full :: "'a mqueue \<Rightarrow> bool" where
  "queue_full q \<longleftrightarrow> max_size q > 0 \<and> mqueue_size_int q = max_size q"

text \<open>The steps of a thread inside \<open>mqueue_enqueue\<close>.\<close>

inductive enq_step :: "nat \<Rightarrow> 'a machine \<Rightarrow> 'a machine \<Rightarrow> bool" for i where
  enq_lock: "at_pc s i (Enq_lock x) \<Longrightarrow> mutex s = None \<Longrightarrow>
     enq_step i s (goto i (Enq_check x) (s\<lparr>mutex := Some i\<rparr>))"
| enq_wait: "at_pc s i (Enq_check x) \<Longrightarrow> queue_full (queue s) \<Longrightarrow>
     enq_step i s (goto i (Enq_sleep x) (s\<lparr>mutex := None\<rparr>))"
| enq_relock: "at_pc s i (Enq_woken x) \<Longrightarrow> mutex s = None \<Longrightarrow>
     enq_step i s (goto i (Enq_check x) (s\<lparr>mutex := Some i\<rparr>))"
| enq_store: "at_pc s i (Enq_check x) \<Longrightarrow> \<not> queue_full (queue s) \<Longrightarrow>
     mqueue_append malloc_total (queue s) x = Inr (n, q') \<Longrightarrow>
     enq_step i s (goto i (Enq_signal n) (s\<lparr>queue := q', sent := sent s @ [x]\<rparr>))"
| enq_crash: "at_pc s i (Enq_check x) \<Longrightarrow> \<not> queue_full (queue s) \<Longrightarrow>
     mqueue_append malloc_total (queue s) x = Inl e \<Longrightarrow>
     enq_step i s (s\<lparr>crashed := Some e\<rparr>)"
| enq_signal: "at_pc s i (Enq_signal n) \<Longrightarrow> at_pc s j Deq_sleep \<Longrightarrow>
     enq_step i s (goto j Deq_woken (goto i (Enq_unlock n) s))"
| enq_signal_none: "at_pc s i (Enq_signal n) \<Longrightarrow> Deq_sleep \<notin> set (pcs s) \<Longrightarrow>
     enq_step i s (goto i (Enq_unlock n) s)"
| enq_return: "at_pc s i (Enq_unlock n) \<Longrightarrow>
     enq_step i s (goto i Idle (s\<lparr>mutex := None\<rparr>))"

text \<open>The steps of a thread inside \<open>mqueue_dequeue\<close>.\<close>

inductive deq_step :: "nat \<Rightarrow> 'a machine \<Rightarrow> 'a machine \<Rightarrow> bool" for i where
  deq_lock: "at_pc s i Deq_lock \<Longrightarrow> mutex s = None \<Longrightarrow>
     deq_step i s (goto i Deq_check (s\<lparr>mutex := Some i\<rparr>))"
| deq_wait: "at_pc s i Deq_check \<Longrightarrow> mqueue_size_int (queue s) = 0 \<Longrightarrow>
     deq_step i s (goto i Deq_sleep (s\<lparr>mutex := None\<rparr>))"
| deq_relock: "at_pc s i Deq_woken \<Longrightarrow> mutex s = None \<Longrightarrow>
     deq_step i s (goto i Deq_check (s\<lparr>mutex := Some i\<rparr>))"
| deq_take: "at_pc s i Deq_check \<Longrightarrow> mqueue_size_int (queue s) \<noteq> 0 \<Longrightarrow>
     mqueue_take (queue s) = Inr (x, q') \<Longrightarrow>
     deq_step i s (goto i (Deq_signal x) (s\<lparr>queue := q', received := received s @ [x]\<rparr>))"
| deq_crash: "at_pc s i Deq_check \<Longrightarrow> mqueue_size_int (queue s) \<noteq> 0 \<Longrightarrow>
     mqueue_take (queue s) = Inl e \<Longrightarrow>
     deq_step i s (s\<lparr>crashed := Some e\<rparr>)"
| deq_signal: "at_pc s i (Deq_signal x) \<Longrightarrow> at_pc s j (Enq_sleep y) \<Longrightarrow>
     deq_step i s (goto j (Enq_woken y) (goto i (Deq_unlock x) s))"
| deq_signal_none: "at_pc s i (Deq_signal x) \<Longrightarrow> \<forall>y. Enq_sleep y \<notin> set (pcs s) \<Longrightarrow>
     deq_step i s (goto i (Deq_unlock x) s)"
| deq_return: "at_pc s i (Deq_unlock x) \<Longrightarrow>
     deq_step i s (goto i Idle (s\<lparr>mutex := None\<rparr>))"

text \<open>The steps of a thread inside \<open>mqueue_size\<close>.\<close>

inductive size_step :: "nat \<Rightarrow> 'a machine \<Rightarrow> 'a machine \<Rightarrow> bool" for i where
  size_lock: "at_pc s i Size_lock \<Longrightarrow> mutex s = None \<Longrightarrow>
     size_step i s (goto i Size_held (s\<lparr>mutex := Some i\<rparr>))"
| size_return: "at_pc s i Size_held \<Longrightarrow>
     size_step i s (goto i Idle (s\<lparr>mutex := None\<rparr>))"

definition thread_step :: "nat \<Rightarrow> 'a machine \<Rightarrow> 'a machine \<Rightarrow> bool" where
  "thread_step i s s' \<longleftrightarrow> enq_step i s s' \<or> deq_step i s s' \<or> size_step i s s'"

text \<open>What the environment does: a thread calls an operation, a sleeper wakes with no signal.\<close>

inductive env_step :: "'a machine \<Rightarrow> 'a machine \<Rightarrow> bool" where
  call_enq: "at_pc s i Idle \<Longrightarrow> env_step s (goto i (Enq_lock x) s)"
| call_deq: "at_pc s i Idle \<Longrightarrow> env_step s (goto i Deq_lock s)"
| call_size: "at_pc s i Idle \<Longrightarrow> env_step s (goto i Size_lock s)"
| wake_enq: "at_pc s i (Enq_sleep x) \<Longrightarrow> env_step s (goto i (Enq_woken x) s)"
| wake_deq: "at_pc s i Deq_sleep \<Longrightarrow> env_step s (goto i Deq_woken s)"

text \<open>\<open>n\<close> threads, all idle, and a queue straight from \<open>mqueue_init\<close>.\<close>

definition start :: "nat \<Rightarrow> 'a mqueue \<Rightarrow> 'a machine" where
  "start n q = \<lparr>queue = q, mutex = None, pcs = replicate n Idle, crashed = None, sent = [], received = []\<rparr>"

inductive reachable :: "nat \<Rightarrow> 'a mqueue \<Rightarrow> 'a machine \<Rightarrow> bool" for n q where
  reach_start: "reachable n q (start n q)"
| reach_thread: "reachable n q s \<Longrightarrow> thread_step i s s' \<Longrightarrow> reachable n q s'"
| reach_env: "reachable n q s \<Longrightarrow> env_step s s' \<Longrightarrow> reachable n q s'"

subsection \<open>Counting threads\<close>

definition cnt :: "('b \<Rightarrow> bool) \<Rightarrow> 'b list \<Rightarrow> int" where
  "cnt P xs = (\<Sum>x\<leftarrow>xs. of_bool (P x))"

lemma cnt_simps [simp]: "cnt P [] = 0" "cnt P (x # xs) = of_bool (P x) + cnt P xs"
  by (simp_all add: cnt_def)

lemma cnt_nonneg [simp]: "0 \<le> cnt P xs"
  by (induction xs) auto

lemma cnt_update:
  "i < length xs \<Longrightarrow> cnt P (xs[i := v]) = cnt P xs + of_bool (P v) - of_bool (P (xs ! i))"
  by (induction xs arbitrary: i) (auto split: nat.splits)

lemma cnt_pos: "0 < cnt P xs \<longleftrightarrow> (\<exists>x \<in> set xs. P x)"
proof (induction xs)
  case Nil
  then show ?case by simp
next
  case (Cons x xs)
  have "0 < of_bool (P x) + cnt P xs \<longleftrightarrow> P x \<or> 0 < cnt P xs"
    using cnt_nonneg [of P xs] by (cases "P x") (simp_all add: add_pos_nonneg)
  with Cons show ?case by simp
qed

lemma cnt_pos_nth: "i < length xs \<Longrightarrow> P (xs ! i) \<Longrightarrow> 0 < cnt P xs"
  by (auto simp: cnt_pos)

lemma cnt_zero: "cnt P xs = 0 \<longleftrightarrow> (\<forall>x \<in> set xs. \<not> P x)"
  using cnt_pos [of P xs] cnt_nonneg [of P xs] by (auto simp: order_less_le)

fun sleeps_empty :: "'a pc \<Rightarrow> bool" where
  "sleeps_empty Deq_sleep = True" | "sleeps_empty _ = False"

fun sleeps_full :: "'a pc \<Rightarrow> bool" where
  "sleeps_full (Enq_sleep x) = True" | "sleeps_full _ = False"

text \<open>Threads that will look at the queue for an item, or are about to signal that there is one;
  and the same for free slots.\<close>

fun will_take :: "'a pc \<Rightarrow> bool" where
  "will_take Deq_woken = True" | "will_take Deq_check = True" | "will_take (Enq_signal n) = True"
| "will_take _ = False"

fun will_store :: "'a pc \<Rightarrow> bool" where
  "will_store (Enq_woken x) = True" | "will_store (Enq_check x) = True"
| "will_store (Deq_signal x) = True" | "will_store _ = False"

subsection \<open>Invariants\<close>

definition mutex_inv :: "'a machine \<Rightarrow> bool" where
  "mutex_inv s \<longleftrightarrow> owner_ok holds_mutex (mutex s) (pcs s)"

definition data_inv :: "'a machine \<Rightarrow> bool" where
  "data_inv s \<longleftrightarrow> crashed s = None \<and> bounded_inv (queue s) \<and> sent s = received s @ contents (queue s)"

definition wake_inv :: "'a machine \<Rightarrow> bool" where
  "wake_inv s \<longleftrightarrow>
     (0 < cnt sleeps_empty (pcs s) \<longrightarrow>
        int (length (contents (queue s))) \<le> cnt will_take (pcs s)) \<and>
     (0 < cnt sleeps_full (pcs s) \<longrightarrow>
        int (unat (max_size (queue s))) - int (length (contents (queue s))) \<le> cnt will_store (pcs s))"

inductive_cases enq_stepE: "enq_step i s s'"
inductive_cases deq_stepE: "deq_step i s s'"
inductive_cases size_stepE: "size_step i s s'"
inductive_cases env_stepE: "env_step s s'"

lemmas step_defs = at_pc_def goto_def

lemma goto_fields [simp]:
  "queue (goto i p s) = queue s" "mutex (goto i p s) = mutex s" "crashed (goto i p s) = crashed s"
  "sent (goto i p s) = sent s" "received (goto i p s) = received s"
  "pcs (goto i p s) = (pcs s)[i := p]"
  by (simp_all add: goto_def)

text \<open>The mutex and the program points agree.\<close>

lemma mutex_inv_enq: "enq_step i s s' \<Longrightarrow> mutex_inv s \<Longrightarrow> mutex_inv s'"
  unfolding mutex_inv_def
  by (erule enq_stepE)
    (simp_all add: at_pc_def owner_steps)

lemma mutex_inv_deq: "deq_step i s s' \<Longrightarrow> mutex_inv s \<Longrightarrow> mutex_inv s'"
  unfolding mutex_inv_def
  by (erule deq_stepE)
    (simp_all add: at_pc_def owner_steps)

lemma mutex_inv_size: "size_step i s s' \<Longrightarrow> mutex_inv s \<Longrightarrow> mutex_inv s'"
  unfolding mutex_inv_def
  by (erule size_stepE) (simp_all add: at_pc_def owner_acquire owner_release)

lemma mutex_inv_env: "env_step s s' \<Longrightarrow> mutex_inv s \<Longrightarrow> mutex_inv s'"
  unfolding mutex_inv_def
  by (erule env_stepE) (simp_all add: at_pc_def owner_keep)

lemma data_inv_enq: "enq_step i s s' \<Longrightarrow> data_inv s \<Longrightarrow> data_inv s'"
proof (erule enq_stepE, goal_cases)
  case (4 x n q')
  then have "has_room (queue s)"
    using full_iff [of "queue s"]
    by (auto simp: data_inv_def bounded_inv_def has_room_def queue_full_def)
  with 4 show ?case using bq.pushD [of "queue s" x n q'] by (simp add: data_inv_def)
next
  case (5 x e)
  then have "has_room (queue s)"
    using full_iff [of "queue s"]
    by (auto simp: data_inv_def bounded_inv_def has_room_def queue_full_def)
  with 5 show ?case using bq.push_law [of "queue s" x] by (auto simp: data_inv_def)
qed (simp_all add: data_inv_def)

lemma data_inv_deq: "deq_step i s s' \<Longrightarrow> data_inv s \<Longrightarrow> data_inv s'"
proof (erule deq_stepE, goal_cases)
  case (4 x q')
  then have "contents (queue s) \<noteq> []"
    using size_int_eq_0 [of "queue s"] by (auto simp: data_inv_def bounded_inv_def)
  with 4 show ?case using bq.popD [of "queue s" x q'] by (simp add: data_inv_def)
next
  case (5 e)
  then have "contents (queue s) \<noteq> []"
    using size_int_eq_0 [of "queue s"] by (auto simp: data_inv_def bounded_inv_def)
  then obtain x xs where "contents (queue s) = x # xs" by (cases "contents (queue s)") auto
  with 5 show ?case using bq.pop_law [of "queue s" x xs] by (auto simp: data_inv_def)
qed (simp_all add: data_inv_def)

lemma data_inv_size: "size_step i s s' \<Longrightarrow> data_inv s \<Longrightarrow> data_inv s'"
  by (erule size_stepE) (simp_all add: data_inv_def)

lemma data_inv_env: "env_step s s' \<Longrightarrow> data_inv s \<Longrightarrow> data_inv s'"
  by (erule env_stepE) (simp_all add: data_inv_def)

text \<open>No lost wake-up: while a consumer sleeps, every item in the queue has a thread that will take it
  or is about to signal it; while a producer sleeps, the same holds of every free slot.\<close>

lemma wake_inv_enq: "enq_step i s s' \<Longrightarrow> data_inv s \<Longrightarrow> wake_inv s \<Longrightarrow> wake_inv s'"
proof (erule enq_stepE, goal_cases)
  case (2 x)
  then have "length (contents (queue s)) = unat (max_size (queue s))"
    using full_iff [of "queue s"] by (auto simp: data_inv_def bounded_inv_def queue_full_def)
  with 2 cnt_pos_nth [of i "pcs s" will_store] show ?case
    by (auto simp: wake_inv_def at_pc_def cnt_update)
next
  case (4 x n q')
  then have room: "has_room (queue s)"
    using full_iff [of "queue s"]
    by (auto simp: data_inv_def bounded_inv_def has_room_def queue_full_def)
  from 4 have b: "bounded_inv (queue s)" by (simp add: data_inv_def)
  have "contents q' = contents (queue s) @ [x]" "max_size q' = max_size (queue s)"
    using bq.pushD [OF b room 4(6)] bq.push_cap [OF b room 4(6)] by (simp_all add: word_unat_eq_iff)
  with 4 show ?case
    by (auto simp: wake_inv_def at_pc_def cnt_update)
next
  case (6 n j)
  then have "j \<noteq> i" by (auto simp: at_pc_def)
  with 6 show ?case by (simp add: wake_inv_def at_pc_def cnt_update)
next
  case (7 n)
  then have "\<not> sleeps_empty p" if "p \<in> set (pcs s)" for p
    using that by (cases p) auto
  then have "cnt sleeps_empty (pcs s) = 0" by (auto simp: cnt_zero)
  with 7 show ?case by (simp add: wake_inv_def at_pc_def cnt_update)
qed (auto simp: wake_inv_def at_pc_def cnt_update)

lemma wake_inv_deq: "deq_step i s s' \<Longrightarrow> data_inv s \<Longrightarrow> wake_inv s \<Longrightarrow> wake_inv s'"
proof (erule deq_stepE, goal_cases)
  case 2
  then have "contents (queue s) = []"
    using size_int_eq_0 [of "queue s"] by (auto simp: data_inv_def bounded_inv_def)
  with 2 cnt_pos_nth [of i "pcs s" will_take] show ?case
    by (auto simp: wake_inv_def at_pc_def cnt_update)
next
  case (4 x q')
  then have ne: "contents (queue s) \<noteq> []"
    using size_int_eq_0 [of "queue s"] by (auto simp: data_inv_def bounded_inv_def)
  from 4 have b: "bounded_inv (queue s)" by (simp add: data_inv_def)
  have "contents (queue s) = x # contents q'" "max_size q' = max_size (queue s)"
    using bq.popD [OF b ne 4(6)] bq.pop_cap [OF b ne 4(6)] by (simp_all add: word_unat_eq_iff)
  with 4 show ?case
    by (auto simp: wake_inv_def at_pc_def cnt_update)
next
  case (6 x j y)
  then have "j \<noteq> i" by (auto simp: at_pc_def)
  with 6 show ?case by (simp add: wake_inv_def at_pc_def cnt_update)
next
  case (7 x)
  then have "\<not> sleeps_full p" if "p \<in> set (pcs s)" for p
    using that by (cases p) auto
  then have "cnt sleeps_full (pcs s) = 0" by (auto simp: cnt_zero)
  with 7 show ?case by (simp add: wake_inv_def at_pc_def cnt_update)
qed (auto simp: wake_inv_def at_pc_def cnt_update)

lemma wake_inv_size: "size_step i s s' \<Longrightarrow> wake_inv s \<Longrightarrow> wake_inv s'"
  by (erule size_stepE) (simp_all add: wake_inv_def at_pc_def cnt_update)

lemma wake_inv_env: "env_step s s' \<Longrightarrow> wake_inv s \<Longrightarrow> wake_inv s'"
  by (erule env_stepE) (auto simp: wake_inv_def at_pc_def cnt_update)

definition machine_inv :: "'a machine \<Rightarrow> bool" where
  "machine_inv s \<longleftrightarrow> mutex_inv s \<and> data_inv s \<and> wake_inv s"

lemma machine_inv_start: "bounded_inv q \<Longrightarrow> contents q = [] \<Longrightarrow> machine_inv (start n q)"
proof -
  have "cnt P (replicate n Idle) = 0" if "\<not> P Idle" for P :: "'a pc \<Rightarrow> bool"
    using that by (auto simp: cnt_zero)
  then show "bounded_inv q \<Longrightarrow> contents q = [] \<Longrightarrow> machine_inv (start n q)"
    by (simp add: machine_inv_def mutex_inv_def data_inv_def wake_inv_def start_def owner_idle)
qed

lemma machine_inv_thread: "thread_step i s s' \<Longrightarrow> machine_inv s \<Longrightarrow> machine_inv s'"
  unfolding thread_step_def machine_inv_def
  by (blast intro: mutex_inv_enq mutex_inv_deq mutex_inv_size data_inv_enq data_inv_deq data_inv_size
      wake_inv_enq wake_inv_deq wake_inv_size)

lemma machine_inv_env: "env_step s s' \<Longrightarrow> machine_inv s \<Longrightarrow> machine_inv s'"
  unfolding machine_inv_def by (blast intro: mutex_inv_env data_inv_env wake_inv_env)

lemma reachable_inv:
  "reachable n q s \<Longrightarrow> bounded_inv q \<Longrightarrow> contents q = [] \<Longrightarrow> machine_inv s"
  by (induction rule: reachable.induct)
    (auto intro: machine_inv_start machine_inv_thread machine_inv_env)

lemma init_bounded:
  fixes q :: "'a mqueue"
  assumes "mqueue_init malloc_total n m desc = Inr q" "unat n \<le> 2 ^ 60" "0 < unat m" "unat m \<le> 2 ^ 58"
  shows "bounded_inv q" and "contents q = []" and "max_size q = m"
  using mqueue_init_ok [where 'a = 'a, of n malloc_total m desc] assms by (auto simp: bounded_inv_def malloc_total_def)

text \<open>No step changes the maximal size.\<close>

lemma append_max: "mqueue_append mok q x = Inr (n, q') \<Longrightarrow> max_size q' = max_size q"
  by (auto simp: mqueue_append_def mqueue_grow_def Let_def res_simps split: if_splits)

lemma vacuum_max: "mqueue_vacuum q = Inr q' \<Longrightarrow> max_size q' = max_size q"
  by (auto simp: mqueue_vacuum_def Let_def res_simps split: if_splits)

lemma take_max: "mqueue_take q = Inr (x, q') \<Longrightarrow> max_size q' = max_size q"
  by (auto simp: mqueue_take_def Let_def res_simps split: if_splits dest: vacuum_max)

lemma thread_step_max: "thread_step i s s' \<Longrightarrow> max_size (queue s') = max_size (queue s)"
  unfolding thread_step_def
  by (elim disjE enq_stepE deq_stepE size_stepE) (auto dest: append_max take_max)

subsection \<open>Progress\<close>

text \<open>A thread that is inside an operation and not asleep.\<close>

fun running :: "'a pc \<Rightarrow> bool" where
  "running Idle = False" | "running (Enq_sleep x) = False" | "running Deq_sleep = False"
| "running _ = True"

text \<open>The thread that holds the mutex can always go on.\<close>

lemma holder_steps:
  assumes "data_inv s" "i < length (pcs s)" "holds_mutex (pcs s ! i)"
  shows "\<exists>s'. thread_step i s s'"
proof (cases "pcs s ! i")
  case (Enq_check x)
  then show ?thesis
    using assms enq_step.enq_wait [of s i x] enq_step.enq_store [of s i x] enq_step.enq_crash [of s i x]
    by (cases "mqueue_append malloc_total (queue s) x"; cases "queue_full (queue s)")
      (auto simp: thread_step_def at_pc_def)
next
  case (Enq_signal n)
  then show ?thesis
    using assms enq_step.enq_signal [of s i n] enq_step.enq_signal_none [of s i n]
    by (auto simp: thread_step_def at_pc_def in_set_conv_nth)
next
  case (Enq_unlock n)
  then show ?thesis
    using assms enq_step.enq_return [of s i n] by (auto simp: thread_step_def at_pc_def)
next
  case Deq_check
  then show ?thesis
    using assms deq_step.deq_wait [of s i] deq_step.deq_take [of s i] deq_step.deq_crash [of s i]
    by (cases "mqueue_take (queue s)"; cases "mqueue_size_int (queue s) = 0")
      (auto simp: thread_step_def at_pc_def)
next
  case (Deq_signal x)
  then show ?thesis
    using assms deq_step.deq_signal [of s i x] deq_step.deq_signal_none [of s i x]
    by (auto simp: thread_step_def at_pc_def in_set_conv_nth)
next
  case (Deq_unlock x)
  then show ?thesis
    using assms deq_step.deq_return [of s i x] by (auto simp: thread_step_def at_pc_def)
next
  case Size_held
  then show ?thesis
    using assms size_step.size_return [of s i] by (auto simp: thread_step_def at_pc_def)
qed (use assms in auto)

lemma waiting_for_mutex_steps:
  assumes "mutex s = None" "i < length (pcs s)" "running (pcs s ! i)" "\<not> holds_mutex (pcs s ! i)"
  shows "\<exists>s'. thread_step i s s'"
  using assms enq_step.enq_lock [of s i] enq_step.enq_relock [of s i] deq_step.deq_lock [of s i]
    deq_step.deq_relock [of s i] size_step.size_lock [of s i]
  by (cases "pcs s ! i") (auto simp: thread_step_def at_pc_def)

lemma some_thread_steps:
  assumes inv: "machine_inv s" and run: "i < length (pcs s)" "running (pcs s ! i)"
  shows "\<exists>j s'. thread_step j s s'"
proof (cases "mutex s")
  case None
  then have "\<not> holds_mutex (pcs s ! i)"
    using inv run owner_free [of holds_mutex "pcs s" i] by (simp add: machine_inv_def mutex_inv_def)
  with waiting_for_mutex_steps [OF None run] show ?thesis by blast
next
  case (Some j)
  then have "j < length (pcs s)"
    using inv by (simp add: machine_inv_def mutex_inv_def owner_ok_def)
  moreover from this have "holds_mutex (pcs s ! j)"
    using Some inv owner_holds [of holds_mutex "mutex s" "pcs s" j] by (simp add: machine_inv_def mutex_inv_def)
  ultimately show ?thesis
    using holder_steps [of s j] inv by (auto simp: machine_inv_def)
qed

text \<open>Work left: each thread step uses some of it up; a signal pays for the sleeper it wakes.\<close>

fun weight :: "'a pc \<Rightarrow> int" where
  "weight Idle = 0" | "weight (Enq_lock x) = 6" | "weight (Enq_check x) = 5"
| "weight (Enq_sleep x) = 4" | "weight (Enq_woken x) = 6" | "weight (Enq_signal n) = 4"
| "weight (Enq_unlock n) = 1" | "weight Deq_lock = 6" | "weight Deq_check = 5"
| "weight Deq_sleep = 4" | "weight Deq_woken = 6" | "weight (Deq_signal x) = 4"
| "weight (Deq_unlock x) = 1" | "weight Size_lock = 2" | "weight Size_held = 1"

lemma weight_bounds: "0 \<le> weight p \<and> weight p \<le> 6"
  by (cases p) auto

lemma weight_work: "0 \<le> work weight ps" "work weight ps \<le> 6 * int (length ps)"
  using weight_bounds by (blast intro: work_nonneg work_bound)+

lemma enq_step_work: "enq_step i s s' \<Longrightarrow> data_inv s' \<Longrightarrow> work weight (pcs s') < work weight (pcs s)"
proof (erule enq_stepE, goal_cases)
  case (6 n j)
  then have "j \<noteq> i" by (auto simp: at_pc_def)
  with 6 show ?case by (simp add: at_pc_def work_update)
qed (auto simp: at_pc_def work_update data_inv_def)

lemma deq_step_work: "deq_step i s s' \<Longrightarrow> data_inv s' \<Longrightarrow> work weight (pcs s') < work weight (pcs s)"
proof (erule deq_stepE, goal_cases)
  case (6 x j y)
  then have "j \<noteq> i" by (auto simp: at_pc_def)
  with 6 show ?case by (simp add: at_pc_def work_update)
qed (auto simp: at_pc_def work_update data_inv_def)

lemma size_step_work: "size_step i s s' \<Longrightarrow> work weight (pcs s') < work weight (pcs s)"
  by (erule size_stepE) (auto simp: at_pc_def work_update)

lemma thread_step_work: "thread_step i s s' \<Longrightarrow> machine_inv s \<Longrightarrow> work weight (pcs s') < work weight (pcs s)"
  using machine_inv_thread [of i s s'] unfolding thread_step_def machine_inv_def
  by (auto intro: enq_step_work deq_step_work size_step_work)

text \<open>\<open>l\<close> thread steps in a row.\<close>

inductive thread_run :: "nat \<Rightarrow> 'a machine \<Rightarrow> 'a machine \<Rightarrow> bool" where
  run_nil: "thread_run 0 s s"
| run_step: "thread_run l s s' \<Longrightarrow> thread_step i s' s'' \<Longrightarrow> thread_run (Suc l) s s''"

lemma thread_run_work:
  "thread_run l s s' \<Longrightarrow> machine_inv s \<Longrightarrow> int l + work weight (pcs s') \<le> work weight (pcs s) \<and> machine_inv s'"
proof (induction rule: thread_run.induct)
  case (run_nil s)
  then show ?case by simp
next
  case (run_step l s s' i s'')
  then have "machine_inv s'" "int l + work weight (pcs s') \<le> work weight (pcs s)" by auto
  with run_step.hyps(2) show ?case
    using machine_inv_thread thread_step_work [of i s' s''] by fastforce
qed

lemma thread_step_length: "thread_step i s s' \<Longrightarrow> length (pcs s') = length (pcs s)"
  unfolding thread_step_def by (elim disjE enq_stepE deq_stepE size_stepE) auto

lemma reachable_length: "reachable k q s \<Longrightarrow> length (pcs s) = k"
  by (induction rule: reachable.induct) (auto simp: start_def thread_step_length elim!: env_stepE)

lemma reachable_max: "reachable k q s \<Longrightarrow> max_size (queue s) = max_size q"
  by (induction rule: reachable.induct) (auto simp: start_def thread_step_max elim!: env_stepE)

text \<open>With no thread inside an operation and awake, only the sleepers' conditions are left.\<close>

lemma quiet_sleepers:
  assumes inv: "machine_inv s" and quiet: "\<forall>p \<in> set (pcs s). \<not> running p"
  shows "Deq_sleep \<in> set (pcs s) \<Longrightarrow> contents (queue s) = []"
    "Enq_sleep x \<in> set (pcs s) \<Longrightarrow> unat (max_size (queue s)) \<le> length (contents (queue s))"
proof -
  have w: "wake_inv s" using inv by (simp add: machine_inv_def)
  have "\<not> will_take p \<and> \<not> will_store p" if "p \<in> set (pcs s)" for p
    using quiet that by (cases p) auto
  then have z: "cnt will_take (pcs s) = 0" "cnt will_store (pcs s) = 0"
    by (auto simp: cnt_zero)
  show "contents (queue s) = []" if "Deq_sleep \<in> set (pcs s)"
  proof -
    have "0 < cnt sleeps_empty (pcs s)" using that by (auto simp: cnt_pos intro!: bexI [of _ Deq_sleep])
    with w z show ?thesis by (simp add: wake_inv_def)
  qed
  show "unat (max_size (queue s)) \<le> length (contents (queue s))" if "Enq_sleep x \<in> set (pcs s)"
  proof -
    have "0 < cnt sleeps_full (pcs s)" using that by (auto simp: cnt_pos intro!: bexI [of _ "Enq_sleep x"])
    with w z show ?thesis by (simp add: wake_inv_def del: of_nat_unat)
  qed
qed

subsection \<open>Vacuuming outside the mutex\<close>

text \<open>\<open>mqueue_vacuum\<close> does not lock, also in this build: its statements, one by one, so that
  another thread can act between them.\<close>

definition vacuum_move :: "'a mqueue \<Rightarrow> 'a mqueue res" where
  "vacuum_move q =
     rbind (blk_move_down (data q) (unat (front q)) (unat (sizeof_ptr * mqueue_size_int q) div unat sizeof_ptr))
       (\<lambda>b. Inr (q\<lparr>data := b\<rparr>))"

definition vacuum_rear :: "'a mqueue \<Rightarrow> 'a mqueue" where
  "vacuum_rear q = q\<lparr>rear := rear q - front q\<rparr>"

definition vacuum_front :: "'a mqueue \<Rightarrow> 'a mqueue" where
  "vacuum_front q = q\<lparr>front := 0\<rparr>"

lemma mqueue_vacuum_statements:
  "mqueue_vacuum q =
     (if front q = 0 then Inr q else rbind (vacuum_move q) (\<lambda>q. Inr (vacuum_front (vacuum_rear q))))"
  by (simp add: mqueue_vacuum_def vacuum_move_def vacuum_front_def vacuum_rear_def Let_def rbind_assoc)

subsection \<open>The properties of the threaded queue\<close>

text \<open>Two threads and a queue of one slot, for the witnesses: thread 0 calls \<open>mqueue_dequeue\<close>, takes
  the mutex and goes to sleep on the empty queue.\<close>

definition one_slot :: "nat mqueue" where
  "one_slot = \<lparr>data = Live [None], front = 0, rear = - 1, max_size = 1, gc_run = GC_COUNT,
     alloc_size = 1, description = replicate 128 0\<rparr>"

lemma one_slot_init: "mqueue_init malloc_total 1 1 None = Inr one_slot"
  by (simp add: mqueue_init_def one_slot_def malloc_total_def blk_alloc_def mqueue_name_def
      QUEUE_NAME_SIZE_def)

definition called :: "nat machine" where
  "called = goto 0 Deq_lock (start 2 one_slot)"

definition locked :: "nat machine" where
  "locked = goto 0 Deq_check (called\<lparr>mutex := Some 0\<rparr>)"

definition asleep :: "nat machine" where
  "asleep = goto 0 Deq_sleep (locked\<lparr>mutex := None\<rparr>)"

lemma called_reachable: "reachable 2 one_slot called"
  unfolding called_def
  by (rule reachable.reach_env [OF reachable.reach_start], rule env_step.call_deq)
    (simp add: at_pc_def start_def)

lemma locked_step: "thread_step 0 called locked"
  unfolding thread_step_def locked_def
  by (rule disjI2, rule disjI1, rule deq_step.deq_lock) (simp_all add: at_pc_def called_def start_def)

lemma asleep_step: "thread_step 0 locked asleep"
  unfolding thread_step_def asleep_def
  by (rule disjI2, rule disjI1, rule deq_step.deq_wait)
    (simp_all add: at_pc_def locked_def called_def start_def one_slot_def mqueue_size_int_def)

lemmas sample_reachable =
  called_reachable
  reachable.reach_thread [OF called_reachable locked_step]
  reachable.reach_thread [OF reachable.reach_thread [OF called_reachable locked_step] asleep_step]

text \<open>C2: Whatever the number of threads and however their calls interleave, with any spurious
  wake-ups, no two threads are ever inside the mutex, no queue operation faults, the bound is kept,
  and the items taken so far followed by the items in the queue are exactly the items stored so far,
  in order: nothing is lost, duplicated or reordered.\<close>

theorem threaded_queue_safe:
  assumes "mqueue_init malloc_total n m desc = Inr q" "unat n \<le> 2 ^ 60" "0 < unat m" "unat m \<le> 2 ^ 58"
    and "reachable k q s"
  shows "crashed s = None \<and> sent s = received s @ contents (queue s) \<and>
    length (contents (queue s)) \<le> unat m \<and>
    (i < length (pcs s) \<and> holds_mutex (pcs s ! i) \<and> j < length (pcs s) \<and> holds_mutex (pcs s ! j) \<longrightarrow> i = j)"
proof -
  have inv: "machine_inv s"
    using reachable_inv [OF assms(5)] init_bounded [OF assms(1-4)] by blast
  have "max_size (queue s) = m"
    using reachable_max [OF assms(5)] init_bounded(3) [OF assms(1-4)] by simp
  with inv show ?thesis
    using owner_holds [of holds_mutex "mutex s" "pcs s"]
    by (auto simp: machine_inv_def mutex_inv_def data_inv_def bounded_inv_def)
qed

theorem threaded_queue_safe_witness:
  "crashed locked = None \<and> sent locked = received locked @ contents (queue locked) \<and>
    holds_mutex (pcs locked ! 0) \<and> \<not> holds_mutex (pcs locked ! 1)"
  using threaded_queue_safe [OF one_slot_init _ _ _ sample_reachable(2), of 0 1]
  by (simp add: locked_def called_def start_def)

text \<open>C7: No wake-up is lost: in any reachable state in which every thread is either idle or asleep,
  a consumer asleep means the queue is empty, and a producer asleep means the queue is full. In
  particular, producers and consumers are never all asleep together.\<close>

theorem threaded_queue_no_lost_wakeup:
  assumes "mqueue_init malloc_total n m desc = Inr q" "unat n \<le> 2 ^ 60" "0 < unat m" "unat m \<le> 2 ^ 58"
    and "reachable k q s" and quiet: "\<forall>p \<in> set (pcs s). \<not> running p"
  shows "(Deq_sleep \<in> set (pcs s) \<longrightarrow> contents (queue s) = []) \<and>
    (Enq_sleep x \<in> set (pcs s) \<longrightarrow> length (contents (queue s)) = unat m) \<and>
    \<not> (Deq_sleep \<in> set (pcs s) \<and> Enq_sleep x \<in> set (pcs s))"
proof -
  have inv: "machine_inv s"
    using reachable_inv [OF assms(5)] init_bounded [OF assms(1-4)] by blast
  moreover have "max_size (queue s) = m"
    using reachable_max [OF assms(5)] init_bounded(3) [OF assms(1-4)] by simp
  ultimately show ?thesis
    using quiet_sleepers [OF inv quiet] assms(3)
    by (fastforce simp: machine_inv_def data_inv_def bounded_inv_def)
qed

theorem threaded_queue_no_lost_wakeup_witness:
  "Deq_sleep \<in> set (pcs asleep) \<and> contents (queue asleep) = []"
proof -
  have p: "pcs asleep = [Deq_sleep, Idle]"
    by (simp add: asleep_def locked_def called_def start_def numeral_2_eq_2)
  then have "\<forall>p \<in> set (pcs asleep). \<not> running p" by simp
  from threaded_queue_no_lost_wakeup [OF one_slot_init _ _ _ sample_reachable(3) this] p
  show ?thesis by simp
qed

text \<open>C12: Left alone (no new calls, no spurious wake-ups), threads come to rest: from any reachable
  state with \<open>k\<close> threads, every sequence of thread steps has at most \<open>6 * k\<close> steps, and one that cannot
  be continued ends with every thread back from its call or asleep. There is no deadlock and no
  livelock.\<close>

theorem threaded_queue_comes_to_rest:
  assumes "mqueue_init malloc_total n m desc = Inr q" "unat n \<le> 2 ^ 60" "0 < unat m" "unat m \<le> 2 ^ 58"
    and "reachable k q s" and run: "thread_run l s s'"
  shows "l \<le> 6 * k \<and> ((\<forall>i s''. \<not> thread_step i s' s'') \<longrightarrow> (\<forall>p \<in> set (pcs s'). \<not> running p))"
proof -
  have inv: "machine_inv s"
    using reachable_inv [OF assms(5)] init_bounded [OF assms(1-4)] by blast
  have l: "int l + work weight (pcs s') \<le> work weight (pcs s)" and inv': "machine_inv s'"
    using thread_run_work [OF run inv] by auto
  have "l \<le> 6 * k"
    using l weight_work(2) [of "pcs s"] weight_work(1) [of "pcs s'"] reachable_length [OF assms(5)] by simp
  moreover have "\<not> running p" if "\<forall>i s''. \<not> thread_step i s' s''" "p \<in> set (pcs s')" for p
    using some_thread_steps [OF inv'] that by (metis in_set_conv_nth)
  ultimately show ?thesis by blast
qed

theorem threaded_queue_comes_to_rest_witness:
  "thread_run 2 called asleep \<and> (2::nat) \<le> 12"
proof -
  have run: "thread_run 2 called asleep"
    using thread_run.run_step [OF thread_run.run_step [OF thread_run.run_nil locked_step] asleep_step]
    by (simp add: numeral_2_eq_2)
  with threaded_queue_comes_to_rest [OF one_slot_init _ _ _ sample_reachable(1) run] show ?thesis
    by simp
qed

text \<open>C31: \<open>mqueue_vacuum\<close> called directly while other threads use the queue can lose an item: when
  an enqueue of \<open>x\<close> (with no growth) falls between the \<open>memmove\<close> and the two index assignments,
  the queue afterwards ends not with \<open>x\<close> but with whatever the array held in the slot after the
  moved segment.\<close>

theorem unlocked_vacuum_loses_item:
  assumes inv: "mqueue_inv q" and f: "front q \<noteq> 0" and room: "q_end q < unat (alloc_size q)"
    and move: "vacuum_move q = Inr q1" and enq: "mqueue_append mok q1 x = Inr (n, q2)"
  shows "segment (vacuum_front (vacuum_rear q2)) =
    segment q @ [blk_cells (data q) ! (q_end q - q_first q)]"
proof -
  from inv obtain b where b: "data q = Live b" "length b = unat (alloc_size q)"
      "unat (alloc_size q) \<le> 2 ^ 60" "q_first q \<le> q_end q" "q_end q \<le> unat (alloc_size q)"
    by (rule mqueue_invE)
  define d where "d = q_end q - q_first q"
  have f0: "0 < q_first q" using f by (simp add: q_first_def unat_gt_0)
  have le: "front q \<le> rear q + 1"
    using b by (auto simp: q_first_def q_end_def word_le_nat_alt)
  have n: "unat (mqueue_size_int q) = d"
    using le by (simp add: mqueue_size_int_def q_first_def q_end_def unat_sub d_def)
  have "unat (sizeof_ptr * mqueue_size_int q) div 8 = d"
    using n b d_def unat_bytes [of "mqueue_size_int q"] by (simp add: mult.commute)
  then have q1: "q1 = q\<lparr>data := Live (take d (drop (q_first q) b) @ drop d b)\<rparr>"
    using move b by (auto simp: vacuum_move_def res_simps q_first_def split: if_splits)
  have ne: "rear q + 1 \<noteq> alloc_size q" using room by (auto simp: q_end_def)
  define c where "c = take d (drop (q_first q) b) @ drop d b"
  have q2: "q2 = q\<lparr>rear := rear q + 1, data := Live (c[q_end q := Some x])\<rparr>"
    using enq ne by (auto simp: q1 c_def mqueue_append_def mqueue_grow_def res_simps q_end_def
        Let_def split: if_splits)
  have qe: "q_end q = q_first q + d" using b(4) by (simp add: d_def)
  have dl: "q_first q + d \<le> length b" "d < length b"
    using b room by (simp_all add: d_def)
  then have ml: "length (take d (drop (q_first q) b)) = d" by simp
  with dl have c: "length c = length b" "take d c = take d (drop (q_first q) b)" "c ! d = b ! d"
    by (simp_all only: c_def nth_append length_append length_drop take_append) auto
  have "unat (rear q + 1 - front q + 1) = d + 1"
    using n b d_def unat_add_1 [of "mqueue_size_int q"] by (simp add: mqueue_size_int_def)
  then have e: "q_end (vacuum_front (vacuum_rear q2)) = d + 1"
    by (simp add: q_end_def vacuum_front_def vacuum_rear_def q2)
  have "segment (vacuum_front (vacuum_rear q2)) = take (d + 1) (c[q_end q := Some x])"
    unfolding segment_def e by (simp add: q_first_def vacuum_front_def vacuum_rear_def q2)
  also have "\<dots> = take d c @ [c ! d]"
    using f0 dl c qe by (simp add: take_Suc_conv_app_nth)
  also have "\<dots> = segment q @ [b ! d]"
    by (simp add: c segment_def b d_def [symmetric])
  finally show ?thesis by (simp add: b d_def)
qed

text \<open>Items 7, 8, 9 came in, 7 and 8 went out; 10 is enqueued during the move. The queue then holds 9
  and the stale 8, which its consumer may have freed; 10 is gone.\<close>

definition racing_queue :: "nat mqueue" where
  "racing_queue = \<lparr>data = Live [Some (Some 7), Some (Some 8), Some (Some 9), None], front = 2, rear = 2,
     max_size = 0, gc_run = 98, alloc_size = 4, description = []\<rparr>"

theorem unlocked_vacuum_loses_item_witness:
  "\<exists>q1 n q2. vacuum_move racing_queue = Inr q1 \<and> mqueue_append malloc_total q1 (Some 10) = Inr (n, q2) \<and>
     contents (vacuum_front (vacuum_rear q2)) = [Some 9, Some 8]"
proof -
  have inv: "mqueue_inv racing_queue"
    by (simp add: racing_queue_def mqueue_inv_def q_first_def q_end_def segment_def)
  have seg: "segment racing_queue = [Some (Some 9)]"
    by (simp add: racing_queue_def segment_def q_first_def q_end_def)
  obtain q1 n q2 where m: "vacuum_move racing_queue = Inr q1"
    and e: "mqueue_append malloc_total q1 (Some 10) = Inr (n, q2)"
    by (simp add: vacuum_move_def racing_queue_def mqueue_append_def mqueue_grow_def
        mqueue_size_int_def sizeof_ptr_def Let_def)
  have "segment (vacuum_front (vacuum_rear q2)) = [Some (Some 9), Some (Some 8)]"
    using unlocked_vacuum_loses_item [OF inv _ _ m e] seg
    by (simp add: racing_queue_def q_end_def q_first_def)
  with m e show ?thesis by (auto simp: contents_def)
qed

end
