(* ===== verification/Perf.thy ===== *)
theory Perf
  imports Mqueue_Threads
begin

section \<open>A producer and a consumer on one queue (perf/perf.c)\<close>

text \<open>
  The two threads of the benchmark on the threaded queue: thread 0 enqueues the items 0, 1, 2 and so
  on, thread 1 dequeues as many. The number \<open>N\<close> of items is a parameter, \<open>MAX_QUEUE * 2\<close> in the
  code; an item stands for the \<open>int\<close> it points to. The loop counters of the threads are added to the
  machine of \<open>Mqueue_Threads\<close>: the call of a thread that is back from its last one starts the next.
\<close>

record perf =
  pf_machine :: "nat machine"
  pf_produced :: nat
    \<comment> \<open>calls of \<open>mqueue_enqueue\<close> so far\<close>
  pf_consumed :: nat
    \<comment> \<open>calls of \<open>mqueue_dequeue\<close> so far\<close>

definition perf_start :: "nat mqueue \<Rightarrow> perf" where
  "perf_start q = \<lparr>pf_machine = start 2 q, pf_produced = 0, pf_consumed = 0\<rparr>"

inductive perf_step :: "nat \<Rightarrow> perf \<Rightarrow> perf \<Rightarrow> bool" for N where
  produce: "at_pc (pf_machine s) 0 Idle \<Longrightarrow> pf_produced s < N \<Longrightarrow>
     perf_step N s (s\<lparr>pf_machine := goto 0 (Enq_lock (Some (pf_produced s))) (pf_machine s),
       pf_produced := pf_produced s + 1\<rparr>)"
| consume: "at_pc (pf_machine s) 1 Idle \<Longrightarrow> pf_consumed s < N \<Longrightarrow>
     perf_step N s (s\<lparr>pf_machine := goto 1 Deq_lock (pf_machine s), pf_consumed := pf_consumed s + 1\<rparr>)"
| call: "thread_step i (pf_machine s) m \<Longrightarrow> perf_step N s (s\<lparr>pf_machine := m\<rparr>)"

text \<open>A spurious wake-up.\<close>

inductive perf_wake :: "perf \<Rightarrow> perf \<Rightarrow> bool" where
  wake_producer: "at_pc (pf_machine s) i (Enq_sleep x) \<Longrightarrow>
     perf_wake s (s\<lparr>pf_machine := goto i (Enq_woken x) (pf_machine s)\<rparr>)"
| wake_consumer: "at_pc (pf_machine s) i Deq_sleep \<Longrightarrow>
     perf_wake s (s\<lparr>pf_machine := goto i Deq_woken (pf_machine s)\<rparr>)"

inductive perf_reach :: "nat \<Rightarrow> nat mqueue \<Rightarrow> perf \<Rightarrow> bool" for N q where
  perf_init: "perf_reach N q (perf_start q)"
| perf_next: "perf_reach N q s \<Longrightarrow> perf_step N s s' \<Longrightarrow> perf_reach N q s'"
| perf_woken: "perf_reach N q s \<Longrightarrow> perf_wake s s' \<Longrightarrow> perf_reach N q s'"

text \<open>\<open>l\<close> steps with no spurious wake-up.\<close>

inductive perf_run :: "nat \<Rightarrow> nat \<Rightarrow> perf \<Rightarrow> perf \<Rightarrow> bool" for N where
  perf_nil: "perf_run N 0 s s"
| perf_more: "perf_run N l s s' \<Longrightarrow> perf_step N s' s'' \<Longrightarrow> perf_run N (Suc l) s s''"

inductive_cases perf_stepE: "perf_step N s s'"
inductive_cases perf_wakeE: "perf_wake s s'"

subsection \<open>Invariant\<close>

text \<open>The item of a call that has not stored it yet.\<close>

fun pending :: "'a pc \<Rightarrow> 'a option list" where
  "pending (Enq_lock x) = [x]" | "pending (Enq_check x) = [x]" | "pending (Enq_sleep x) = [x]"
| "pending (Enq_woken x) = [x]" | "pending _ = []"

text \<open>A dequeue that has not taken its item yet.\<close>

fun taking :: "'a pc \<Rightarrow> bool" where
  "taking Deq_lock = True" | "taking Deq_check = True" | "taking Deq_sleep = True"
| "taking Deq_woken = True" | "taking _ = False"

fun producer_pc :: "'a pc \<Rightarrow> bool" where
  "producer_pc Idle = True" | "producer_pc (Enq_lock x) = True" | "producer_pc (Enq_check x) = True"
| "producer_pc (Enq_sleep x) = True" | "producer_pc (Enq_woken x) = True"
| "producer_pc (Enq_signal n) = True" | "producer_pc (Enq_unlock n) = True" | "producer_pc _ = False"

fun consumer_pc :: "'a pc \<Rightarrow> bool" where
  "consumer_pc Idle = True" | "consumer_pc (Deq_signal x) = True" | "consumer_pc (Deq_unlock x) = True"
| "consumer_pc p = taking p"

fun perf_pcs :: "perf \<Rightarrow> nat pc list \<Rightarrow> bool" where
  "perf_pcs s [p0, p1] \<longleftrightarrow>
     producer_pc p0 \<and> consumer_pc p1 \<and>
     sent (pf_machine s) @ pending p0 = map Some [0..<pf_produced s] \<and>
     pf_consumed s = length (received (pf_machine s)) + of_bool (taking p1)"
| "perf_pcs s _ \<longleftrightarrow> False"

definition perf_inv :: "nat \<Rightarrow> perf \<Rightarrow> bool" where
  "perf_inv N s \<longleftrightarrow> perf_pcs s (pcs (pf_machine s)) \<and> pf_produced s \<le> N \<and> pf_consumed s \<le> N"

lemma perf_invE:
  assumes "perf_inv N s"
  obtains p0 p1 where "pcs (pf_machine s) = [p0, p1]" "perf_pcs s [p0, p1]" "pf_produced s \<le> N" "pf_consumed s \<le> N"
  using assms unfolding perf_inv_def by (cases "(s, pcs (pf_machine s))" rule: perf_pcs.cases) auto

lemma two_pcs: "at_pc m i p \<Longrightarrow> pcs m = [p0, p1] \<Longrightarrow> i = 0 \<and> p = p0 \<or> i = 1 \<and> p = p1"
  by (auto simp: at_pc_def less_Suc_eq nth_Cons')

lemma perf_inv_call:
  assumes "thread_step i (pf_machine s) m" "perf_inv N s"
  shows "perf_inv N (s\<lparr>pf_machine := m\<rparr>)"
proof -
  obtain p0 p1 where p: "pcs (pf_machine s) = [p0, p1]" "perf_pcs s [p0, p1]" "pf_produced s \<le> N" "pf_consumed s \<le> N"
    using perf_invE [OF assms(2)] .
  note two = two_pcs [OF _ p(1)]
  show ?thesis
    using assms(1) unfolding thread_step_def
  proof (elim disjE)
    assume "enq_step i (pf_machine s) m"
    then show ?thesis
      by (cases rule: enq_stepE) (use p in \<open>auto simp: perf_inv_def dest!: two\<close>)
  next
    assume "deq_step i (pf_machine s) m"
    then show ?thesis
      by (cases rule: deq_stepE) (use p in \<open>auto simp: perf_inv_def dest!: two\<close>)
  next
    assume "size_step i (pf_machine s) m"
    then show ?thesis
      by (cases rule: size_stepE) (use p in \<open>auto dest!: two\<close>)
  qed
qed

lemma perf_inv_step:
  assumes "perf_step N s s'" "perf_inv N s"
  shows "perf_inv N s'"
proof -
  obtain p0 p1 where p: "pcs (pf_machine s) = [p0, p1]" "perf_pcs s [p0, p1]" "pf_produced s \<le> N" "pf_consumed s \<le> N"
    using perf_invE [OF assms(2)] .
  note two = two_pcs [OF _ p(1)]
  from assms(1) show ?thesis
  proof (rule perf_stepE)
    fix i m assume "s' = s\<lparr>pf_machine := m\<rparr>" "thread_step i (pf_machine s) m"
    with assms(2) show ?thesis by (simp add: perf_inv_call)
  next
    assume a: "s' = s\<lparr>pf_machine := goto 0 (Enq_lock (Some (pf_produced s))) (pf_machine s), pf_produced := Suc (pf_produced s)\<rparr>"
      "at_pc (pf_machine s) 0 Idle" "pf_produced s < N"
    have "p0 = Idle" using two [OF a(2)] by simp
    with a(3) p show ?thesis unfolding a(1) perf_inv_def by simp
  next
    assume a: "s' = s\<lparr>pf_machine := goto (Suc 0) Deq_lock (pf_machine s), pf_consumed := Suc (pf_consumed s)\<rparr>"
      "at_pc (pf_machine s) (Suc 0) Idle" "pf_consumed s < N"
    have "p1 = Idle" using two [OF a(2)] by simp
    with a(3) p show ?thesis unfolding a(1) perf_inv_def by simp
  qed
qed

lemma perf_inv_wake:
  assumes "perf_wake s s'" "perf_inv N s"
  shows "perf_inv N s'"
proof -
  obtain p0 p1 where p: "pcs (pf_machine s) = [p0, p1]" "perf_pcs s [p0, p1]" "pf_produced s \<le> N" "pf_consumed s \<le> N"
    using perf_invE [OF assms(2)] .
  note two = two_pcs [OF _ p(1)]
  show ?thesis
    using assms(1) by (cases rule: perf_wakeE) (use p in \<open>auto simp: perf_inv_def dest!: two\<close>)
qed

lemma perf_reach_machine: "perf_reach N q s \<Longrightarrow> reachable 2 q (pf_machine s)"
proof (induction rule: perf_reach.induct)
  case perf_init
  then show ?case by (simp add: perf_start_def reach_start)
next
  case (perf_next s s')
  from perf_next(2) show ?case
    by (cases rule: perf_stepE)
      (use reach_env [OF perf_next(3) env_step.call_enq] reach_env [OF perf_next(3) env_step.call_deq]
        reach_thread [OF perf_next(3)] in auto)
next
  case (perf_woken s s')
  from perf_woken(2) show ?case
    by (cases rule: perf_wakeE)
      (use reach_env [OF perf_woken(3) env_step.wake_enq] reach_env [OF perf_woken(3) env_step.wake_deq] in auto)
qed

lemma perf_reach_inv: "perf_reach N q s \<Longrightarrow> perf_inv N s"
proof (induction rule: perf_reach.induct)
  case perf_init
  then show ?case by (simp add: perf_start_def perf_inv_def start_def numeral_2_eq_2)
qed (auto intro: perf_inv_step perf_inv_wake)

lemma perf_run_reach: "perf_run N l s s' \<Longrightarrow> perf_reach N q s \<Longrightarrow> perf_reach N q s'"
  by (induction rule: perf_run.induct) (auto intro: perf_next)

subsection \<open>Steps left\<close>

definition perf_work :: "nat \<Rightarrow> perf \<Rightarrow> int" where
  "perf_work N s = 7 * (int N - int (pf_produced s)) + 7 * (int N - int (pf_consumed s)) + work weight (pcs (pf_machine s))"

lemma perf_work_step:
  assumes "perf_step N s s'" "machine_inv (pf_machine s)"
  shows "perf_work N s' < perf_work N s"
  using assms(1)
proof (rule perf_stepE)
  fix i m assume 3: "s' = s\<lparr>pf_machine := m\<rparr>" "thread_step i (pf_machine s) m"
  then show ?thesis using thread_step_work [OF 3(2) assms(2)] by (simp add: perf_work_def)
qed (auto simp: perf_work_def at_pc_def work_update)

lemma perf_run_work:
  "perf_run N l s s' \<Longrightarrow> perf_reach N q s \<Longrightarrow> (\<And>s. perf_reach N q s \<Longrightarrow> machine_inv (pf_machine s)) \<Longrightarrow>
   int l + perf_work N s' \<le> perf_work N s"
proof (induction rule: perf_run.induct)
  case (perf_more l s s' s'')
  then have "perf_reach N q s'" using perf_run_reach by blast
  then have "perf_work N s'' < perf_work N s'" using perf_work_step [OF perf_more(2)] perf_more(5) by blast
  moreover have "int l + perf_work N s' \<le> perf_work N s" using perf_more by blast
  ultimately show ?case by simp
qed simp

lemma perf_work_bounds:
  assumes "perf_inv N s"
  shows "0 \<le> perf_work N s" "perf_work N s \<le> 14 * int N + 12"
proof -
  obtain p0 p1 where p: "pcs (pf_machine s) = [p0, p1]" "pf_produced s \<le> N" "pf_consumed s \<le> N"
    using perf_invE [OF assms] by metis
  then show "0 \<le> perf_work N s" using weight_work(1) [of "pcs (pf_machine s)"] by (simp add: perf_work_def)
  show "perf_work N s \<le> 14 * int N + 12"
    using p weight_work(2) [of "pcs (pf_machine s)"] by (simp add: perf_work_def)
qed

subsection \<open>Nothing left to do\<close>

lemma perf_stuck_quiet:
  assumes "\<And>s'. \<not> perf_step N s s'" "machine_inv (pf_machine s)"
  shows "\<forall>p \<in> set (pcs (pf_machine s)). \<not> running p"
proof (rule ccontr)
  assume "\<not> ?thesis"
  then obtain i where "i < length (pcs (pf_machine s))" "running (pcs (pf_machine s) ! i)"
    by (auto simp: in_set_conv_nth)
  from some_thread_steps [OF assms(2) this] obtain j m where "thread_step j (pf_machine s) m" by blast
  with assms(1) perf_step.call show False by blast
qed

text \<open>A quiet machine that cannot go on: both threads are done.\<close>

lemma perf_stuck_done:
  assumes stuck: "\<And>s'. \<not> perf_step N s s'" and inv: "perf_inv N s"
    and quiet: "\<forall>p \<in> set (pcs (pf_machine s)). \<not> running p"
    and data: "sent (pf_machine s) = received (pf_machine s) @ contents (queue (pf_machine s))"
    and empty: "Deq_sleep \<in> set (pcs (pf_machine s)) \<Longrightarrow> contents (queue (pf_machine s)) = []"
    and full: "\<And>x. Enq_sleep x \<in> set (pcs (pf_machine s)) \<Longrightarrow> contents (queue (pf_machine s)) \<noteq> []"
  shows "pf_produced s = N \<and> pf_consumed s = N \<and> pcs (pf_machine s) = [Idle, Idle] \<and>
    received (pf_machine s) = map Some [0..<N]"
proof -
  obtain p0 p1 where p: "pcs (pf_machine s) = [p0, p1]" "perf_pcs s [p0, p1]" "pf_produced s \<le> N" "pf_consumed s \<le> N"
    using perf_invE [OF inv] .
  have idle0: "pf_produced s = N" if "p0 = Idle"
  proof (rule ccontr)
    assume "pf_produced s \<noteq> N"
    with p(3) have "pf_produced s < N" by simp
    with perf_step.produce [of s N] stuck p(1) that show False by (simp add: at_pc_def)
  qed
  have idle1: "pf_consumed s = N" if "p1 = Idle"
  proof (rule ccontr)
    assume "pf_consumed s \<noteq> N"
    with p(4) have "pf_consumed s < N" by simp
    with perf_step.consume [of s N] stuck p(1) that show False by (simp add: at_pc_def)
  qed
  have sent: "length (sent (pf_machine s)) + length (pending p0) = pf_produced s"
  proof -
    have "length (sent (pf_machine s) @ pending p0) = length (map Some [0..<pf_produced s])"
      using p(2) by (simp only: perf_pcs.simps)
    then show ?thesis by simp
  qed
  have len: "length (sent (pf_machine s)) = length (received (pf_machine s)) + length (contents (queue (pf_machine s)))"
    by (simp add: data)
  have "p0 = Idle \<or> (\<exists>x. p0 = Enq_sleep x)" using quiet p by (cases p0) auto
  moreover have "p1 = Idle \<or> p1 = Deq_sleep" using quiet p by (cases p1) auto
  moreover have "p1 \<noteq> Idle" if "p0 = Enq_sleep x" for x
    using idle1 sent len full [of x] p that by auto
  moreover have "p1 \<noteq> Deq_sleep" if "p0 = Enq_sleep x" for x
    using empty full [of x] p that by auto
  moreover have "p1 \<noteq> Deq_sleep" if "p0 = Idle"
    using idle0 sent len empty p that by auto
  ultimately have i: "p0 = Idle" "p1 = Idle" by auto
  then have n: "pf_produced s = N" "pf_consumed s = N" using idle0 idle1 by blast+
  then have "sent (pf_machine s) = map Some [0..<N]" "length (received (pf_machine s)) = N"
    using p(2) i by simp_all
  then have "received (pf_machine s) = map Some [0..<N]"
    using len data by simp
  then show ?thesis using n i p(1) by simp
qed

subsection \<open>Properties\<close>

lemma perf_runs_end:
  assumes "mqueue_init malloc_total n m desc = Inr q" "unat n \<le> 2 ^ 60" "0 < unat m" "unat m \<le> 2 ^ 58"
    and reach: "perf_reach N q s" and run: "perf_run N l s s'"
  shows "l \<le> 14 * N + 12 \<and>
    ((\<exists>s''. perf_step N s' s'') \<or>
     pf_produced s' = N \<and> pf_consumed s' = N \<and> pcs (pf_machine s') = [Idle, Idle] \<and>
       received (pf_machine s') = map Some [0..<N])"
proof -
  note q = init_bounded [OF assms(1-4)]
  have minv: "machine_inv (pf_machine t)" if "perf_reach N q t" for t
    using reachable_inv [OF perf_reach_machine [OF that] q(1,2)] .
  have "int l \<le> 14 * int N + 12"
    using perf_run_work [OF run reach minv] perf_work_bounds(2) [OF perf_reach_inv [OF reach]]
      perf_work_bounds(1) [OF perf_reach_inv [OF perf_run_reach [OF run reach]]] by simp
  then have l: "l \<le> 14 * N + 12" by linarith
  have r: "perf_reach N q s'" by (rule perf_run_reach [OF run reach])
  note i = minv [OF r] and ri = perf_reach_machine [OF r]
  have finished: "pf_produced s' = N \<and> pf_consumed s' = N \<and> pcs (pf_machine s') = [Idle, Idle] \<and>
      received (pf_machine s') = map Some [0..<N]" if stuck: "\<And>s''. \<not> perf_step N s' s''"
  proof -
    have quiet: "\<forall>p \<in> set (pcs (pf_machine s')). \<not> running p"
      using stuck i by (rule perf_stuck_quiet)
    have "max_size (queue (pf_machine s')) = m" using reachable_max [OF ri] q(3) by simp
    with quiet_sleepers [OF i quiet] assms(3) have
      "Deq_sleep \<in> set (pcs (pf_machine s')) \<Longrightarrow> contents (queue (pf_machine s')) = []"
      "\<And>x. Enq_sleep x \<in> set (pcs (pf_machine s')) \<Longrightarrow> contents (queue (pf_machine s')) \<noteq> []"
      by fastforce+
    moreover have "sent (pf_machine s') = received (pf_machine s') @ contents (queue (pf_machine s'))"
      using i by (simp add: machine_inv_def data_inv_def)
    ultimately show ?thesis
      using perf_stuck_done [OF stuck perf_reach_inv [OF r] quiet] by blast
  qed
  show ?thesis using l finished by blast
qed

text \<open>C9: the producer and the consumer always finish: from any state they can reach, whatever the
  interleaving and the spurious wake-ups before, at most \<open>14 * N + 12\<close> more steps are possible
  without a spurious wake-up, and when none is, both threads have made their \<open>N\<close> calls and the
  consumer has received the items 0 to \<open>N - 1\<close> in order.\<close>

theorem perf_completes_in_order:
  assumes "mqueue_init malloc_total n m desc = Inr q" "unat n \<le> 2 ^ 60" "0 < unat m" "unat m \<le> 2 ^ 58"
    and reach: "perf_reach N q s" and run: "perf_run N l s s'"
  shows "l \<le> 14 * N + 12 \<and>
    ((\<exists>s''. perf_step N s' s'') \<or>
     pf_produced s' = N \<and> pf_consumed s' = N \<and> pcs (pf_machine s') = [Idle, Idle] \<and>
       received (pf_machine s') = map Some [0..<N])"
  by (rule perf_runs_end [OF assms])

theorem perf_completes_in_order_witness:
  "\<exists>s. perf_step 3 (perf_start one_slot) s"
proof -
  have "perf_run 3 0 (perf_start one_slot) (perf_start one_slot)" by (rule perf_nil)
  from perf_completes_in_order [OF one_slot_init _ _ _ perf_init this] show ?thesis
    by (simp add: perf_start_def)
qed

end
