(* ===== verification/Mstr.thy ===== *)
theory Mstr
  imports Prelude
begin

section \<open>String splitting (mstr.c)\<close>

text \<open>
  \<open>msplit\<close> and \<open>free_msplit\<close>. The allocator is a parameter: \<open>mal n\<close> is the number of bytes that can
  be used when \<open>n\<close> are asked for, or \<open>None\<close> when the allocation fails. An exact allocator
  (\<open>mal n = Some n\<close>) is what C promises; a real one often leaves slack after the block, and the
  code writes into it. The array of words holds the blocks the pointers own, \<open>None\<close> for NULL.
  The debug messages are left out.
\<close>

subsection \<open>The model\<close>

definition SPLIT_SIZE_INITIAL :: nat where
  "SPLIT_SIZE_INITIAL = 8"

definition SPLIT_GROW_FACTOR :: nat where
  "SPLIT_GROW_FACTOR = 2"

definition MAX_SEPARATOR :: nat where
  "MAX_SEPARATOR = 1024"

definition sizeof_ptr :: nat where
  "sizeof_ptr = 8"

type_synonym allocator = "nat \<Rightarrow> nat option"

definition mal_bytes :: "allocator \<Rightarrow> nat \<Rightarrow> byte block res" where
  "mal_bytes mal n = (case mal n of None \<Rightarrow> Inl Assert_failed | Some u \<Rightarrow> Inr (blk_alloc u))"

fun blk_write_list :: "'a block \<Rightarrow> nat \<Rightarrow> 'a list \<Rightarrow> 'a block res" where
  "blk_write_list blk i [] = Inr blk"
| "blk_write_list blk i (x # xs) = rbind (blk_write blk i x) (\<lambda>blk. blk_write_list blk (i + 1) xs)"

text \<open>The array of pointers: \<open>n\<close> pointers asked for, the usable bytes divided by their size.\<close>

type_synonym words_block = "byte block option block"

definition array_alloc :: "allocator \<Rightarrow> nat \<Rightarrow> words_block res" where
  "array_alloc mal n =
     (case mal (sizeof_ptr * n) of None \<Rightarrow> Inl Assert_failed | Some u \<Rightarrow> Inr (blk_alloc (u div sizeof_ptr)))"

definition array_realloc :: "allocator \<Rightarrow> words_block \<Rightarrow> nat \<Rightarrow> words_block res" where
  "array_realloc mal arr n =
     (case mal (sizeof_ptr * n) of None \<Rightarrow> Inl Assert_failed | Some u \<Rightarrow> blk_realloc arr (u div sizeof_ptr))"

definition default_sep :: "byte list" where
  "default_sep = [32, 9, 10, 13]"

text \<open>The copy of the separators: \<open>malloc\<close> and \<open>strcpy\<close> with its NUL. The result is the string
  then in \<open>seps\<close>.\<close>

definition copy_seps :: "allocator \<Rightarrow> byte list option \<Rightarrow> byte list res" where
  "copy_seps mal separators =
     (case separators of
        None \<Rightarrow> rbind (mal_bytes mal 5) (\<lambda>blk.
          rbind (blk_write_list blk 0 (default_sep @ [0])) (\<lambda>blk. Inr default_sep))
      | Some s \<Rightarrow> rbind (mal_bytes mal (strnlen s MAX_SEPARATOR)) (\<lambda>blk.
          rbind (blk_write_list blk 0 (s @ [0])) (\<lambda>blk. Inr s)))"

record split_vars =
  sv_array :: words_block
  sv_array_length :: nat
  sv_nwords :: nat
  sv_inword :: bool
  sv_word_length :: nat

text \<open>The end of a word before position \<open>i\<close>.\<close>

definition store_word :: "allocator \<Rightarrow> byte list \<Rightarrow> nat \<Rightarrow> split_vars \<Rightarrow> split_vars res" where
  "store_word mal s i v =
     (let w = sv_word_length v in
      rbind (mal_bytes mal w) (\<lambda>blk.
      rbind (require Assert_failed (w \<le> i)) (\<lambda>_.
      rbind (blk_write_list blk 0 (take w (drop (i - w) s))) (\<lambda>blk.
      rbind (blk_write blk w 0) (\<lambda>blk.
      rbind (blk_write (sv_array v) (sv_nwords v) (Some blk)) (\<lambda>arr.
      Inr (v\<lparr>sv_array := arr, sv_nwords := sv_nwords v + 1, sv_inword := False\<rparr>)))))))"

text \<open>The start of a word, with the growth of the array.\<close>

definition start_word :: "allocator \<Rightarrow> split_vars \<Rightarrow> split_vars res" where
  "start_word mal v =
     (let v = v\<lparr>sv_inword := True, sv_word_length := 1\<rparr> in
      if sv_array_length v < sv_nwords v + 1 then
        (let n = sv_array_length v * SPLIT_GROW_FACTOR in
         rbind (array_realloc mal (sv_array v) n) (\<lambda>arr. Inr (v\<lparr>sv_array := arr, sv_array_length := n\<rparr>)))
      else Inr v)"

text \<open>One character at \<open>i\<close>; the result has the \<open>i\<close> the body leaves, before the \<open>i++\<close> of the loop.\<close>

definition split_step ::
  "allocator \<Rightarrow> byte list \<Rightarrow> byte list \<Rightarrow> nat \<Rightarrow> split_vars \<Rightarrow> (nat \<times> split_vars) res" where
  "split_step mal seps s i v =
     (let found = list_ex (\<lambda>x. s ! i = x) seps in
      if i = length s - 1 then
        rbind (int_add (sv_word_length v) 1) (\<lambda>w. rbind (int_add i 1) (\<lambda>i.
        let v = v\<lparr>sv_word_length := w\<rparr> in
        if sv_inword v then rbind (store_word mal s i v) (\<lambda>v. Inr (i, v)) else Inr (i, v)))
      else if found then
        (if sv_inword v then rbind (store_word mal s i v) (\<lambda>v. Inr (i, v)) else Inr (i, v))
      else if \<not> sv_inword v then rbind (start_word mal v) (\<lambda>v. Inr (i, v))
      else rbind (int_add (sv_word_length v) 1) (\<lambda>w. Inr (i, v\<lparr>sv_word_length := w\<rparr>)))"

text \<open>The body leaves \<open>i\<close> or \<open>i + 1\<close>.\<close>

lemma split_step_index: "split_step mal seps s i v = Inr (i', v') \<Longrightarrow> i \<le> i'"
  by (auto simp: split_step_def res_simps Let_def split: if_splits)

function split_loop ::
  "allocator \<Rightarrow> byte list \<Rightarrow> byte list \<Rightarrow> nat \<Rightarrow> split_vars \<Rightarrow> split_vars res" where
  "split_loop mal seps s i v =
     (if i < length s then
        rbind (split_step mal seps s i v) (\<lambda>(i', v').
        rbind (int_add i' 1) (\<lambda>j. split_loop mal seps s j v'))
      else Inr v)"
  by pat_completeness auto
termination
  by (relation "measure (\<lambda>(mal, seps, s, i, v). length s - i)")
    (auto simp: int_add_Inr_iff dest!: split_step_index)

declare split_loop.simps [simp del]

definition msplit :: "allocator \<Rightarrow> byte list option \<Rightarrow> byte list option \<Rightarrow> words_block res" where
  "msplit mal input_string separators =
     (case input_string of
        None \<Rightarrow> Inl Assert_failed
      | Some s \<Rightarrow>
          rbind (array_alloc mal SPLIT_SIZE_INITIAL) (\<lambda>arr.
          rbind (copy_seps mal separators) (\<lambda>seps.
          rbind (split_loop mal seps s 0
            \<lparr>sv_array = arr, sv_array_length = SPLIT_SIZE_INITIAL, sv_nwords = 0, sv_inword = False,
             sv_word_length = 0\<rparr>) (\<lambda>v.
          blk_write (sv_array v) (sv_nwords v) None))))"

text \<open>\<open>free_msplit\<close>: each word freed in place, then the array.\<close>

function free_words :: "words_block \<Rightarrow> nat \<Rightarrow> words_block res" where
  "free_words arr i =
     rbind (blk_read arr i) (\<lambda>p.
       case p of
         None \<Rightarrow> Inr arr
       | Some w \<Rightarrow> rbind (blk_free w) (\<lambda>f. rbind (blk_write arr i (Some f)) (\<lambda>arr'. free_words arr' (i + 1))))"
  by pat_completeness auto
termination
  by (relation "measure (\<lambda>(arr, i). length (blk_cells arr) - i)") (auto simp: blk_simps)

declare free_words.simps [simp del]

definition free_msplit :: "words_block \<Rightarrow> (words_block \<times> words_block) res" where
  "free_msplit arr = rbind (free_words arr 0) (\<lambda>arr'. rbind (blk_free arr') (\<lambda>f. Inr (arr', f)))"

subsection \<open>What it computes\<close>

text \<open>The tokens of a string: the maximal runs of non-separators.\<close>

fun tokens_from :: "byte list \<Rightarrow> byte list \<Rightarrow> byte list \<Rightarrow> byte list list" where
  "tokens_from seps cur [] = (if cur = [] then [] else [cur])"
| "tokens_from seps cur (c # cs) =
     (if c \<in> set seps then (if cur = [] then [] else [cur]) @ tokens_from seps [] cs
      else tokens_from seps (cur @ [c]) cs)"

definition tokens :: "byte list \<Rightarrow> byte list \<Rightarrow> byte list list" where
  "tokens seps s = tokens_from seps [] s"

text \<open>The words \<open>msplit\<close> makes: the last character is taken into a word that is open, whatever it
  is, and is dropped when none is.\<close>

fun split_from :: "byte list \<Rightarrow> byte list \<Rightarrow> byte list \<Rightarrow> byte list list" where
  "split_from seps cur [] = []"
| "split_from seps cur [c] = (if cur = [] then [] else [cur @ [c]])"
| "split_from seps cur (c # d # cs) =
     (if c \<in> set seps then (if cur = [] then [] else [cur]) @ split_from seps [] (d # cs)
      else split_from seps (cur @ [c]) (d # cs))"

definition msplit_words :: "byte list \<Rightarrow> byte list \<Rightarrow> byte list list" where
  "msplit_words seps s = split_from seps [] s"

text \<open>A word is open after the characters \<open>t\<close>.\<close>

definition word_open :: "byte list \<Rightarrow> byte list \<Rightarrow> byte list \<Rightarrow> bool" where
  "word_open seps cur t \<longleftrightarrow> (if t = [] then cur \<noteq> [] else last t \<notin> set seps)"

lemma word_open_Cons: "word_open seps cur (x # t) = word_open seps (if x \<in> set seps then [] else cur @ [x]) t"
  by (simp add: word_open_def)

lemma open_tokens: "word_open seps cur t \<Longrightarrow> tokens_from seps cur t \<noteq> []"
proof (induction t arbitrary: cur)
  case (Cons x t)
  then show ?case unfolding word_open_Cons by (cases "x \<in> set seps") auto
qed (simp add: word_open_def)

lemma split_from_snoc:
  "split_from seps cur (t @ [c]) =
     (let ts = tokens_from seps cur t in
      if word_open seps cur t then butlast ts @ [last ts @ [c]] else ts)"
proof (induction t arbitrary: cur)
  case (Cons x t)
  obtain d ds where d: "t @ [c] = d # ds" by (cases "t @ [c]") auto
  show ?case
    using Cons [of "[]"] Cons [of "cur @ [x]"] open_tokens [of seps "[]" t]
    unfolding word_open_Cons by (auto simp: d Let_def butlast_append)
qed (simp add: word_open_def)

lemma tokens_from_snoc:
  "tokens_from seps cur (t @ [c]) =
     (let ts = tokens_from seps cur t in
      if c \<in> set seps then ts
      else if word_open seps cur t then butlast ts @ [last ts @ [c]] else ts @ [[c]])"
proof (induction t arbitrary: cur)
  case (Cons x t)
  show ?case
    using Cons [of "[]"] Cons [of "cur @ [x]"] open_tokens [of seps "[]" t]
    unfolding word_open_Cons by (auto simp: Let_def butlast_append)
qed (simp add: word_open_def)

text \<open>When the two agree.\<close>

lemma msplit_words_eq_tokens:
  "msplit_words seps (t @ [c]) = tokens seps (t @ [c]) \<longleftrightarrow> (c \<in> set seps \<longleftrightarrow> \<not> word_open seps [] t)"
proof -
  have "butlast ts @ [last ts @ [c]] \<noteq> ts" if "ts \<noteq> []" for ts :: "byte list list"
    using that by (metis append_butlast_last_id append_self_conv2 append_self_conv last_snoc not_Cons_self2)
  then show ?thesis
    using open_tokens [of seps "[]" t]
    by (auto simp: msplit_words_def tokens_def split_from_snoc tokens_from_snoc Let_def)
qed

subsection \<open>The loop\<close>

text \<open>An allocator that leaves at least eight bytes after every block.\<close>

definition roomy :: "allocator \<Rightarrow> bool" where
  "roomy mal \<longleftrightarrow> (\<forall>n. \<exists>u. mal n = Some u \<and> n + 8 \<le> u)"

text \<open>The block of a stored word.\<close>

definition word_block :: "allocator \<Rightarrow> byte list \<Rightarrow> byte block" where
  "word_block mal w = Live (map Some (w @ [0]) @ replicate (the (mal (length w)) - length w - 1) None)"

definition words_stored :: "allocator \<Rightarrow> split_vars \<Rightarrow> byte list list \<Rightarrow> bool" where
  "words_stored mal v ws \<longleftrightarrow>
     (\<exists>rest. sv_array v = Live (map (\<lambda>w. Some (Some (word_block mal w))) ws @ rest) \<and>
        sv_array_length v + 1 \<le> length ws + length rest) \<and>
     sv_nwords v = length ws \<and> 0 < sv_array_length v \<and> length ws \<le> sv_array_length v \<and>
     (sv_inword v \<longrightarrow> length ws < sv_array_length v)"

lemma blk_write_list_fresh:
  "blk_write_list (Live (map Some pre @ replicate (length xs + m) None)) (length pre) xs =
     Inr (Live (map Some (pre @ xs) @ replicate m None))"
proof (induction xs arbitrary: pre)
  case (Cons x xs)
  show ?case
    using Cons [of "pre @ [x]"] by (simp add: list_update_append)
qed simp

lemma start_word_ok:
  assumes room: "roomy mal" and st: "words_stored mal v ws" "\<not> sv_inword v"
  shows "\<exists>v'. start_word mal v = Inr v' \<and> words_stored mal v' ws \<and> sv_inword v' \<and> sv_word_length v' = 1"
proof (cases "sv_array_length v < sv_nwords v + 1")
  case False
  then show ?thesis using st by (auto simp: start_word_def words_stored_def Let_def)
next
  case True
  let ?n = "sv_array_length v * 2"
  obtain u where u: "mal (8 * ?n) = Some u" "8 * ?n + 8 \<le> u" using room unfolding roomy_def by blast
  then have d: "?n + 1 \<le> u div 8" by linarith
  obtain rest where rest: "sv_array v = Live (map (\<lambda>w. Some (Some (word_block mal w))) ws @ rest)"
      "sv_array_length v + 1 \<le> length ws + length rest"
    using st(1) by (auto simp: words_stored_def)
  let ?b = "map (\<lambda>w. Some (Some (word_block mal w))) ws @ rest"
  have "take (u div 8) ?b @ replicate (u div 8 - length ?b) None =
      map (\<lambda>w. Some (Some (word_block mal w))) ws @
        (take (u div 8 - length ws) rest @ replicate (u div 8 - length ?b) None)"
    using d st(1) by (simp add: words_stored_def)
  moreover have "?n + 1 \<le> length ws + length (take (u div 8 - length ws) rest @ replicate (u div 8 - length ?b) None)"
    using d st(1) by (simp add: words_stored_def min_def) arith
  ultimately show ?thesis
    using True st rest u
    by (auto simp: start_word_def array_realloc_def sizeof_ptr_def SPLIT_GROW_FACTOR_def words_stored_def Let_def
        mult.commute)
qed

lemma drop_Cons_nth:
  assumes "drop i s = c # cs"
  shows "i < length s" "s ! i = c" "drop (Suc i) s = cs" "length s = i + 1 + length cs"
proof -
  show i: "i < length s" using assms by (cases "i < length s") auto
  then have "s ! i # drop (Suc i) s = c # cs" using assms by (simp add: Cons_nth_drop_Suc)
  then show "s ! i = c" "drop (Suc i) s = cs" by simp_all
  then show "length s = i + 1 + length cs" using i by auto
qed

lemma slice_snoc:
  assumes "take n (drop (i - n) s) = cur" "n \<le> i" "drop i s = c # cs"
  shows "take (n + 1) (drop (i - n) s) = cur @ [c]"
proof -
  have "n < length (drop (i - n) s)" "drop (i - n) s ! n = c"
    using drop_Cons_nth [OF assms(3)] assms(2) by auto
  then show ?thesis using assms(1) by (simp add: take_Suc_conv_app_nth)
qed

text \<open>Where the loop is: \<open>cur\<close> is the open word before position \<open>i\<close>, empty when none is.\<close>

definition scan :: "byte list \<Rightarrow> nat \<Rightarrow> byte list \<Rightarrow> split_vars \<Rightarrow> bool" where
  "scan s i cur v \<longleftrightarrow> sv_inword v = (cur \<noteq> []) \<and> sv_word_length v \<le> i \<and>
     (cur \<noteq> [] \<longrightarrow> sv_word_length v = length cur) \<and> take (length cur) (drop (i - length cur) s) = cur"

lemma scan_closed: "\<not> sv_inword v \<Longrightarrow> sv_word_length v \<le> i \<Longrightarrow> scan s (Suc i) [] v"
  by (simp add: scan_def)

lemma scan_started:
  assumes "drop i s = c # cs" "sv_inword v" "sv_word_length v = 1"
  shows "scan s (Suc i) [c] v"
  using assms slice_snoc [of 0 i s "[]", OF _ _ assms(1)] by (simp add: scan_def)

lemma scan_char:
  assumes "scan s i cur v" "cur \<noteq> []" "drop i s = c # cs"
  shows "scan s (Suc i) (cur @ [c]) (v\<lparr>sv_word_length := sv_word_length v + 1\<rparr>)"
  using assms slice_snoc [OF _ _ assms(3), of "length cur" cur] by (simp add: scan_def)

text \<open>What is left to do at a position, for a string that ends there, ends with the next character, or
  goes on after a separator or another character.\<close>

lemma split_loop_end: "drop i s = [] \<Longrightarrow> split_loop mal seps s i v = Inr v"
  by (simp add: split_loop.simps)

lemma split_loop_last:
  assumes "length s < INT_MAX" "scan s i cur v" "drop i s = [c]"
  shows "split_loop mal seps s i v =
    (let v' = v\<lparr>sv_word_length := sv_word_length v + 1\<rparr> in if cur = [] then Inr v' else store_word mal s (Suc i) v')"
proof -
  note d = drop_Cons_nth [OF assms(3)]
  have i: "i < length s" "i = length s - 1" using d by simp_all
  have add: "int_add (sv_word_length v) 1 = Inr (sv_word_length v + 1)" "int_add i 1 = Inr (Suc i)"
    "int_add (Suc i) 1 = Inr (i + 2)"
    using assms(1,2) i by (simp_all add: scan_def)
  define w where "w = v\<lparr>sv_word_length := sv_word_length v + 1\<rparr>"
  have fin: "split_loop mal seps s (i + 2) v' = Inr v'" for v'
    using i by (intro split_loop_end) simp
  have step: "split_step mal seps s i v =
      (if cur = [] then Inr (Suc i, w) else rbind (store_word mal s (Suc i) w) (\<lambda>v. Inr (Suc i, v)))"
    using i(2) add assms(2) unfolding split_step_def w_def scan_def by (simp only: Let_def rbind.simps) simp
  have "split_loop mal seps s i v =
      rbind (split_step mal seps s i v) (\<lambda>(i', v'). rbind (int_add i' 1) (\<lambda>j. split_loop mal seps s j v'))"
    using i(1) by (subst split_loop.simps) simp
  then show ?thesis
    unfolding step w_def [symmetric] using add(3) fin
    by (cases "store_word mal s (Suc i) w") (simp_all add: Let_def)
qed

lemma split_loop_next:
  assumes "length s < INT_MAX" "scan s i cur v" "drop i s = c # d # cs"
  shows "split_loop mal seps s i v = rbind
    (if c \<in> set seps then if cur = [] then Inr v else store_word mal s i v
     else if cur = [] then start_word mal v else Inr (v\<lparr>sv_word_length := sv_word_length v + 1\<rparr>))
    (split_loop mal seps s (Suc i))"
proof -
  note dr = drop_Cons_nth [OF assms(3)]
  have i: "i < length s" "i \<noteq> length s - 1" using dr by auto
  have add: "int_add (sv_word_length v) 1 = Inr (sv_word_length v + 1)" "int_add i 1 = Inr (Suc i)"
    using assms(1,2) i by (simp_all add: scan_def)
  have inw: "sv_inword v = (cur \<noteq> [])" using assms(2) by (simp add: scan_def)
  have found: "list_ex (\<lambda>x. s ! i = x) seps \<longleftrightarrow> c \<in> set seps"
    using dr by (auto simp: list_ex_iff)
  have "split_loop mal seps s i v = rbind (split_step mal seps s i v) (\<lambda>(i', v'). rbind (int_add i' 1) (\<lambda>j. split_loop mal seps s j v'))"
    using i by (subst split_loop.simps) simp
  then show ?thesis
    using i inw add found by (cases "store_word mal s i v"; cases "start_word mal v") (simp_all add: split_step_def Let_def)
qed

lemma store_word_ok:
  assumes room: "roomy mal" and words: "words_stored mal v ws" and at: "scan s i w v" "w \<noteq> []"
  shows "\<exists>v'. store_word mal s i v = Inr v' \<and> words_stored mal v' (ws @ [w]) \<and> scan s (Suc i) [] v'"
proof -
  have st: "words_stored mal v ws" "sv_inword v"
    and w: "sv_word_length v = length w" "length w \<le> i" "take (length w) (drop (i - length w) s) = w"
    using words at by (auto simp: scan_def)
  obtain u where u: "mal (length w) = Some u" "length w + 8 \<le> u" using room by (auto simp: roomy_def)
  have r: "replicate u None = map Some ([] :: byte list) @ replicate (length w + (u - length w)) None"
    using u by simp
  have 1: "blk_write_list (Live (replicate u None)) 0 w = Inr (Live (map Some w @ replicate (u - length w) None))"
    using blk_write_list_fresh [of "[]" w "u - length w"] unfolding r by simp
  have "u - length w = Suc (u - length w - 1)" using u by simp
  then have 2: "blk_write (Live (map Some w @ replicate (u - length w) None)) (length w) 0 = Inr (word_block mal w)"
    using u by (simp add: word_block_def list_update_append)
  obtain rest where rest: "sv_array v = Live (map (\<lambda>w. Some (Some (word_block mal w))) ws @ rest)"
      "sv_array_length v + 1 \<le> length ws + length rest"
    using st(1) by (auto simp: words_stored_def)
  then obtain x rest' where x: "rest = x # rest'" using st by (cases rest) (auto simp: words_stored_def)
  have 3: "blk_write (sv_array v) (sv_nwords v) (Some (word_block mal w)) =
      Inr (Live (map (\<lambda>w. Some (Some (word_block mal w))) (ws @ [w]) @ rest'))"
    using rest st(1) x by (simp add: words_stored_def list_update_append)
  show ?thesis
    using u w st rest 1 2 3 x
    by (auto simp: scan_def store_word_def mal_bytes_def blk_alloc_def words_stored_def Let_def)
qed

lemma split_loop_ok:
  assumes room: "roomy mal" and len: "length s < INT_MAX"
  shows "words_stored mal v ws \<Longrightarrow> scan s i cur v \<Longrightarrow> drop i s = rest \<Longrightarrow>
    \<exists>v'. split_loop mal seps s i v = Inr v' \<and> words_stored mal v' (ws @ split_from seps cur rest)"
proof (induction seps cur rest arbitrary: i v ws rule: split_from.induct)
  case (1 seps cur)
  then show ?case by (simp add: split_loop_end)
next
  case (2 seps cur c)
  let ?v = "v\<lparr>sv_word_length := sv_word_length v + 1\<rparr>"
  have st: "words_stored mal ?v ws" using 2(1) by (simp add: words_stored_def)
  show ?case
    using split_loop_last [OF len 2(2,3)] st store_word_ok [OF room st scan_char [OF 2(2) _ 2(3)]]
    by (cases "cur = []") (auto simp: Let_def)
next
  case (3 seps cur c d cs)
  have dr: "drop (Suc i) s = d # cs" using drop_Cons_nth [OF 3(5)] by simp
  note loop = split_loop_next [OF len 3(4,5), of mal seps]
  consider (sep_in) "c \<in> set seps" "cur \<noteq> []" | (sep_out) "c \<in> set seps" "cur = []"
    | (starts) "c \<notin> set seps" "cur = []" | (char) "c \<notin> set seps" "cur \<noteq> []" by blast
  then show ?case
  proof cases
    case sep_in
    obtain v' where v': "store_word mal s i v = Inr v'" "words_stored mal v' (ws @ [cur])" "scan s (Suc i) [] v'"
      using store_word_ok [OF room 3(3,4) sep_in(2)] by blast
    show ?thesis using loop v' 3(1) [OF sep_in(1) v'(2,3) dr] sep_in by auto
  next
    case sep_out
    then have "scan s (Suc i) [] v" using 3(4) by (simp add: scan_def)
    then show ?thesis using loop 3(1) [OF sep_out(1) 3(3) _ dr] sep_out by auto
  next
    case starts
    then have "\<not> sv_inword v" using 3(4) by (simp add: scan_def)
    then obtain v' where v': "start_word mal v = Inr v'" "words_stored mal v' ws" "sv_inword v'" "sv_word_length v' = 1"
      using start_word_ok [OF room 3(3)] by blast
    show ?thesis using loop v' 3(2) [OF starts(1) v'(2) _ dr] scan_started [OF 3(5) v'(3,4)] starts by auto
  next
    case char
    have st: "words_stored mal (v\<lparr>sv_word_length := sv_word_length v + 1\<rparr>) ws" using 3(3) by (simp add: words_stored_def)
    show ?thesis using loop 3(2) [OF char(1) st scan_char [OF 3(4) char(2) 3(5)] dr] char by auto
  qed
qed

subsection \<open>An exact allocator\<close>

lemma blk_write_list_overflow:
  "length b < i + length xs \<Longrightarrow> i \<le> length b \<Longrightarrow> blk_write_list (Live b) i xs = Inl Out_of_bounds"
proof (induction xs arbitrary: b i)
  case (Cons x xs)
  then show ?case by (cases "i < length b") auto
qed simp

lemma store_word_exact:
  assumes "scan s i w v" "w \<noteq> []"
  shows "store_word Some s i v = Inl Out_of_bounds"
proof -
  have "blk_write_list (Live (map Some ([] :: byte list) @ replicate (length w + 0) None)) (length ([] :: byte list)) w =
      Inr (Live (map Some w @ replicate 0 None))"
    using blk_write_list_fresh [of "[]" w 0] by simp
  then show ?thesis
    using assms by (simp add: scan_def store_word_def mal_bytes_def blk_alloc_def Let_def)
qed

lemma split_loop_exact:
  assumes len: "length s < INT_MAX"
  shows "sv_nwords v = 0 \<Longrightarrow> 0 < sv_array_length v \<Longrightarrow> scan s i cur v \<Longrightarrow> drop i s = rest \<Longrightarrow>
    (split_from seps cur rest \<noteq> [] \<longrightarrow> split_loop Some seps s i v = Inl Out_of_bounds) \<and>
    (split_from seps cur rest = [] \<longrightarrow>
      (\<exists>v'. split_loop Some seps s i v = Inr v' \<and> sv_array v' = sv_array v \<and> sv_nwords v' = 0))"
proof (induction seps cur rest arbitrary: i v rule: split_from.induct)
  case (1 seps cur)
  then show ?case by (simp add: split_loop_end)
next
  case (2 seps cur c)
  show ?case
    using split_loop_last [OF len 2(3,4)] store_word_exact [OF scan_char [OF 2(3) _ 2(4)]] 2(1)
    by (cases "cur = []") (auto simp: Let_def)
next
  case (3 seps cur c d cs)
  have dr: "drop (Suc i) s = d # cs" using drop_Cons_nth [OF 3(6)] by simp
  note loop = split_loop_next [OF len 3(5,6), of Some seps]
  consider (sep_in) "c \<in> set seps" "cur \<noteq> []" | (sep_out) "c \<in> set seps" "cur = []"
    | (starts) "c \<notin> set seps" "cur = []" | (char) "c \<notin> set seps" "cur \<noteq> []" by blast
  then show ?case
  proof cases
    case sep_in
    then show ?thesis using loop store_word_exact [OF 3(5) sep_in(2)] by simp
  next
    case sep_out
    then have "scan s (Suc i) [] v" using 3(5) by (simp add: scan_def)
    then show ?thesis using loop 3(1) [OF sep_out(1) 3(3,4) _ dr] sep_out by auto
  next
    case starts
    let ?v = "v\<lparr>sv_inword := True, sv_word_length := 1\<rparr>"
    have "start_word Some v = Inr ?v" using 3(3,4) by (simp add: start_word_def Let_def)
    then show ?thesis using loop 3(2) [OF starts(1), of ?v "Suc i"] scan_started [OF 3(6), of ?v] 3(3,4) dr starts by auto
  next
    case char
    let ?v = "v\<lparr>sv_word_length := sv_word_length v + 1\<rparr>"
    show ?thesis using loop 3(2) [OF char(1), of ?v "Suc i"] scan_char [OF 3(5) char(2) 3(6)] 3(3,4) dr char by auto
  qed
qed

subsection \<open>Any allocator\<close>

text \<open>What C promises of an allocator: a block has the bytes that were asked for, or there is none.
  When a word, the separators or the final NULL do not fit the block they get, the code faults; when it
  does not, it has stored what it stores with room.\<close>

definition honest :: "allocator \<Rightarrow> bool" where
  "honest mal \<longleftrightarrow> (\<forall>n u. mal n = Some u \<longrightarrow> n \<le> u)"

lemma roomy_honest: "roomy mal \<Longrightarrow> honest mal"
  unfolding roomy_def honest_def by (metis add_leD1 option.inject)

definition stored :: "allocator \<Rightarrow> split_vars \<Rightarrow> byte list list \<Rightarrow> bool" where
  "stored mal v ws \<longleftrightarrow>
     (\<exists>rest. sv_array v = Live (map (\<lambda>w. Some (Some (word_block mal w))) ws @ rest)) \<and>
     sv_nwords v = length ws \<and> 0 < sv_array_length v \<and> length ws \<le> sv_array_length v \<and>
     (sv_inword v \<longrightarrow> length ws < sv_array_length v)"

lemma stored_length [simp]: "stored mal (v\<lparr>sv_word_length := n\<rparr>) ws = stored mal v ws"
  by (simp add: stored_def)

lemma blk_write_list_Inr:
  "blk_write_list (Live b) i xs = Inr blk \<Longrightarrow> \<exists>b'. blk = Live b' \<and> length b' = length b"
proof (induction xs arbitrary: b i)
  case (Cons x xs)
  then show ?case by (cases "i < length b") fastforce+
qed auto

lemma store_word_stored:
  assumes "store_word mal s i v = Inr v'" "stored mal v ws" "scan s i w v" "w \<noteq> []"
  shows "stored mal v' (ws @ [w]) \<and> scan s (Suc i) [] v'"
proof -
  have w: "sv_inword v" "sv_word_length v = length w" "take (length w) (drop (i - length w) s) = w"
    "sv_word_length v \<le> i"
    using assms(3,4) by (auto simp: scan_def)
  obtain u b b' arr where u: "mal (length w) = Some u"
    and b: "blk_write_list (Live (replicate u None)) 0 w = Inr b" "blk_write b (length w) 0 = Inr b'"
    and arr: "blk_write (sv_array v) (sv_nwords v) (Some b') = Inr arr"
    and v': "v' = v\<lparr>sv_array := arr, sv_nwords := sv_nwords v + 1, sv_inword := False\<rparr>"
    using assms(1) w
    by (auto simp: store_word_def mal_bytes_def blk_alloc_def Let_def res_simps split: option.splits)
  have "length w < u" using blk_write_list_Inr [OF b(1)] b(2) by (auto split: if_splits)
  then have r: "replicate u None = map Some ([] :: byte list) @ replicate (length w + (u - length w)) None"
    "replicate (u - length w) (None :: byte option) = None # replicate (u - length w - 1) None"
    by (simp_all flip: replicate_Suc)
  have "b = Live (map Some w @ replicate (u - length w) None)"
    using blk_write_list_fresh [of "[]" w "u - length w"] b(1) unfolding r(1) by simp
  then have b': "b' = word_block mal w"
    using b(2) u unfolding r(2) by (auto simp: word_block_def list_update_append)
  obtain rest where rest: "sv_array v = Live (map (\<lambda>w. Some (Some (word_block mal w))) ws @ rest)"
    using assms(2) by (auto simp: stored_def)
  obtain x rest' where "rest = x # rest'"
    using arr assms(2) unfolding rest by (cases rest) (auto simp: stored_def)
  then have "arr = Live (map (\<lambda>w. Some (Some (word_block mal w))) (ws @ [w]) @ rest')"
    using arr assms(2) unfolding rest b' by (auto simp: stored_def list_update_append)
  then show ?thesis
    using assms(2) w by (auto simp: stored_def scan_def v')
qed

lemma start_word_stored:
  assumes "honest mal" "start_word mal v = Inr v'" "stored mal v ws" "\<not> sv_inword v"
  shows "stored mal v' ws \<and> sv_inword v' \<and> sv_word_length v' = 1"
proof (cases "sv_array_length v < sv_nwords v + 1")
  case False
  then show ?thesis using assms(2,3) by (auto simp: start_word_def stored_def Let_def)
next
  case True
  let ?n = "sv_array_length v * 2"
  obtain rest where rest: "sv_array v = Live (map (\<lambda>w. Some (Some (word_block mal w))) ws @ rest)"
    using assms(3) by (auto simp: stored_def)
  obtain u where u: "mal (8 * ?n) = Some u"
    and v': "v' = v\<lparr>sv_inword := True, sv_word_length := 1, sv_array := Live (take (u div 8)
        (map (\<lambda>w. Some (Some (word_block mal w))) ws @ rest) @
          replicate (u div 8 - length (map (\<lambda>w. Some (Some (word_block mal w))) ws @ rest)) None),
      sv_array_length := ?n\<rparr>"
    using assms(2) True rest
    by (auto simp: start_word_def array_realloc_def sizeof_ptr_def SPLIT_GROW_FACTOR_def Let_def mult.commute
        res_simps split: option.splits)
  have "8 * ?n \<le> u" using assms(1) u by (auto simp: honest_def)
  then have "length ws \<le> u div 8" using assms(3) by (auto simp: stored_def)
  then show ?thesis using True assms(3) by (auto simp: stored_def v')
qed

lemma split_loop_stored:
  assumes honest: "honest mal" and len: "length s < INT_MAX"
  shows "split_loop mal seps s i v = Inr v' \<Longrightarrow> stored mal v ws \<Longrightarrow> scan s i cur v \<Longrightarrow> drop i s = rest \<Longrightarrow>
    stored mal v' (ws @ split_from seps cur rest)"
proof (induction seps cur rest arbitrary: i v ws rule: split_from.induct)
  case (1 seps cur)
  then show ?case by (simp add: split_loop_end)
next
  case (2 seps cur c)
  show ?case
    using 2(1,2) split_loop_last [OF len 2(3,4), of mal seps]
      store_word_stored [OF _ _ scan_char [OF 2(3) _ 2(4)], of mal v' ws]
    by (cases "cur = []") (auto simp: Let_def)
next
  case (3 seps cur c d cs)
  have dr: "drop (Suc i) s = d # cs" using drop_Cons_nth [OF 3(6)] by simp
  have loop: "rbind (if c \<in> set seps then if cur = [] then Inr v else store_word mal s i v
     else if cur = [] then start_word mal v else Inr (v\<lparr>sv_word_length := sv_word_length v + 1\<rparr>))
    (split_loop mal seps s (Suc i)) = Inr v'"
    using 3(3) unfolding split_loop_next [OF len 3(5,6)] .
  consider (sep_in) "c \<in> set seps" "cur \<noteq> []" | (sep_out) "c \<in> set seps" "cur = []"
    | (starts) "c \<notin> set seps" "cur = []" | (char) "c \<notin> set seps" "cur \<noteq> []" by blast
  then show ?case
  proof cases
    case sep_in
    then obtain u where u: "store_word mal s i v = Inr u" "split_loop mal seps s (Suc i) u = Inr v'"
      using loop by (auto simp: res_simps)
    note st = store_word_stored [OF u(1) 3(4,5) sep_in(2)]
    show ?thesis using 3(1) [OF sep_in(1) u(2) conjunct1 [OF st] conjunct2 [OF st] dr] sep_in by simp
  next
    case sep_out
    then have "scan s (Suc i) [] v" using 3(5) by (simp add: scan_def)
    then show ?thesis using loop 3(1) [OF sep_out(1) _ 3(4) _ dr] sep_out by simp
  next
    case starts
    then obtain u where u: "start_word mal v = Inr u" "split_loop mal seps s (Suc i) u = Inr v'"
      using loop by (auto simp: res_simps)
    have "\<not> sv_inword v" using 3(5) starts by (simp add: scan_def)
    from start_word_stored [OF honest u(1) 3(4) this]
    show ?thesis using 3(2) [OF starts(1) u(2) _ _ dr, of ws] scan_started [OF 3(6), of u] starts by simp
  next
    case char
    then show ?thesis
      using loop 3(2) [OF char(1) _ _ scan_char [OF 3(5) char(2) 3(6)] dr, of ws] 3(4) by simp
  qed
qed

subsection \<open>Properties\<close>

definition used_seps :: "byte list option \<Rightarrow> byte list" where
  "used_seps separators = (case separators of None \<Rightarrow> default_sep | Some t \<Rightarrow> t)"

definition result_array :: "allocator \<Rightarrow> byte list list \<Rightarrow> byte block option cells \<Rightarrow> words_block" where
  "result_array mal ws rest = Live (map (\<lambda>w. Some (Some (word_block mal w))) ws @ Some None # rest)"

lemma copy_seps_ok:
  assumes "roomy mal" "length (used_seps separators) \<le> MAX_SEPARATOR"
  shows "copy_seps mal separators = Inr (used_seps separators)"
proof -
  have w: "\<exists>blk. blk_write_list (blk_alloc u) 0 xs = Inr blk" if "length xs \<le> u" for u and xs :: "byte list"
    using that blk_write_list_fresh [of "[]" xs "u - length xs"] by (simp add: blk_alloc_def)
  show ?thesis
  proof (cases separators)
    case None
    obtain u where u: "mal 5 = Some u" "5 + 8 \<le> u" using assms(1) unfolding roomy_def by blast
    then obtain blk where "blk_write_list (blk_alloc u) 0 (default_sep @ [0]) = Inr blk"
      using w [of "default_sep @ [0]" u] by (auto simp: default_sep_def)
    then show ?thesis using None u by (simp add: copy_seps_def used_seps_def mal_bytes_def)
  next
    case (Some t)
    obtain u where u: "mal (length t) = Some u" "length t + 8 \<le> u" using assms(1) unfolding roomy_def by blast
    then obtain blk where "blk_write_list (blk_alloc u) 0 (t @ [0]) = Inr blk"
      using w [of "t @ [0]" u] by auto
    then show ?thesis
      using Some u assms(2) by (simp add: copy_seps_def used_seps_def mal_bytes_def strnlen_def min_absorb1)
  qed
qed

lemma msplit_ok:
  assumes "roomy mal" "length s < INT_MAX" "length (used_seps separators) \<le> MAX_SEPARATOR"
  shows "\<exists>rest. msplit mal (Some s) separators =
    Inr (result_array mal (msplit_words (used_seps separators) s) rest)"
proof -
  obtain u where u: "mal (8 * 8) = Some u" "72 \<le> u" using assms(1) unfolding roomy_def by fastforce
  let ?v = "\<lparr>sv_array = Live (replicate (u div 8) None), sv_array_length = 8, sv_nwords = 0, sv_inword = False,
     sv_word_length = 0\<rparr> :: split_vars"
  have "9 \<le> u div 8" using u by linarith
  then have "words_stored mal ?v []" by (simp add: words_stored_def)
  then obtain v where v: "split_loop mal (used_seps separators) s 0 ?v = Inr v"
      "words_stored mal v ([] @ split_from (used_seps separators) [] s)"
    using split_loop_ok [OF assms(1,2), of ?v "[]" 0 "[]" s] by (auto simp: scan_def)
  then obtain rr where rr: "sv_array v = Live (map (\<lambda>w. Some (Some (word_block mal w)))
        (msplit_words (used_seps separators) s) @ rr)"
      "sv_nwords v = length (msplit_words (used_seps separators) s)"
      "length (msplit_words (used_seps separators) s) < length (msplit_words (used_seps separators) s) + length rr"
    unfolding words_stored_def msplit_words_def by fastforce
  then obtain r rest where "rr = r # rest" by (cases rr) auto
  then show ?thesis
    using u v rr copy_seps_ok [OF assms(1,3)]
    by (auto simp: msplit_def array_alloc_def sizeof_ptr_def SPLIT_SIZE_INITIAL_def blk_alloc_def result_array_def
        list_update_append)
qed

lemma copy_seps_used: "copy_seps mal separators = Inr seps \<Longrightarrow> seps = used_seps separators"
  by (auto simp: copy_seps_def used_seps_def res_simps split: option.splits)

lemma msplit_returns:
  assumes "honest mal" "length s < INT_MAX" "msplit mal (Some s) separators = Inr arr"
  shows "\<exists>rest. arr = result_array mal (msplit_words (used_seps separators) s) rest"
proof -
  obtain a seps v where a: "array_alloc mal SPLIT_SIZE_INITIAL = Inr a" "copy_seps mal separators = Inr seps"
    and v: "split_loop mal seps s 0 \<lparr>sv_array = a, sv_array_length = SPLIT_SIZE_INITIAL, sv_nwords = 0,
        sv_inword = False, sv_word_length = 0\<rparr> = Inr v"
    and arr: "blk_write (sv_array v) (sv_nwords v) None = Inr arr"
    using assms(3) by (auto simp: msplit_def res_simps)
  have "stored mal \<lparr>sv_array = a, sv_array_length = SPLIT_SIZE_INITIAL, sv_nwords = 0,
        sv_inword = False, sv_word_length = 0\<rparr> []"
    using a(1) by (auto simp: stored_def array_alloc_def blk_alloc_def SPLIT_SIZE_INITIAL_def split: option.splits)
  from split_loop_stored [OF assms(1,2) v this, of "[]" s]
  have "stored mal v (msplit_words seps s)" by (simp add: scan_def msplit_words_def)
  then obtain rest where r: "sv_array v = Live (map (\<lambda>w. Some (Some (word_block mal w))) (msplit_words seps s) @ rest)"
      "sv_nwords v = length (msplit_words seps s)"
    by (auto simp: stored_def)
  then obtain x rest' where "rest = x # rest'" using arr by (cases rest) auto
  then have "arr = result_array mal (msplit_words seps s) rest'"
    using arr r by (auto simp: result_array_def list_update_append)
  then show ?thesis using copy_seps_used [OF a(2)] by blast
qed

text \<open>C17: with an allocator that leaves eight bytes after every block and separators of at most
  \<open>MAX_SEPARATOR\<close> bytes, \<open>msplit\<close> returns the words of \<open>msplit_words\<close>, each NUL-terminated, followed
  by a NULL, whatever their number.\<close>

theorem msplit_result:
  assumes "roomy mal" "length s < INT_MAX" "length (used_seps separators) \<le> MAX_SEPARATOR"
  shows "\<exists>rest. msplit mal (Some s) separators =
    Inr (result_array mal (msplit_words (used_seps separators) s) rest)"
  by (rule msplit_ok [OF assms])

definition roomy_malloc :: allocator where
  "roomy_malloc n = Some (n + 8)"

lemma roomy_malloc: "roomy roomy_malloc"
  by (simp add: roomy_def roomy_malloc_def)

theorem msplit_result_witness:
  "\<exists>rest. msplit roomy_malloc (Some (map of_char ''a=1;b=22'')) (Some (map of_char '';'')) =
    Inr (result_array roomy_malloc [map of_char ''a=1'', map of_char ''b=22''] rest)"
proof -
  have "msplit_words (used_seps (Some (map of_char '';''))) (map of_char ''a=1;b=22'') =
      [map of_char ''a=1'', map of_char ''b=22'']"
    by code_simp
  then show ?thesis
    using msplit_result [OF roomy_malloc, of "map of_char ''a=1;b=22''" "Some (map of_char '';'')"]
    by (simp add: used_seps_def INT_MAX_def MAX_SEPARATOR_def)
qed

lemma word_block_eq_iff: "word_block mal w = word_block mal w' \<longleftrightarrow> w = w'"
proof
  assume "word_block mal w = word_block mal w'"
  then have "takeWhile (\<lambda>c. c \<noteq> None) (blk_cells (word_block mal w)) = takeWhile (\<lambda>c. c \<noteq> None) (blk_cells (word_block mal w'))"
    by simp
  moreover have "takeWhile (\<lambda>c. c \<noteq> None) (map Some xs @ replicate k None) = map Some xs" for xs :: "byte list" and k
    by (induction xs) (auto simp: takeWhile_eq_Nil_iff)
  ultimately have "map Some (w @ [0]) = map Some (w' @ [0])"
    by (simp only: word_block_def blk_cells.simps)
  then have "w @ [0] = w' @ [0]" by (rule map_injective) simp
  then show "w = w'" by simp
qed simp

lemma result_array_eq: "result_array mal ws rest = result_array mal ts rest' \<Longrightarrow> ws = ts"
proof (induction ws arbitrary: ts)
  case Nil
  then show ?case by (cases ts) (auto simp: result_array_def)
next
  case (Cons w ws)
  then obtain t ts' where "ts = t # ts'" by (cases ts) (auto simp: result_array_def)
  with Cons show ?case by (simp add: result_array_def word_block_eq_iff)
qed

text \<open>An allocator that rounds a request up to a multiple of 16 bytes less the eight it keeps for
  itself, as common C libraries do: it gives what is asked for, and often more.\<close>

definition rounding_malloc :: allocator where
  "rounding_malloc n = Some (max 24 ((n + 23) div 16 * 16 - 8))"

lemma rounding_malloc: "honest rounding_malloc" "\<not> roomy rounding_malloc"
proof -
  show "honest rounding_malloc" by (auto simp: honest_def rounding_malloc_def)
  have "rounding_malloc 24 = Some 24" by (simp add: rounding_malloc_def)
  then show "\<not> roomy rounding_malloc" unfolding roomy_def by (intro notI) (drule spec [of _ 24], simp)
qed

text \<open>C27: whatever the allocator, as long as a block has the bytes that were asked for (all that C
  promises of \<open>malloc\<close>), the words an \<open>msplit\<close> that returns has stored are the tokens of the
  string, the maximal runs of non-separators, exactly when the string ends inside a word of at
  least two characters, or in a separator that follows no word: a word of one character at the
  end is dropped, and a separator at the end of a word is taken into it. It does return when
  every block has eight bytes to spare and the separators are at most \<open>MAX_SEPARATOR\<close> bytes; when
  no block has any, C29 says where it writes outside an allocation instead.\<close>

theorem msplit_tokens_iff:
  assumes "honest mal" "length (t @ [c]) < INT_MAX"
  shows "(\<forall>arr. msplit mal (Some (t @ [c])) separators = Inr arr \<longrightarrow>
      ((\<exists>rest. arr = result_array mal (tokens (used_seps separators) (t @ [c])) rest) \<longleftrightarrow>
       (c \<in> set (used_seps separators) \<longleftrightarrow> t = [] \<or> last t \<in> set (used_seps separators)))) \<and>
    (roomy mal \<longrightarrow> length (used_seps separators) \<le> MAX_SEPARATOR \<longrightarrow>
      (\<exists>arr. msplit mal (Some (t @ [c])) separators = Inr arr))"
proof -
  let ?seps = "used_seps separators"
  have "(\<exists>rest. arr = result_array mal (tokens ?seps (t @ [c])) rest) \<longleftrightarrow>
      (c \<in> set ?seps \<longleftrightarrow> t = [] \<or> last t \<in> set ?seps)"
    if r: "msplit mal (Some (t @ [c])) separators = Inr arr" for arr
  proof -
    obtain rest where "arr = result_array mal (msplit_words ?seps (t @ [c])) rest"
      using msplit_returns [OF assms r] by blast
    then have "(\<exists>rest. arr = result_array mal (tokens ?seps (t @ [c])) rest) \<longleftrightarrow>
        msplit_words ?seps (t @ [c]) = tokens ?seps (t @ [c])"
      using result_array_eq by metis
    then show ?thesis unfolding msplit_words_eq_tokens by (auto simp: word_open_def)
  qed
  then show ?thesis using msplit_ok [OF _ assms(2)] by blast
qed

text \<open>With a rounding allocator \<open>msplit\<close> returns on both strings below; only the second is split
  into its tokens. With slack it returns on the first one as well.\<close>

theorem msplit_tokens_iff_witness:
  "(\<exists>arr. msplit rounding_malloc (Some (map of_char ''-v x'')) None = Inr arr \<and>
      (\<nexists>rest. arr = result_array rounding_malloc (tokens default_sep (map of_char ''-v x'')) rest)) \<and>
   (\<exists>arr rest. msplit rounding_malloc (Some (map of_char ''-v xy'')) None = Inr arr \<and>
      arr = result_array rounding_malloc (tokens default_sep (map of_char ''-v xy'')) rest) \<and>
   (\<exists>arr. msplit roomy_malloc (Some (map of_char ''-v x'')) None = Inr arr)"
proof -
  have "\<not> isl (msplit rounding_malloc (Some (map of_char ''-v x'')) None)"
    "\<not> isl (msplit rounding_malloc (Some (map of_char ''-v xy'')) None)"
    by (simp add: msplit_def array_alloc_def copy_seps_def default_sep_def mal_bytes_def blk_alloc_def
        rounding_malloc_def sizeof_ptr_def SPLIT_SIZE_INITIAL_def,
      (subst split_loop.simps, simp add: split_step_def store_word_def start_word_def mal_bytes_def blk_alloc_def
        rounding_malloc_def INT_MAX_def Let_def)+)+
  then have r: "\<exists>arr. msplit rounding_malloc (Some (map of_char ''-v x'')) None = Inr arr"
    "\<exists>arr. msplit rounding_malloc (Some (map of_char ''-v xy'')) None = Inr arr"
    by (simp_all add: isl_def) (meson sum.exhaust)+
  show ?thesis
    using r msplit_tokens_iff [OF rounding_malloc(1), of "map of_char ''-v ''" "of_char (CHR ''x'')" None]
      msplit_tokens_iff [OF rounding_malloc(1), of "map of_char ''-v x''" "of_char (CHR ''y'')" None]
      msplit_tokens_iff [OF roomy_honest [OF roomy_malloc], of "map of_char ''-v ''" "of_char (CHR ''x'')" None]
      roomy_malloc
    by (auto simp: used_seps_def default_sep_def INT_MAX_def MAX_SEPARATOR_def)
qed

lemma copy_seps_exact: "copy_seps Some (Some separators) = Inl Out_of_bounds"
proof -
  have "blk_write_list (Live (replicate (min (length separators) MAX_SEPARATOR) None)) 0 (separators @ [0]) =
      Inl Out_of_bounds"
    by (rule blk_write_list_overflow) auto
  then show ?thesis by (simp add: copy_seps_def mal_bytes_def blk_alloc_def strnlen_def)
qed

lemma msplit_exact_separators: "msplit Some (Some s) (Some separators) = Inl Out_of_bounds"
  by (simp add: msplit_def copy_seps_exact array_alloc_def blk_alloc_def)

text \<open>C29: with an allocator that gives exactly what is asked for, \<open>msplit\<close> writes outside an
  allocation as soon as there is a word to store (its NUL is one past the end), and on every input
  when separators are given (their copy has no room for the NUL).\<close>

theorem msplit_exact_allocator:
  assumes "length s < INT_MAX"
  shows "(msplit_words default_sep s \<noteq> [] \<longrightarrow> msplit Some (Some s) None = Inl Out_of_bounds) \<and>
    (msplit_words default_sep s = [] \<longrightarrow> msplit Some (Some s) None = Inr (Live (Some None # replicate 7 None))) \<and>
    msplit Some (Some s) (Some separators) = Inl Out_of_bounds"
proof -
  let ?v = "\<lparr>sv_array = Live (replicate 8 None), sv_array_length = 8, sv_nwords = 0, sv_inword = False,
     sv_word_length = 0\<rparr> :: split_vars"
  have l: "(split_from default_sep [] s \<noteq> [] \<longrightarrow> split_loop Some default_sep s 0 ?v = Inl Out_of_bounds) \<and>
      (split_from default_sep [] s = [] \<longrightarrow> (\<exists>v'. split_loop Some default_sep s 0 ?v = Inr v' \<and>
        sv_array v' = sv_array ?v \<and> sv_nwords v' = 0))"
    by (rule split_loop_exact [OF assms]) (simp_all add: scan_def)
  have c: "copy_seps Some None = Inr default_sep"
    using blk_write_list_fresh [of "[]" "default_sep @ [0]" 0]
    by (simp add: copy_seps_def mal_bytes_def blk_alloc_def default_sep_def)
  have r8: "replicate 8 (None :: byte block option option) = None # replicate 7 None"
    by (simp flip: replicate_Suc)
  have a: "array_alloc Some 8 = Inr (Live (replicate 8 None))"
    by (simp add: array_alloc_def sizeof_ptr_def blk_alloc_def)
  show ?thesis
    using l c a r8 msplit_exact_separators [of s separators]
    by (auto simp: msplit_def SPLIT_SIZE_INITIAL_def msplit_words_def)
qed

theorem msplit_exact_allocator_witness:
  "msplit Some (Some (map of_char ''ls -l'')) None = Inl Out_of_bounds \<and>
   msplit Some (Some []) None = Inr (Live (Some None # replicate 7 None)) \<and>
   msplit Some (Some []) (Some [58]) = Inl Out_of_bounds"
proof -
  have "msplit_words default_sep (map of_char ''ls -l'') \<noteq> []" "msplit_words default_sep [] = []"
    by code_simp+
  then show ?thesis
    using msplit_exact_allocator [of "map of_char ''ls -l''"] msplit_exact_allocator [of "[]" "[58]"]
    by (simp add: INT_MAX_def)
qed

lemma free_words_ok:
  "free_words (Live (map (\<lambda>w. Some (Some Freed)) ds @ map (\<lambda>w. Some (Some (word_block mal w))) ws @ Some None # rest))
     (length ds) = Inr (Live (map (\<lambda>w. Some (Some Freed)) (ds @ ws) @ Some None # rest))"
proof (induction ws arbitrary: ds)
  case Nil
  then show ?case by (subst free_words.simps) (simp add: nth_append)
next
  case (Cons w ws)
  then show ?case
    using Cons [of "ds @ [w]"]
    by (subst free_words.simps) (simp add: nth_append list_update_append word_block_def)
qed

text \<open>\<open>free_msplit\<close> on what \<open>msplit\<close> returned frees every word and the array, and stops at the
  NULL: nothing leaks and nothing is freed twice; freeing the result again is a fault.\<close>

theorem free_msplit_frees_all:
  assumes "roomy mal" "length s < INT_MAX" "length (used_seps separators) \<le> MAX_SEPARATOR"
    "msplit mal (Some s) separators = Inr arr"
  shows "\<exists>rest. free_msplit arr = Inr (Live (map (\<lambda>w. Some (Some Freed)) (msplit_words (used_seps separators) s)
      @ Some None # rest), Freed) \<and> free_msplit Freed = Inl Use_after_free"
proof -
  obtain rest where "arr = result_array mal (msplit_words (used_seps separators) s) rest"
    using msplit_ok [OF assms(1-3)] assms(4) by auto
  then have "free_words arr 0 = Inr (Live (map (\<lambda>w. Some (Some Freed)) (msplit_words (used_seps separators) s) @ Some None # rest))"
    using free_words_ok [of "[]"] by (simp add: result_array_def)
  then show ?thesis by (simp add: free_msplit_def free_words.simps [of Freed])
qed

theorem free_msplit_frees_all_witness:
  "\<exists>arr rest. msplit roomy_malloc (Some (map of_char ''ls -la'')) None = Inr arr \<and>
    free_msplit arr = Inr (Live (Some (Some Freed) # Some (Some Freed) # Some None # rest), Freed)"
proof -
  have l: "length (map of_char ''ls -la'' :: byte list) < INT_MAX" "length (used_seps None) \<le> MAX_SEPARATOR"
    by (simp_all add: INT_MAX_def used_seps_def default_sep_def MAX_SEPARATOR_def)
  obtain arr where a: "msplit roomy_malloc (Some (map of_char ''ls -la'')) None = Inr arr"
    using msplit_ok [OF roomy_malloc l] by blast
  have w: "length (msplit_words (used_seps None) (map of_char ''ls -la'')) = 2" by code_simp
  then have "map (\<lambda>w. Some (Some (Freed :: byte block))) (msplit_words (used_seps None) (map of_char ''ls -la'')) =
      [Some (Some Freed), Some (Some Freed)]"
    by (simp add: map_replicate_const numeral_2_eq_2)
  with free_msplit_frees_all [OF roomy_malloc l a] obtain rest where
    "free_msplit arr = Inr (Live ([Some (Some Freed), Some (Some Freed)] @ Some None # rest), Freed)" by metis
  with a show ?thesis by (intro exI conjI) simp_all
qed

end
