(* ===== verification/Mbase64.thy ===== *)
theory Mbase64
  imports Prelude
begin

section \<open>Base64 (mbase64.c)\<close>

text \<open>
  The encoder and the decoder of mbase64.c with their tables, the two block conversions on
  three octets and four sextets, and the loops that read the input and write a \<open>malloc\<close>ed
  buffer. Sizes are \<open>size_t\<close> (64-bit words), the loop counters and the buffer sizes C \<open>int\<close>s:
  the truncation of a \<open>size_t\<close> to \<open>int\<close> and the sign extension in the call of \<open>malloc\<close> are
  written out. \<open>enc_spec\<close> and \<open>dec_spec\<close> are the pure functions the loops compute, and
  \<open>rfc4648_encode\<close> is the encoding of RFC 4648, from bits and with an alphabet of its own.
\<close>

unbundle bit_operations_syntax

subsection \<open>Tables\<close>

definition chr :: "char \<Rightarrow> byte" where
  "chr c = of_char c"

definition MASK :: u32 where
  "MASK = 0x3F"

definition MAXCHAR :: nat where
  "MAXCHAR = 256"

definition b64_alphabet :: "byte list" where
  "b64_alphabet = map chr
     ''ABCDEFGHIJKLMNOPQRSTUVWXYZabcdefghijklmnopqrstuvwxyz0123456789+/=''"

text \<open>The designated initialisers; every other entry of the array is 0.\<close>

definition b64_reverse_entries :: "(char \<times> u32) list" where
  "b64_reverse_entries =
    [(CHR ''A'', 0), (CHR ''B'', 1), (CHR ''C'', 2), (CHR ''D'', 3),
     (CHR ''E'', 4), (CHR ''F'', 5), (CHR ''G'', 6), (CHR ''H'', 7),
     (CHR ''I'', 8), (CHR ''J'', 9), (CHR ''K'', 10), (CHR ''L'', 11),
     (CHR ''M'', 12), (CHR ''N'', 13), (CHR ''O'', 14), (CHR ''P'', 15),
     (CHR ''Q'', 16), (CHR ''R'', 17), (CHR ''S'', 18), (CHR ''T'', 19),
     (CHR ''U'', 20), (CHR ''V'', 21), (CHR ''W'', 22), (CHR ''X'', 23),
     (CHR ''Y'', 24), (CHR ''Z'', 25), (CHR ''a'', 26), (CHR ''b'', 27),
     (CHR ''c'', 28), (CHR ''d'', 29), (CHR ''e'', 30), (CHR ''f'', 31),
     (CHR ''g'', 32), (CHR ''h'', 33), (CHR ''i'', 34), (CHR ''j'', 35),
     (CHR ''k'', 36), (CHR ''l'', 37), (CHR ''m'', 38), (CHR ''n'', 39),
     (CHR ''o'', 40), (CHR ''p'', 41), (CHR ''q'', 42), (CHR ''r'', 43),
     (CHR ''s'', 44), (CHR ''t'', 45), (CHR ''u'', 46), (CHR ''v'', 47),
     (CHR ''w'', 48), (CHR ''x'', 49), (CHR ''y'', 50), (CHR ''z'', 51),
     (CHR ''0'', 52), (CHR ''1'', 53), (CHR ''2'', 54), (CHR ''3'', 55),
     (CHR ''4'', 56), (CHR ''5'', 57), (CHR ''6'', 58), (CHR ''7'', 59),
     (CHR ''8'', 60), (CHR ''9'', 61), (CHR ''+'', 62), (CHR ''/'', 63)]"

definition b64_alphabet_reverse :: "u32 list" where
  "b64_alphabet_reverse =
     fold (\<lambda>(c, v) t. t[unat (chr c) := v]) b64_reverse_entries (replicate MAXCHAR 0)"

subsection \<open>Blocks\<close>

record orig_octets =
  o_one :: byte
  o_two :: byte
  o_three :: byte

record b64_block =
  b_one :: byte
  b_two :: byte
  b_three :: byte
  b_four :: byte

text \<open>The operands of \<open>|\<close>, \<open>&\<close> and the shifts are promoted to \<open>int\<close> and the result is cut
  back to \<open>unsigned char\<close>.\<close>

definition promote :: "byte \<Rightarrow> u32" where
  "promote b = ucast b"

definition convert_from_b64 :: "b64_block \<Rightarrow> orig_octets" where
  "convert_from_b64 b64 =
     (let one = b_one b64;
          one = ucast (push_bit 2 (promote one));
          one = one OR ucast (drop_bit 4 (promote (b_two b64)));
          two = ucast (push_bit 4 (promote (b_two b64)));
          two = two OR ucast (drop_bit 2 (promote (b_three b64)));
          three = ucast (push_bit 6 (promote (b_three b64)));
          three = three OR b_four b64
      in \<lparr>o_one = one, o_two = two, o_three = three\<rparr>)"

definition convert_to_b64 :: "orig_octets \<Rightarrow> b64_block" where
  "convert_to_b64 orig =
     \<lparr>b_one = ucast (drop_bit 2 (promote (o_one orig)) AND MASK),
      b_two = ucast ((push_bit 4 (promote (o_one orig)) OR drop_bit 4 (promote (o_two orig))) AND MASK),
      b_three = ucast ((push_bit 2 (promote (o_two orig)) OR drop_bit 6 (promote (o_three orig))) AND MASK),
      b_four = ucast (promote (o_three orig) AND MASK)\<rparr>"

subsection \<open>Encoder\<close>

text \<open>The branches on \<open>remaining\<close>: the octets read and the padding.\<close>

definition read_octets :: "byte list \<Rightarrow> u64 \<Rightarrow> nat \<Rightarrow> (orig_octets \<times> nat) res" where
  "read_octets data input_size i =
     (let remaining = sint (to_int (input_size - of_nat i)) in
      if 3 \<le> remaining then
        rbind (arr_read data i) (\<lambda>a. rbind (arr_read data (i + 1)) (\<lambda>b. rbind (arr_read data (i + 2)) (\<lambda>c.
          Inr (\<lparr>o_one = a, o_two = b, o_three = c\<rparr>, 0))))
      else if remaining = 2 then
        rbind (arr_read data i) (\<lambda>a. rbind (arr_read data (i + 1)) (\<lambda>b.
          Inr (\<lparr>o_one = a, o_two = b, o_three = 0\<rparr>, 1)))
      else
        rbind (arr_read data i) (\<lambda>a. Inr (\<lparr>o_one = a, o_two = 0, o_three = 0\<rparr>, 2)))"

definition write_quad :: "byte block \<Rightarrow> nat \<Rightarrow> b64_block \<Rightarrow> nat \<Rightarrow> byte block res" where
  "write_quad out j b64 padding =
     rbind (arr_read b64_alphabet (unat (b_one b64))) (\<lambda>c. rbind (blk_write out j c) (\<lambda>out.
     rbind (arr_read b64_alphabet (unat (b_two b64))) (\<lambda>c. rbind (blk_write out (j + 1) c) (\<lambda>out.
     rbind (arr_read b64_alphabet (unat (b_three b64))) (\<lambda>c. rbind (blk_write out (j + 2) c) (\<lambda>out.
     rbind (arr_read b64_alphabet (unat (b_four b64))) (\<lambda>c. rbind (blk_write out (j + 3) c) (\<lambda>out.
     if padding = 1 then blk_write out (j + 3) (chr (CHR ''=''))
     else if padding = 2 then
       rbind (blk_write out (j + 2) (chr (CHR ''=''))) (\<lambda>out. blk_write out (j + 3) (chr (CHR ''='')))
     else Inr out))))))))"

function encode_loop :: "byte list \<Rightarrow> u64 \<Rightarrow> byte block \<Rightarrow> nat \<Rightarrow> nat \<Rightarrow> byte block res" where
  "encode_loop data input_size out i j =
     (if i < unat input_size then
        rbind (read_octets data input_size i) (\<lambda>(orig, padding).
        rbind (write_quad out j (convert_to_b64 orig) padding) (\<lambda>out.
        rbind (int_add i 3) (\<lambda>i'. rbind (int_add j 4) (\<lambda>j'.
        encode_loop data input_size out i' j'))))
      else blk_write out j 0)"
  by pat_completeness auto
termination
  by (relation "measure (\<lambda>(data, input_size, out, i, j). unat input_size - i)")
    (auto simp: int_add_Inr_iff)

declare encode_loop.simps [simp del]

definition mbase64_encode :: "(u64 \<Rightarrow> bool) \<Rightarrow> byte list \<Rightarrow> u64 \<Rightarrow> byte block res" where
  "mbase64_encode mok data input_size =
     (let output_bytes = to_int (4 * ((input_size + 2) div 3));
          size = to_size (output_bytes + 1)
      in rbind (require Assert_failed (mok size)) (\<lambda>_.
         encode_loop data input_size (blk_alloc (unat size)) 0 0))"

subsection \<open>Decoder\<close>

text \<open>The four characters at \<open>i\<close>, through the reverse table; the string ends with its NUL.\<close>

definition read_quad :: "byte list \<Rightarrow> nat \<Rightarrow> b64_block res" where
  "read_quad b64string i =
     (let look = (\<lambda>j. rbind (arr_read (b64string @ [0]) (i + j)) (\<lambda>c.
          rbind (arr_read b64_alphabet_reverse (unat c)) (\<lambda>v. Inr (ucast v :: byte))))
      in rbind (look 0) (\<lambda>a. rbind (look 1) (\<lambda>b. rbind (look 2) (\<lambda>c. rbind (look 3) (\<lambda>d.
         Inr \<lparr>b_one = a, b_two = b, b_three = c, b_four = d\<rparr>)))))"

function decode_loop :: "byte list \<Rightarrow> u64 \<Rightarrow> byte block \<Rightarrow> nat \<Rightarrow> nat \<Rightarrow> (byte block \<times> nat) res" where
  "decode_loop b64string input_size out i k =
     (if i < unat input_size then
        rbind (read_quad b64string i) (\<lambda>b64.
        let orig = convert_from_b64 b64 in
        rbind (blk_write out k (o_one orig)) (\<lambda>out.
        rbind (blk_write out (k + 1) (o_two orig)) (\<lambda>out.
        rbind (blk_write out (k + 2) (o_three orig)) (\<lambda>out.
        rbind (int_add i 4) (\<lambda>i'. rbind (int_add k 3) (\<lambda>k'.
        decode_loop b64string input_size out i' k'))))))
      else Inr (out, k))"
  by pat_completeness auto
termination
  by (relation "measure (\<lambda>(s, input_size, out, i, k). unat input_size - i)")
    (auto simp: int_add_Inr_iff)

declare decode_loop.simps [simp del]

text \<open>The count of \<open>=\<close> in the last two characters, each counted on its own.\<close>

definition count_padding :: "byte list \<Rightarrow> u64 \<Rightarrow> nat res" where
  "count_padding b64string input_size =
     (if input_size > 3 then
        rbind (arr_read (b64string @ [0]) (unat (input_size - 1))) (\<lambda>c1.
        rbind (arr_read (b64string @ [0]) (unat (input_size - 2))) (\<lambda>c2.
        Inr (of_bool (c1 = chr (CHR ''='')) + of_bool (c2 = chr (CHR ''='')))))
      else Inr 0)"

text \<open>\<open>None\<close> is the NULL return; otherwise the buffer and \<open>*output_size\<close>.\<close>

definition mbase64_decode :: "(u64 \<Rightarrow> bool) \<Rightarrow> byte list \<Rightarrow> (byte block \<times> u64) option res" where
  "mbase64_decode mok b64string =
     (let input_size = of_nat (length b64string) :: u64 in
      if input_size mod 4 \<noteq> 0 then Inr None
      else
        let output_bytes = to_int (3 * input_size div 4); size = to_size output_bytes
        in rbind (require Assert_failed (mok size)) (\<lambda>_.
           rbind (count_padding b64string input_size) (\<lambda>padding.
           rbind (decode_loop b64string input_size (blk_alloc (unat size)) 0 0) (\<lambda>(out, k).
           Inr (Some (out, of_nat k - of_nat padding))))))"

subsection \<open>Bits of the block conversions\<close>

lemma bit_63: "bit (63 :: int) n \<longleftrightarrow> n < 6"
proof -
  have "(63 :: int) = mask 6" by (simp add: mask_eq_exp_minus_1)
  then show ?thesis by (simp only: bit_mask_iff) auto
qed

lemma byte_high: "8 \<le> n \<Longrightarrow> \<not> bit (b :: byte) n"
  using bit_imp_le_length [of b n] by auto

lemma bit_byte_less: "bit (b :: byte) n \<Longrightarrow> n < 8"
  using byte_high by (meson not_le)

lemmas b64_ops = convert_to_b64_def convert_from_b64_def promote_def MASK_def bit_63 Let_def
  bit_and_iff bit_or_iff bit_push_bit_iff bit_drop_bit_eq bit_ucast_iff

lemma bit_convert_to_b64:
  "bit (b_one (convert_to_b64 orig)) n \<longleftrightarrow> n < 6 \<and> bit (o_one orig) (2 + n)"
  "bit (b_two (convert_to_b64 orig)) n \<longleftrightarrow>
     n < 6 \<and> (if n < 4 then bit (o_two orig) (4 + n) else bit (o_one orig) (n - 4))"
  "bit (b_three (convert_to_b64 orig)) n \<longleftrightarrow>
     n < 6 \<and> (if n < 2 then bit (o_three orig) (6 + n) else bit (o_two orig) (n - 2))"
  "bit (b_four (convert_to_b64 orig)) n \<longleftrightarrow> n < 6 \<and> bit (o_three orig) n"
  by (auto simp: b64_ops dest: bit_byte_less)

lemma bit_convert_from_b64:
  "bit (o_one (convert_from_b64 b64)) n \<longleftrightarrow>
     n < 8 \<and> (2 \<le> n \<and> bit (b_one b64) (n - 2) \<or> bit (b_two b64) (4 + n))"
  "bit (o_two (convert_from_b64 b64)) n \<longleftrightarrow>
     n < 8 \<and> (4 \<le> n \<and> bit (b_two b64) (n - 4) \<or> bit (b_three b64) (2 + n))"
  "bit (o_three (convert_from_b64 b64)) n \<longleftrightarrow>
     n < 8 \<and> (6 \<le> n \<and> bit (b_three b64) (n - 6) \<or> bit (b_four b64) n)"
  by (auto simp: b64_ops dest: bit_byte_less)

lemma take_6_bits:
  assumes "\<And>n. bit (w :: byte) n \<Longrightarrow> n < 6"
  shows "unat w < 64"
proof -
  have "w = take_bit 6 w"
    by (rule bit_word_eqI) (auto simp: bit_take_bit_iff dest: assms)
  then have "unat w = take_bit 6 (unat w)" by (metis unsigned_take_bit_eq)
  also have "\<dots> < 2 ^ 6" by (rule take_bit_nat_less_exp)
  finally show ?thesis by simp
qed

lemma convert_from_to: "convert_from_b64 (convert_to_b64 orig) = orig"
proof -
  have 1: "o_one (convert_from_b64 (convert_to_b64 orig)) = o_one orig"
    by (rule bit_word_eqI) (auto simp: bit_convert_from_b64 bit_convert_to_b64 simp del: add_2_eq_Suc)
  have 2: "o_two (convert_from_b64 (convert_to_b64 orig)) = o_two orig"
    by (rule bit_word_eqI) (auto simp: bit_convert_from_b64 bit_convert_to_b64)
  have 3: "o_three (convert_from_b64 (convert_to_b64 orig)) = o_three orig"
    by (rule bit_word_eqI) (auto simp: bit_convert_from_b64 bit_convert_to_b64)
  from 1 2 3 show ?thesis by simp
qed

lemma convert_to_b64_bounds [simp]:
  "unat (b_one (convert_to_b64 orig)) < 64" "unat (b_two (convert_to_b64 orig)) < 64"
  "unat (b_three (convert_to_b64 orig)) < 64" "unat (b_four (convert_to_b64 orig)) < 64"
  by (rule take_6_bits, simp add: bit_convert_to_b64)+

subsection \<open>The tables\<close>

lemma length_b64_alphabet [simp]: "length b64_alphabet = 65"
  by (simp add: b64_alphabet_def)

lemma length_b64_alphabet_reverse [simp]: "length b64_alphabet_reverse = 256"
  by code_simp

lemma reverse_alphabet_all:
  "list_all (\<lambda>i. b64_alphabet_reverse ! unat (b64_alphabet ! i) = of_nat i) [0..<64]"
  by code_simp

lemma reverse_alphabet: "i < 64 \<Longrightarrow> b64_alphabet_reverse ! unat (b64_alphabet ! i) = of_nat i"
  using reverse_alphabet_all by (auto simp: list_all_iff)

lemma reverse_pad: "b64_alphabet_reverse ! unat (chr CHR ''='') = 0"
  by code_simp

text \<open>Entries without a designated initialiser are 0.\<close>

lemma fold_update_other:
  "i \<notin> (\<lambda>(k, v). unat (chr k)) ` set es \<Longrightarrow> fold (\<lambda>(k, v) t. t[unat (chr k) := v]) es t ! i = t ! i"
  by (induction es arbitrary: t) auto

lemma entries_alphabet: "map (\<lambda>(k, v). chr k) b64_reverse_entries = take 64 b64_alphabet"
  by code_simp

lemma reverse_other:
  assumes "c \<notin> set (take 64 b64_alphabet)"
  shows "b64_alphabet_reverse ! unat c = 0"
proof -
  have "unat c \<notin> (\<lambda>(k, v). unat (chr k)) ` set b64_reverse_entries"
    using assms unfolding entries_alphabet [symmetric] by (force simp: unsigned_word_eqI)
  then show ?thesis
    using unsigned_less [where ?'a = nat, of c]
    by (simp add: b64_alphabet_reverse_def fold_update_other MAXCHAR_def)
qed

text \<open>No character of the alphabet is NUL, none of the 64 is \<open>=\<close>.\<close>

lemma alphabet_chars_all:
  "list_all (\<lambda>c. c \<noteq> 0 \<and> c \<noteq> chr CHR ''='') (take 64 b64_alphabet)"
  by code_simp

lemma alphabet_chars:
  "i < 64 \<Longrightarrow> b64_alphabet ! i \<noteq> 0" "i < 64 \<Longrightarrow> b64_alphabet ! i \<noteq> chr CHR ''=''"
  using alphabet_chars_all by (auto simp: list_all_length)

lemma pad_nonzero [simp]: "chr CHR ''='' \<noteq> 0"
  by (simp add: chr_def)

subsection \<open>What the encoder computes\<close>

definition quad :: "byte \<Rightarrow> byte \<Rightarrow> byte \<Rightarrow> byte list" where
  "quad a b c =
     (let b64 = convert_to_b64 \<lparr>o_one = a, o_two = b, o_three = c\<rparr>
      in map (\<lambda>x. b64_alphabet ! unat x) [b_one b64, b_two b64, b_three b64, b_four b64])"

fun enc_spec :: "byte list \<Rightarrow> byte list" where
  "enc_spec [] = []"
| "enc_spec [a] = take 2 (quad a 0 0) @ [chr CHR ''='', chr CHR ''='']"
| "enc_spec [a, b] = take 3 (quad a b 0) @ [chr CHR ''='']"
| "enc_spec (a # b # c # xs) = quad a b c @ enc_spec xs"

lemma length_quad [simp]: "length (quad a b c) = 4"
  by (simp add: quad_def Let_def)

lemma quads_Suc: "((n + 3) + 2) div 3 = Suc ((n + 2) div (3 :: nat))"
  by arith

lemma length_enc_spec: "length (enc_spec xs) = 4 * ((length xs + 2) div 3)"
proof (induction xs rule: enc_spec.induct)
  case (4 a b c xs)
  have "length (a # b # c # xs) = length xs + 3" by simp
  then show ?case using 4
    by (simp only: enc_spec.simps length_append length_quad quads_Suc mult_Suc_right)
qed auto

lemma write_quad_ok:
  fixes orig
  defines "b64 \<equiv> convert_to_b64 orig"
  shows "write_quad (Live (map Some pre @ replicate (m + 4) None)) (length pre) b64 padding =
     Inr (Live (map Some (pre @ (let q = map (\<lambda>x. b64_alphabet ! unat x) [b_one b64, b_two b64, b_three b64, b_four b64]
       in if padding = 1 then take 3 q @ [chr CHR ''='']
          else if padding = 2 then take 2 q @ [chr CHR ''='', chr CHR ''=''] else q)) @ replicate m None))"
proof -
  have a: "unat (b_one b64) < 65" "unat (b_two b64) < 65" "unat (b_three b64) < 65" "unat (b_four b64) < 65"
    using convert_to_b64_bounds [of orig] by (auto simp: b64_def intro: less_trans)
  have r: "replicate (m + 4) None = None # None # None # None # replicate m None"
    by (simp add: eval_nat_numeral)
  show ?thesis
    unfolding write_quad_def r
    using a by (simp add: arr_read_def list_update_append nth_append numeral_2_eq_2 numeral_3_eq_3 Let_def)
qed

lemma remaining_eq:
  assumes "unat n = length data" "length data < 2 ^ 31" "i < length data"
  shows "sint (to_int (n - of_nat i)) = int (length data - i)"
proof -
  have i: "unat (of_nat i :: u64) = i"
    using assms by (intro unat_of_nat_u64) simp
  have "unat (n - of_nat i) = length data - i"
    using assms i by (subst unat_sub) (auto simp: word_le_nat_alt)
  then show ?thesis
    using assms small_to_int [of "n - of_nat i"] by simp
qed

lemma read_octets_eq:
  assumes "unat n = length data" "length data < 2 ^ 31" "data = ys @ xs" "i = length ys"
  shows "xs = [a] \<Longrightarrow> read_octets data n i = Inr (\<lparr>o_one = a, o_two = 0, o_three = 0\<rparr>, 2)"
    "xs = [a, b] \<Longrightarrow> read_octets data n i = Inr (\<lparr>o_one = a, o_two = b, o_three = 0\<rparr>, 1)"
    "xs = a # b # c # zs \<Longrightarrow> read_octets data n i = Inr (\<lparr>o_one = a, o_two = b, o_three = c\<rparr>, 0)"
  using assms remaining_eq [of n data i]
  by (auto simp: read_octets_def arr_read_def nth_append Let_def)

lemma encode_loop_end:
  "unat n \<le> i \<Longrightarrow> encode_loop data n (Live (map Some pre @ replicate 1 None)) i (length pre) =
     Inr (Live (map Some (pre @ [0])))"
  by (subst encode_loop.simps) (simp add: list_update_append)

lemma encode_loop_step:
  assumes "unat n = length data" "length data + 3 \<le> INT_MAX" "i < length data"
    "read_octets data n i = Inr (\<lparr>o_one = a, o_two = b, o_three = c\<rparr>, p)"
    "q = (if p = 1 then take 3 (quad a b c) @ [chr CHR ''='']
          else if p = 2 then take 2 (quad a b c) @ [chr CHR ''='', chr CHR ''=''] else quad a b c)"
    "length pre + 4 \<le> INT_MAX"
  shows "encode_loop data n (Live (map Some pre @ replicate (m + 4) None)) i (length pre) =
    encode_loop data n (Live (map Some (pre @ q) @ replicate m None)) (i + 3) (length (pre @ q))"
proof -
  have w: "write_quad (Live (map Some pre @ replicate (m + 4) None)) (length pre)
      (convert_to_b64 \<lparr>o_one = a, o_two = b, o_three = c\<rparr>) p =
      Inr (Live (map Some (pre @ q) @ replicate m None))"
    unfolding assms(5) write_quad_ok by (simp add: quad_def Let_def)
  have q: "length q = 4" using assms(5) by simp
  have s: "int_add i 3 = Inr (i + 3)" "int_add (length pre) 4 = Inr (length (pre @ q))"
    using assms q by simp_all
  have c: "i < unat n" using assms by simp
  show ?thesis
    by (subst encode_loop.simps) (simp only: c if_True assms(4) w s rbind.simps prod.case)
qed

lemma encode_loop_ok:
  assumes "unat n = length data" "length data + 3 \<le> INT_MAX"
    "length pre + length (enc_spec xs) \<le> INT_MAX"
    "data = ys @ xs" "i = length ys \<or> xs = [] \<and> length data \<le> i"
  shows "encode_loop data n (Live (map Some pre @ replicate (length (enc_spec xs) + 1) None)) i (length pre) =
    Inr (Live (map Some (pre @ enc_spec xs @ [0])))"
  using assms
proof (induction xs arbitrary: pre ys i rule: enc_spec.induct)
  case 1
  then show ?case
    using encode_loop_end [of n i data pre] by auto
next
  case (2 a)
  have lt: "length data < 2 ^ 31" using 2 by (simp add: INT_MAX_def)
  have i: "i = length ys" "i < length data" using 2 by auto
  have l: "length (enc_spec [a]) + 1 = 1 + 4" by simp
  show ?case
    unfolding l
    using 2 i encode_loop_end [of n "i + 3" data "pre @ enc_spec [a]"]
    by (subst encode_loop_step [OF 2(1,2) i(2) read_octets_eq(1) [OF 2(1) lt 2(4) i(1) refl] refl]) auto
next
  case (3 a b)
  have lt: "length data < 2 ^ 31" using 3 by (simp add: INT_MAX_def)
  have i: "i = length ys" "i < length data" using 3 by auto
  have l: "length (enc_spec [a, b]) + 1 = 1 + 4" by simp
  show ?case
    unfolding l
    using 3 i encode_loop_end [of n "i + 3" data "pre @ enc_spec [a, b]"]
    by (subst encode_loop_step [OF 3(1,2) i(2) read_octets_eq(2) [OF 3(1) lt 3(4) i(1) refl] refl]) auto
next
  case (4 a b c xs)
  have lt: "length data < 2 ^ 31" using 4 by (simp add: INT_MAX_def)
  have i: "i = length ys" "i < length data" using 4 by auto
  have l: "length (enc_spec (a # b # c # xs)) + 1 = (length (enc_spec xs) + 1) + 4" by simp
  have p: "length pre + 4 \<le> INT_MAX" using 4 by simp
  have "encode_loop data n (Live (map Some (pre @ quad a b c) @ replicate (length (enc_spec xs) + 1) None)) (i + 3)
      (length (pre @ quad a b c)) = Inr (Live (map Some ((pre @ quad a b c) @ enc_spec xs @ [0])))"
    by (rule 4(1) [where ys = "ys @ [a, b, c]"]) (use 4 i in auto)
  then show ?case
    unfolding l encode_loop_step [OF 4(2,3) i(2) read_octets_eq(3) [OF 4(2) lt 4(5) i(1) refl] refl p]
    by simp
qed

subsection \<open>Sizes that fit an int\<close>

lemma div_of_nat_u64:
  "m < 2 ^ 64 \<Longrightarrow> 0 < k \<Longrightarrow> k < 2 ^ 64 \<Longrightarrow> of_nat m div (of_nat k :: u64) = of_nat (m div k)"
  by (rule word_unat_eq_iff [THEN iffD2])
    (simp add: unat_div_distrib unat_of_nat_u64 order.strict_trans1 [OF div_le_dividend])

lemma encoded_size:
  assumes "unat n = length data" "length data < 2 ^ 32"
  shows "to_int (4 * ((n + 2) div 3)) = of_nat (4 * ((length data + 2) div 3))"
proof -
  have n: "n = of_nat (length data)" using assms(1) by (rule word_eq_of_nat)
  have "(n + 2) div 3 = of_nat ((length data + 2) div 3)"
    using div_of_nat_u64 [of "length data + 2" 3] assms(2) unfolding n by (simp add: add.commute)
  then have "4 * ((n + 2) div 3) = of_nat (4 * ((length data + 2) div 3))"
    by simp
  then show ?thesis by (simp only: to_int_of_nat)
qed

lemma encoded_bound:
  assumes "4 * ((l + 2) div 3) < INT_MAX"
  shows "l + 3 \<le> INT_MAX" "4 * ((l + 2) div 3) + 1 < 2 ^ 31" "l < 2 ^ 32"
  using assms by (simp_all add: INT_MAX_def)

lemma mbase64_encode_eq:
  assumes n: "unat n = length data" and b: "4 * ((length data + 2) div 3) < INT_MAX"
    and m: "mok (of_nat (4 * ((length data + 2) div 3) + 1))"
  shows "mbase64_encode mok data n = Inr (Live (map Some (enc_spec data @ [0])))"
proof -
  let ?m = "4 * ((length data + 2) div 3) + 1"
  have o: "to_int (4 * ((n + 2) div 3)) + 1 = of_nat ?m"
    using encoded_size [OF n encoded_bound(3) [OF b]] by simp
  have s: "to_size (of_nat ?m) = of_nat ?m"
    by (rule to_size_of_nat) (rule encoded_bound(2) [OF b])
  have u: "unat (of_nat ?m :: u64) = ?m"
    by (rule unat_of_nat_u64) (use encoded_bound(2) [OF b] in simp)
  have "encode_loop data n (Live (map Some [] @ replicate (length (enc_spec data) + 1) None)) 0 (length ([] :: byte list)) =
      Inr (Live (map Some ([] @ enc_spec data @ [0])))"
    using n encoded_bound(1) [OF b] b
    by (intro encode_loop_ok [of n data "[]" data "[]" 0]) (simp_all add: length_enc_spec)
  then show ?thesis
    unfolding mbase64_encode_def Let_def o s
    using m by (simp only: u blk_alloc_def length_enc_spec require_simps rbind.simps)
      (simp only: list.map append_Nil list.size)
qed

subsection \<open>RFC 4648\<close>

text \<open>The octets as one bit string, cut into sextets, the last one padded with zero bits.\<close>

definition byte_bits :: "byte \<Rightarrow> bool list" where
  "byte_bits b = map (bit b) [7, 6, 5, 4, 3, 2, 1, 0]"

function sextets :: "bool list \<Rightarrow> bool list list" where
  "sextets bs = (if bs = [] then [] else take 6 (bs @ replicate 5 False) # sextets (drop 6 bs))"
  by pat_completeness auto
termination by (relation "measure length") auto

declare sextets.simps [simp del]

definition sextet_value :: "bool list \<Rightarrow> nat" where
  "sextet_value bs = foldl (\<lambda>n b. 2 * n + of_bool b) 0 bs"

text \<open>The alphabet of RFC 4648, table 1, by its ranges and not from the table of the code: the
  capitals, the small letters, the digits, then \<open>+\<close> and \<open>/\<close>.\<close>

definition rfc4648_char :: "nat \<Rightarrow> byte" where
  "rfc4648_char v =
     (if v < 26 then of_nat (65 + v)
      else if v < 52 then of_nat (97 + (v - 26))
      else if v < 62 then of_nat (48 + (v - 52))
      else if v = 62 then 43 else 47)"

definition rfc4648_encode :: "byte list \<Rightarrow> byte list" where
  "rfc4648_encode data =
     (let cs = map (\<lambda>bs. rfc4648_char (sextet_value bs)) (sextets (concat (map byte_bits data)))
      in cs @ replicate ((4 - length cs mod 4) mod 4) (chr CHR ''=''))"

text \<open>The table of the code is that alphabet.\<close>

lemma rfc4648_char: "v < 64 \<Longrightarrow> rfc4648_char v = b64_alphabet ! v"
proof -
  have "list_all (\<lambda>v. rfc4648_char v = b64_alphabet ! v) [0..<64]" by code_simp
  then show "v < 64 \<Longrightarrow> rfc4648_char v = b64_alphabet ! v" by (simp add: list_all_iff)
qed

lemma sextets_Nil [simp]: "sextets [] = []"
  by (simp add: sextets.simps)

lemma sextets_six [simp]: "sextets (a # b # c # d # e # f # bs) = [a, b, c, d, e, f] # sextets bs"
  by (subst sextets.simps) simp

lemma sextets_two [simp]: "sextets [a, b] = [[a, b, False, False, False, False]]"
  by (subst sextets.simps) (simp add: eval_nat_numeral)

lemma sextets_four [simp]: "sextets [a, b, c, d] = [[a, b, c, d, False, False]]"
  by (subst sextets.simps) (simp add: eval_nat_numeral)

lemma unat_six_bits:
  assumes "\<And>n. bit (w :: byte) n \<Longrightarrow> n < 6"
  shows "unat w = sextet_value (map (bit w) [5, 4, 3, 2, 1, 0])"
proof -
  have bits: "bit (unat w) = bit w"
    by (simp add: fun_eq_iff bit_unsigned_iff)
  have "take_bit 6 w = w"
    by (rule bit_word_eqI) (auto simp: bit_take_bit_iff dest: assms)
  then have "unat w = take_bit 6 (unat w)" by (metis unsigned_take_bit_eq)
  also have "\<dots> = horner_sum of_bool 2 (map (bit (unat w)) [0..<6])"
    by (rule horner_sum_bit_eq_take_bit [symmetric])
  also have "\<dots> = horner_sum of_bool 2 (map (bit w) [0..<6])"
    by (simp only: bits)
  also have "[0..<6] = [0, 1, 2, 3, 4, 5 :: nat]" by code_simp
  finally show ?thesis by (simp add: sextet_value_def)
qed

lemma sextet_value_less: "sextet_value [a, b, c, d, e, f] < 64"
  by (simp add: sextet_value_def)

lemma quad_bits:
  "map (\<lambda>bs. rfc4648_char (sextet_value bs)) (sextets (byte_bits a @ byte_bits b @ byte_bits c @ bs)) =
     quad a b c @ map (\<lambda>bs. rfc4648_char (sextet_value bs)) (sextets bs)"
proof -
  let ?b = "convert_to_b64 \<lparr>o_one = a, o_two = b, o_three = c\<rparr>"
  have "unat (b_one ?b) = sextet_value (map (bit (b_one ?b)) [5, 4, 3, 2, 1, 0])"
    "unat (b_two ?b) = sextet_value (map (bit (b_two ?b)) [5, 4, 3, 2, 1, 0])"
    "unat (b_three ?b) = sextet_value (map (bit (b_three ?b)) [5, 4, 3, 2, 1, 0])"
    "unat (b_four ?b) = sextet_value (map (bit (b_four ?b)) [5, 4, 3, 2, 1, 0])"
    by (rule unat_six_bits, simp add: bit_convert_to_b64)+
  moreover from this have "sextet_value (map (bit (b_one ?b)) [5, 4, 3, 2, 1, 0]) < 64"
    "sextet_value (map (bit (b_two ?b)) [5, 4, 3, 2, 1, 0]) < 64"
    "sextet_value (map (bit (b_three ?b)) [5, 4, 3, 2, 1, 0]) < 64"
    "sextet_value (map (bit (b_four ?b)) [5, 4, 3, 2, 1, 0]) < 64"
    by (simp_all only: sextet_value_less list.map)
  ultimately show ?thesis
    by (simp add: rfc4648_char quad_def byte_bits_def bit_convert_to_b64 Let_def)
qed

lemma enc_spec_rfc4648: "enc_spec data = rfc4648_encode data"
proof (induction data rule: enc_spec.induct)
  case 1
  show ?case by (simp add: rfc4648_encode_def)
next
  case (2 a)
  have "map (\<lambda>bs. rfc4648_char (sextet_value bs)) (sextets (byte_bits a)) = take 2 (quad a 0 0)"
    using arg_cong [OF quad_bits [of a 0 0 "[]"], of "take 2"] by (simp add: byte_bits_def)
  moreover have "replicate 2 x = [x, x]" for x :: byte
    by (simp add: numeral_2_eq_2)
  ultimately show ?case by (simp add: rfc4648_encode_def)
next
  case (3 a b)
  have "map (\<lambda>bs. rfc4648_char (sextet_value bs)) (sextets (byte_bits a @ byte_bits b)) = take 3 (quad a b 0)"
    using arg_cong [OF quad_bits [of a b 0 "[]"], of "take 3"] by (simp add: byte_bits_def)
  then show ?case by (simp add: rfc4648_encode_def)
next
  case (4 a b c xs)
  then show ?case
    by (simp add: rfc4648_encode_def quad_bits Let_def)
qed

subsection \<open>What the decoder computes\<close>

definition rev_value :: "byte \<Rightarrow> byte" where
  "rev_value c = ucast (b64_alphabet_reverse ! unat c)"

fun dec_spec :: "byte list \<Rightarrow> byte list" where
  "dec_spec (a # b # c # d # xs) =
     (let orig = convert_from_b64 \<lparr>b_one = rev_value a, b_two = rev_value b, b_three = rev_value c, b_four = rev_value d\<rparr>
      in [o_one orig, o_two orig, o_three orig] @ dec_spec xs)"
| "dec_spec _ = []"

definition pad_count :: "byte list \<Rightarrow> nat" where
  "pad_count s =
     (if 3 < length s
      then of_bool (s ! (length s - 1) = chr (CHR ''='')) + of_bool (s ! (length s - 2) = chr (CHR ''=''))
      else 0)"

lemma fours_Suc: "(4 + n) div 4 = Suc (n div (4 :: nat))"
  by arith

lemma length_dec_spec: "length (dec_spec xs) = 3 * (length xs div 4)"
  by (induction xs rule: dec_spec.induct) (simp_all add: Let_def fours_Suc)

lemma unat_byte_less [simp]: "unat (c :: byte) < 256"
  using unsigned_less [where ?'a = nat, of c] by simp

lemma read_quad_eq:
  "read_quad (ys @ a # b # c # d # zs) (length ys) =
     Inr \<lparr>b_one = rev_value a, b_two = rev_value b, b_three = rev_value c, b_four = rev_value d\<rparr>"
  by (simp add: read_quad_def arr_read_def rev_value_def nth_append numeral_2_eq_2 numeral_3_eq_3 Let_def)

lemma decode_loop_ok:
  assumes "unat n = length s" "length s \<le> INT_MAX" "length pre + length (dec_spec xs) \<le> INT_MAX"
    "s = ys @ xs" "length xs mod 4 = 0"
  shows "decode_loop s n (Live (map Some pre @ replicate (length (dec_spec xs)) None)) (length ys) (length pre) =
    Inr (Live (map Some (pre @ dec_spec xs)), length pre + length (dec_spec xs))"
  using assms
proof (induction xs arbitrary: pre ys rule: dec_spec.induct)
  case (1 a b c d xs)
  define orig where "orig = convert_from_b64 \<lparr>b_one = rev_value a, b_two = rev_value b,
    b_three = rev_value c, b_four = rev_value d\<rparr>"
  let ?m = "length (dec_spec xs)"
  have d: "dec_spec (a # b # c # d # xs) = [o_one orig, o_two orig, o_three orig] @ dec_spec xs"
    by (simp add: orig_def Let_def)
  have n: "length ys < unat n" and i: "int_add (length ys) 4 = Inr (length (ys @ [a, b, c, d]))"
    and k: "int_add (length pre) 3 = Inr (length (pre @ [o_one orig, o_two orig, o_three orig]))"
    using 1 d by simp_all
  have r: "read_quad s (length ys) = Inr \<lparr>b_one = rev_value a, b_two = rev_value b,
    b_three = rev_value c, b_four = rev_value d\<rparr>"
    using 1(5) read_quad_eq by simp
  have w: "rbind (blk_write (Live (map Some pre @ replicate (length (dec_spec (a # b # c # d # xs))) None)) (length pre) (o_one orig))
      (\<lambda>out. rbind (blk_write out (length pre + 1) (o_two orig)) (\<lambda>out. rbind (blk_write out (length pre + 2) (o_three orig)) f))
    = f (Live (map Some (pre @ [o_one orig, o_two orig, o_three orig]) @ replicate ?m None))" for f :: "byte block \<Rightarrow> 'a res"
    unfolding d by (simp add: list_update_append numeral_2_eq_2)
  have "decode_loop s n (Live (map Some (pre @ [o_one orig, o_two orig, o_three orig]) @ replicate ?m None))
      (length (ys @ [a, b, c, d])) (length (pre @ [o_one orig, o_two orig, o_three orig])) =
    Inr (Live (map Some ((pre @ [o_one orig, o_two orig, o_three orig]) @ dec_spec xs)),
      length (pre @ [o_one orig, o_two orig, o_three orig]) + ?m)"
    by (rule 1(1) [OF refl]) (use 1 d in auto)
  then show ?case
    unfolding d [symmetric] by (subst decode_loop.simps)
      (simp only: n if_True r rbind.simps Let_def orig_def [symmetric] w i k, simp add: d del: dec_spec.simps)
qed (auto simp: decode_loop.simps [of s n])

lemma count_padding_eq:
  assumes "length s < 2 ^ 64"
  shows "count_padding s (of_nat (length s)) = Inr (pad_count s)"
proof -
  have u: "unat (of_nat (length s) :: u64) = length s"
    using assms by (rule unat_of_nat_u64)
  have g: "(of_nat (length s) :: u64) > 3 \<longleftrightarrow> 3 < length s"
    by (simp add: word_less_nat_alt u)
  have d: "3 < length s \<Longrightarrow> k \<le> 2 \<Longrightarrow> unat (of_nat (length s) - (of_nat k :: u64)) = length s - k" for k
    using unat_of_nat_u64 [of k] u by (subst unat_sub) (auto simp: word_le_nat_alt)
  show ?thesis
    using d [of 1] d [of 2]
    by (auto simp: count_padding_def g arr_read_def pad_count_def nth_append)
qed

lemma mbase64_decode_eq:
  assumes "length s mod 4 = 0" "length s \<le> INT_MAX" "mok (of_nat (length (dec_spec s)))"
  shows "mbase64_decode mok s =
    Inr (Some (Live (map Some (dec_spec s)), of_nat (length (dec_spec s)) - of_nat (pad_count s)))"
proof -
  let ?m = "length (dec_spec s)"
  have l: "length s < 2 ^ 64" "?m < 2 ^ 31" "3 * length s < 2 ^ 64"
    using assms(2) by (auto simp: length_dec_spec INT_MAX_def)
  have u: "unat (of_nat (length s) :: u64) = length s" "unat (of_nat ?m :: u64) = ?m"
    using l by (auto intro!: unat_of_nat_u64)
  have z: "(of_nat (length s) :: u64) mod 4 = 0"
    using assms(1) u(1) by (simp add: word_unat_eq_iff unat_mod_distrib)
  have e: "3 * length s div 4 = ?m"
    using assms(1) by (auto simp: length_dec_spec)
  have "3 * (of_nat (length s) :: u64) = of_nat (3 * length s)" by simp
  then have o: "3 * (of_nat (length s) :: u64) div 4 = of_nat ?m"
    using div_of_nat_u64 [of "3 * length s" 4] l e by simp
  have "decode_loop s (of_nat (length s)) (Live (map Some [] @ replicate ?m None)) (length ([] :: byte list)) (length ([] :: byte list)) =
      Inr (Live (map Some ([] @ dec_spec s)), length ([] :: byte list) + ?m)"
    using assms l u by (intro decode_loop_ok) (auto simp: INT_MAX_def)
  then show ?thesis
    using assms(3) unfolding mbase64_decode_def Let_def o to_int_of_nat to_size_of_nat [OF l(2)] count_padding_eq [OF l(1)]
    by (simp add: z blk_alloc_def u(2))
qed

subsection \<open>Round trip\<close>

text \<open>The contract of a text encoding: the text holds no NUL and decodes to the data, so it
  survives being stored as a C string.\<close>

locale string_codec =
  fixes enc :: "byte list \<Rightarrow> byte list" and dec :: "byte list \<Rightarrow> byte list"
  assumes dec_enc: "dec (enc d) = d"
    and enc_no_nul: "0 \<notin> set (enc d)"
begin

lemma enc_inject: "enc d = enc d' \<longleftrightarrow> d = d'"
  by (metis dec_enc)

lemma c_string_enc: "c_string (Live (map Some (enc d @ 0 # rest))) = enc d"
  by (rule c_string_terminated) (rule enc_no_nul)

lemma through_memory: "dec (c_string (Live (map Some (enc d @ 0 # rest)))) = d"
  by (simp only: c_string_enc dec_enc)

end

definition decoded :: "byte list \<Rightarrow> byte list" where
  "decoded s = take (length (dec_spec s) - pad_count s) (dec_spec s)"

lemma ucast_promote [simp]: "ucast (ucast x :: u32) = (x :: byte)"
  by (rule bit_word_eqI) (auto simp: bit_ucast_iff dest: bit_byte_less)

lemma rev_value_alphabet: "unat x < 64 \<Longrightarrow> rev_value (b64_alphabet ! unat x) = x"
  by (simp add: rev_value_def reverse_alphabet)

lemma b64_block_eta:
  "\<lparr>b_one = b_one b, b_two = b_two b, b_three = b_three b, b_four = b_four b\<rparr> = (b :: b64_block)"
  by (cases b) simp

lemma rev_value_pad [simp]: "rev_value (chr CHR ''='') = 0"
  by (simp add: rev_value_def reverse_pad)

lemma dec_spec_quad: "dec_spec (quad a b c @ xs) = [a, b, c] @ dec_spec xs"
  by (simp add: quad_def Let_def rev_value_alphabet
      b64_block_eta convert_from_to)

lemma short_quads:
  "b_three (convert_to_b64 \<lparr>o_one = a, o_two = 0, o_three = 0\<rparr>) = 0"
  "b_four (convert_to_b64 \<lparr>o_one = a, o_two = 0, o_three = 0\<rparr>) = 0"
  "b_four (convert_to_b64 \<lparr>o_one = a, o_two = b, o_three = 0\<rparr>) = 0"
  by (rule bit_word_eqI, simp add: bit_convert_to_b64)+

lemma dec_spec_short:
  "dec_spec (take 2 (quad a 0 0) @ [chr CHR ''='', chr CHR ''='']) = [a, 0, 0]"
  "dec_spec (take 3 (quad a b 0) @ [chr CHR ''='']) = [a, b, 0]"
  using dec_spec_quad [of a 0 0 "[]"] dec_spec_quad [of a b 0 "[]"]
  by (simp_all add: quad_def Let_def rev_value_alphabet rev_value_alphabet [of 0, simplified] short_quads)

lemma quad_not_pad: "chr CHR ''='' \<notin> set (quad a b c)" "0 \<notin> set (quad a b c)"
  using alphabet_chars by (auto simp: quad_def Let_def) (metis convert_to_b64_bounds)+

lemma pad_count_append: "3 < length ys \<Longrightarrow> pad_count (xs @ ys) = pad_count ys"
proof -
  assume l: "3 < length ys"
  then have "length xs + length ys - k - length xs = length ys - k"
    "\<not> length xs + length ys - k < length xs" if "k \<le> 2" for k
    using that by auto
  from this [of 1] this [of 2] show ?thesis
    using l by (simp add: pad_count_def nth_append)
qed

lemma pad_count_enc_spec: "pad_count (enc_spec d) = (3 - length d mod 3) mod 3"
proof (induction d rule: enc_spec.induct)
  case (4 a b c xs)
  show ?case
  proof (cases xs)
    case Nil
    have "x \<noteq> chr CHR ''=''" if "x \<in> set (quad a b c)" for x
      using that quad_not_pad(1) by metis
    then show ?thesis using Nil by (simp add: pad_count_def)
  next
    case (Cons x ys)
    then have "3 < length (enc_spec xs)" by (simp add: length_enc_spec) arith
    then show ?thesis using 4 by (simp add: pad_count_append)
  qed
next
  case (3 a b)
  have "pad_count [w, x, y, chr CHR ''='']= 1" if "y \<noteq> chr CHR ''=''" for w x y
    using that by (simp add: pad_count_def)
  moreover have "b64_alphabet ! unat (b_three b64) \<noteq> chr CHR ''=''"
    if "b64 = convert_to_b64 orig" for b64 orig
    using that by (simp add: alphabet_chars)
  ultimately show ?case by (simp add: quad_def Let_def)
qed (simp_all add: pad_count_def quad_def Let_def)

lemma dec_spec_enc_spec: "dec_spec (enc_spec d) = d @ replicate ((3 - length d mod 3) mod 3) 0"
proof -
  have r: "replicate 2 x = [x, x]" for x :: byte
    by (simp add: numeral_2_eq_2)
  show ?thesis
    by (induction d rule: enc_spec.induct) (simp_all add: dec_spec_short dec_spec_quad r)
qed

lemma enc_spec_no_nul: "0 \<notin> set (enc_spec d)"
proof (induction d rule: enc_spec.induct)
  case (4 a b c xs)
  then show ?case using quad_not_pad(2) by auto
qed (use quad_not_pad(2) in \<open>auto dest: in_set_takeD\<close>)

interpretation mb64: string_codec enc_spec decoded
  by unfold_locales
    (simp_all add: decoded_def dec_spec_enc_spec pad_count_enc_spec enc_spec_no_nul)

subsection \<open>Properties\<close>

text \<open>C4: the encoder returns the RFC 4648 encoding of its input, followed by a NUL that fills
  the allocation exactly, for every input whose encoding fits an \<open>int\<close>; a failed \<open>malloc\<close>
  aborts. No access is out of bounds and no counter overflows.\<close>

theorem mbase64_encode_rfc4648:
  assumes "unat n = length data" "4 * ((length data + 2) div 3) < INT_MAX"
  shows "mbase64_encode mok data n =
    (if mok (of_nat (4 * ((length data + 2) div 3) + 1))
     then Inr (Live (map Some (rfc4648_encode data @ [0]))) else Inl Assert_failed)"
proof (cases "mok (of_nat (4 * ((length data + 2) div 3) + 1))")
  case True
  then show ?thesis
    using mbase64_encode_eq [OF assms, of mok] by (simp only: enc_spec_rfc4648 if_True)
next
  case False
  have o: "to_int (4 * ((n + 2) div 3)) + 1 = of_nat (4 * ((length data + 2) div 3) + 1)"
    using encoded_size [OF assms(1) encoded_bound(3) [OF assms(2)]] by simp
  show ?thesis
    using False unfolding mbase64_encode_def Let_def o to_size_of_nat [OF encoded_bound(2) [OF assms(2)]]
    by (simp only: require_simps rbind.simps if_False)
qed

theorem mbase64_encode_rfc4648_witness:
  "mbase64_encode (\<lambda>n. n \<le> 4096) (map chr ''hi'') 2 = Inr (Live (map Some (map chr ''aGk='' @ [0])))"
proof -
  have "rfc4648_encode (map chr ''hi'') = map chr ''aGk=''"
    by (simp only: enc_spec_rfc4648 [symmetric]) code_simp
  then show ?thesis
    using mbase64_encode_rfc4648 [of 2 "map chr ''hi''" "\<lambda>n. n \<le> 4096"]
    by (simp add: INT_MAX_def)
qed

lemma mbase64_roundtrip_buffers:
  assumes "unat n = length data" "4 * ((length data + 2) div 3) < INT_MAX"
    "mok (of_nat (4 * ((length data + 2) div 3) + 1))" "mok (of_nat (3 * ((length data + 2) div 3)))"
  shows "mbase64_encode mok data n = Inr (Live (map Some (enc_spec data @ [0])))"
    "c_string (Live (map Some (enc_spec data @ [0]))) = enc_spec data"
    "mbase64_decode mok (enc_spec data) = Inr (Some (Live (map Some (data @ replicate ((3 - length data mod 3) mod 3) 0)), n))"
proof -
  let ?s = "enc_spec data"
  have l: "length (dec_spec ?s) = 3 * ((length data + 2) div 3)"
    by (simp add: length_dec_spec length_enc_spec)
  have d: "dec_spec ?s = data @ replicate (pad_count ?s) 0"
    by (simp only: dec_spec_enc_spec pad_count_enc_spec)
  have "of_nat (length (dec_spec ?s)) - of_nat (pad_count ?s) = n"
    using word_eq_of_nat [OF assms(1)] by (simp add: d)
  moreover have "mbase64_decode mok ?s =
      Inr (Some (Live (map Some (dec_spec ?s)), of_nat (length (dec_spec ?s)) - of_nat (pad_count ?s)))"
    using assms by (intro mbase64_decode_eq) (simp_all add: length_enc_spec l)
  ultimately show "mbase64_decode mok ?s = Inr (Some (Live (map Some (data @ replicate ((3 - length data mod 3) mod 3) 0)), n))"
    by (simp only: dec_spec_enc_spec)
  show "c_string (Live (map Some (?s @ [0]))) = ?s"
    using mb64.c_string_enc [of data "[]"] by simp
  show "mbase64_encode mok data n = Inr (Live (map Some (?s @ [0])))"
    using mbase64_encode_eq [where mok = mok, OF assms(1-3)] .
qed

text \<open>C3: decoding what the encoder wrote, read back as a C string, gives the data and its
  length, for all data whose encoding fits an \<open>int\<close>.\<close>

theorem mbase64_roundtrip:
  assumes "unat n = length data" "4 * ((length data + 2) div 3) < INT_MAX"
    "mok (of_nat (4 * ((length data + 2) div 3) + 1))" "mok (of_nat (3 * ((length data + 2) div 3)))"
  shows "\<exists>out buf. mbase64_encode mok data n = Inr out \<and>
    mbase64_decode mok (c_string out) = Inr (Some (buf, n)) \<and>
    take (length data) (blk_cells buf) = map Some data"
  using mbase64_roundtrip_buffers [where mok = mok, OF assms] by (intro exI conjI) (assumption | simp)+

theorem mbase64_roundtrip_witness:
  "\<exists>out buf. mbase64_encode (\<lambda>_. True) [1, 2, 0, 255] 4 = Inr out \<and>
    mbase64_decode (\<lambda>_. True) (c_string out) = Inr (Some (buf, 4)) \<and>
    take (length [1, 2, 0, 255 :: byte]) (blk_cells buf) = map Some [1, 2, 0, 255]"
  by (rule mbase64_roundtrip) (simp_all add: INT_MAX_def)

lemma mbase64_decode_cases:
  assumes "length s \<le> INT_MAX"
  shows "mbase64_decode mok s =
    (if length s mod 4 \<noteq> 0 then Inr None
     else if mok (of_nat (length (dec_spec s)))
     then Inr (Some (Live (map Some (dec_spec s)), of_nat (length (dec_spec s) - pad_count s)))
     else Inl Assert_failed)"
proof -
  have l: "length s < 2 ^ 64" "length (dec_spec s) < 2 ^ 31" "3 * length s < 2 ^ 64"
    using assms by (auto simp: length_dec_spec INT_MAX_def)
  have z: "(of_nat (length s) :: u64) mod 4 = 0 \<longleftrightarrow> length s mod 4 = 0"
    using unat_of_nat_u64 [OF l(1)] by (simp add: word_unat_eq_iff unat_mod_distrib)
  have p: "pad_count s \<le> length (dec_spec s)"
    by (auto simp: pad_count_def length_dec_spec) arith+
  have o: "3 * (of_nat (length s) :: u64) div 4 = of_nat (length (dec_spec s))" if "length s mod 4 = 0"
    using div_of_nat_u64 [of "3 * length s" 4] l that by (auto simp: length_dec_spec)
  show ?thesis
    using mbase64_decode_eq [of s mok] assms p
    by (auto simp: mbase64_decode_def z Let_def o to_int_of_nat to_size_of_nat [OF l(2)] of_nat_diff)
qed

text \<open>C22: the decoder is total on C strings of up to \<open>INT_MAX\<close> characters, whatever the
  characters are: NULL exactly when the length is not a multiple of 4, else the octets of the
  quadruples and a size that drops one for each \<open>=\<close> among the last two characters; every write
  is inside the allocation.\<close>

theorem mbase64_decode_total:
  assumes "length s \<le> INT_MAX"
  shows "mbase64_decode mok s =
    (if length s mod 4 \<noteq> 0 then Inr None
     else if mok (of_nat (length (dec_spec s)))
     then Inr (Some (Live (map Some (dec_spec s)), of_nat (length (dec_spec s) - pad_count s)))
     else Inl Assert_failed)"
  by (rule mbase64_decode_cases [OF assms])

theorem mbase64_decode_total_witness:
  "mbase64_decode (\<lambda>_. True) (map chr ''aGk'') = Inr None \<and>
   mbase64_decode (\<lambda>_. True) (map chr ''aGk='') =
     Inr (Some (Live (map Some (map chr ''hi'' @ [0])), 2))"
proof -
  have "dec_spec (map chr ''aGk='') = map chr ''hi'' @ [0]" "pad_count (map chr ''aGk='') = 1"
    by code_simp+
  then show ?thesis
    using mbase64_decode_total [of "map chr ''aGk''" "\<lambda>_. True"]
      mbase64_decode_total [of "map chr ''aGk=''" "\<lambda>_. True"]
    by (simp add: INT_MAX_def)
qed

text \<open>The decoder does not reject characters outside the alphabet: it decodes any string
  as it decodes the one where each of them is replaced by \<open>A\<close>, but for the padding count.\<close>

theorem mbase64_decode_invalid_as_A:
  assumes "length s mod 4 = 0" "length s \<le> INT_MAX"
    "t = map (\<lambda>c. if c \<in> set (take 64 b64_alphabet) then c else chr (CHR ''A'')) s"
  shows "\<exists>buf k k'. mbase64_decode (\<lambda>_. True) s = Inr (Some (buf, k)) \<and>
    mbase64_decode (\<lambda>_. True) t = Inr (Some (buf, k'))"
proof -
  let ?A = "\<lambda>c. if c \<in> set (take 64 b64_alphabet) then c else chr (CHR ''A'')"
  have "rev_value (chr CHR ''A'') = 0" by code_simp
  moreover have "rev_value c = 0" if "c \<notin> set (take 64 b64_alphabet)" for c
    using reverse_other [OF that] by (simp add: rev_value_def)
  ultimately have v: "rev_value (?A c) = rev_value c" for c
    by (cases "c \<in> set (take 64 b64_alphabet)") (simp_all only: if_True if_False not_False_eq_True)
  have "dec_spec (map ?A s) = dec_spec s"
    by (induction s rule: dec_spec.induct) (simp_all only: list.map dec_spec.simps v)
  then show ?thesis
    using assms mbase64_decode_eq [of s "\<lambda>_. True"] mbase64_decode_eq [of t "\<lambda>_. True"] by auto
qed

theorem mbase64_decode_invalid_as_A_witness:
  "\<exists>buf k k'. mbase64_decode (\<lambda>_. True) (map chr ''a-_='') = Inr (Some (buf, k)) \<and>
    mbase64_decode (\<lambda>_. True) (map chr ''aAAA'') = Inr (Some (buf, k'))"
proof -
  have "map chr ''aAAA'' =
      map (\<lambda>c. if c \<in> set (take 64 b64_alphabet) then c else chr (CHR ''A'')) (map chr ''a-_='')"
    by code_simp
  then show ?thesis
    using mbase64_decode_invalid_as_A [of "map chr ''a-_=''" "map chr ''aAAA''"] by (simp add: INT_MAX_def)
qed

text \<open>C36: inputs whose encoding is 4 GiB long: the size wraps to 0 in the \<open>int\<close>, one byte is
  allocated, and the second character written is outside the allocation.\<close>

theorem mbase64_encode_heap_overflow:
  assumes "length data \<in> {3221225470, 3221225471, 3221225472}" "unat n = length data" "mok 1"
  shows "mbase64_encode mok data n = Inl Out_of_bounds"
proof -
  have n: "n = of_nat (length data)" using assms(2) by (rule word_eq_of_nat)
  have "to_int (4 * ((n + 2) div 3)) = of_nat (4 * ((length data + 2) div 3))"
    by (rule encoded_size [OF assms(2)]) (use assms(1) in auto)
  also have "\<dots> = 0" using assms(1) by auto
  finally have o: "to_int (4 * ((n + 2) div 3)) = 0" .
  have s: "sint (to_int (n - of_nat 0)) < 0"
    using assms(1) by (auto simp: n to_int_def)
  obtain d ds where d: "data = d # ds" using assms(1) by (cases data) auto
  have r: "read_octets data n 0 = Inr (\<lparr>o_one = d, o_two = 0, o_three = 0\<rparr>, 2)"
    using s by (simp add: read_octets_def Let_def d arr_read_def)
  have b: "unat (b_one (convert_to_b64 orig)) < 65" "unat (b_two (convert_to_b64 orig)) < 65" for orig
    using convert_to_b64_bounds [of orig] by (auto intro: less_trans)
  have w: "write_quad (Live [None]) 0 (convert_to_b64 orig) 2 = Inl Out_of_bounds" for orig
    by (simp add: write_quad_def arr_read_def b)
  have "0 < unat n" using assms by auto
  then have "encode_loop data n (Live [None]) 0 0 = Inl Out_of_bounds"
    by (subst encode_loop.simps) (simp add: r w)
  moreover have "to_size (0 + 1) = 1" by (simp add: to_size_def)
  ultimately show ?thesis
    unfolding mbase64_encode_def Let_def o using assms(3) by (simp add: blk_alloc_def)
qed

theorem mbase64_encode_heap_overflow_witness:
  "mbase64_encode (\<lambda>_. True) (replicate 3221225470 7) 3221225470 = Inl Out_of_bounds"
  by (rule mbase64_encode_heap_overflow) simp_all

end
