(* ===== verification/Evp_Cipher.thy ===== *)
theory Evp_Cipher
  imports Prelude
begin

section \<open>Encryption and digests over OpenSSL (mutil.c)\<close>

text \<open>
  \<open>encrypt_ssl\<close>, \<open>decrypt_ssl\<close> and \<open>digest_sha1\<close>. The library's functions are arguments: a cipher is
  a record with the start of a context from key and initialisation vector, the update with one
  octet and the end, which give the octets they store, or \<open>None\<close> on an error. The buffers are
  bounds-checked blocks of the size the code asks for, so the guess \<open>input_size * 2\<close> of the code is
  what the theorems are about. The result says too whether the context is still allocated.
\<close>

record ('cipher, 'ctx) evp =
  evp_ctx_new :: bool
    \<comment> \<open>\<open>EVP_CIPHER_CTX_new\<close> returns a context\<close>
  evp_aes_256_cfb8 :: 'cipher
  evp_encrypt_init :: "'cipher \<Rightarrow> byte list \<Rightarrow> byte list \<Rightarrow> 'ctx"
  evp_encrypt_update :: "'ctx \<Rightarrow> byte \<Rightarrow> (byte list \<times> 'ctx) option"
  evp_encrypt_final :: "'ctx \<Rightarrow> byte list option"
  evp_decrypt_init :: "'cipher \<Rightarrow> byte list \<Rightarrow> byte list \<Rightarrow> 'ctx"
  evp_decrypt_update :: "'ctx \<Rightarrow> byte \<Rightarrow> (byte list \<times> 'ctx) option"
  evp_decrypt_final :: "'ctx \<Rightarrow> byte list option"

record ssl_result =
  ssl_text :: "byte block option"
    \<comment> \<open>the pointer returned\<close>
  ssl_ctx_leaked :: bool
    \<comment> \<open>the context was not freed\<close>

text \<open>The loops feed the input octet by octet; \<open>None\<close> is the early return. The last components are
  the context, the buffer and the offset of the write pointer.\<close>

function encrypt_loop ::
  "('cipher, 'ctx) evp \<Rightarrow> byte list \<Rightarrow> int \<Rightarrow> int \<Rightarrow> 'ctx \<Rightarrow> byte block \<Rightarrow> nat \<Rightarrow> ('ctx \<times> byte block \<times> nat) option res" where
  "encrypt_loop evp plaintext input_size i ctx crypttext p =
     (if i < input_size then
        rbind (arr_read plaintext (nat i)) (\<lambda>c.
          case evp_encrypt_update evp ctx c of
            None \<Rightarrow> Inr None
          | Some (out, ctx) \<Rightarrow> rbind (write_at crypttext p out) (\<lambda>crypttext.
              encrypt_loop evp plaintext input_size (i + 1) ctx crypttext (p + length out)))
      else Inr (Some (ctx, crypttext, p)))"
  by pat_completeness auto
termination by (relation "measure (\<lambda>(evp, t, n, i, ctx, b, p). nat (n - i))") auto

declare encrypt_loop.simps [simp del]

text \<open>After the loop: the end of the cipher's output and the terminator.\<close>

fun encrypt_end :: "('cipher, 'ctx) evp \<Rightarrow> ('ctx \<times> byte block \<times> nat) option \<Rightarrow> ssl_result res" where
  "encrypt_end evp None = Inr \<lparr>ssl_text = None, ssl_ctx_leaked = True\<rparr>"
| "encrypt_end evp (Some (ctx, crypttext, p)) =
     (case evp_encrypt_final evp ctx of
        None \<Rightarrow> Inr \<lparr>ssl_text = None, ssl_ctx_leaked = True\<rparr>
      | Some out \<Rightarrow>
          rbind (write_at crypttext p out) (\<lambda>crypttext.
          rbind (blk_write crypttext (p + length out) 0) (\<lambda>crypttext.
          Inr \<lparr>ssl_text = Some crypttext, ssl_ctx_leaked = False\<rparr>)))"

definition encrypt_ssl ::
  "(u64 \<Rightarrow> bool) \<Rightarrow> ('cipher, 'ctx) evp \<Rightarrow> byte list \<Rightarrow> byte list \<Rightarrow> 'cipher option \<Rightarrow> byte list \<Rightarrow> int \<Rightarrow> ssl_result res" where
  "encrypt_ssl mok evp key iv cipher_type plaintext input_size =
     (let size = of_int input_size * 2 :: u64 in
      rbind (require Assert_failed (mok size)) (\<lambda>_.
      rbind (require Null_deref (evp_ctx_new evp)) (\<lambda>_.
      let ctx = (case cipher_type of
                   None \<Rightarrow> evp_encrypt_init evp (evp_aes_256_cfb8 evp) key iv
                 | Some c \<Rightarrow> evp_encrypt_init evp c key iv)
      in rbind (encrypt_loop evp plaintext input_size 0 ctx (blk_alloc (unat size)) 0) (encrypt_end evp))))"

function decrypt_loop ::
  "('cipher, 'ctx) evp \<Rightarrow> byte list \<Rightarrow> int \<Rightarrow> int \<Rightarrow> 'ctx \<Rightarrow> byte block \<Rightarrow> nat \<Rightarrow> ('ctx \<times> byte block \<times> nat) option res" where
  "decrypt_loop evp ciphertext input_size i ctx plaintext p =
     (if i < input_size then
        rbind (arr_read ciphertext (nat i)) (\<lambda>c.
          case evp_decrypt_update evp ctx c of
            None \<Rightarrow> Inr None
          | Some (out, ctx) \<Rightarrow> rbind (write_at plaintext p out) (\<lambda>plaintext.
              decrypt_loop evp ciphertext input_size (i + 1) ctx plaintext (p + length out)))
      else Inr (Some (ctx, plaintext, p)))"
  by pat_completeness auto
termination by (relation "measure (\<lambda>(evp, t, n, i, ctx, b, p). nat (n - i))") auto

declare decrypt_loop.simps [simp del]

text \<open>After the loop: the end of the cipher's output and the terminator.\<close>

fun decrypt_end :: "('cipher, 'ctx) evp \<Rightarrow> ('ctx \<times> byte block \<times> nat) option \<Rightarrow> ssl_result res" where
  "decrypt_end evp None = Inr \<lparr>ssl_text = None, ssl_ctx_leaked = True\<rparr>"
| "decrypt_end evp (Some (ctx, plaintext, p)) =
     (case evp_decrypt_final evp ctx of
        None \<Rightarrow> Inr \<lparr>ssl_text = None, ssl_ctx_leaked = True\<rparr>
      | Some out \<Rightarrow>
          rbind (write_at plaintext p out) (\<lambda>plaintext.
          rbind (blk_write plaintext (p + length out) 0) (\<lambda>plaintext.
          Inr \<lparr>ssl_text = Some plaintext, ssl_ctx_leaked = False\<rparr>)))"

definition decrypt_ssl ::
  "(u64 \<Rightarrow> bool) \<Rightarrow> ('cipher, 'ctx) evp \<Rightarrow> byte list \<Rightarrow> byte list \<Rightarrow> 'cipher option \<Rightarrow> byte list \<Rightarrow> int \<Rightarrow> ssl_result res" where
  "decrypt_ssl mok evp key iv cipher_type ciphertext input_size =
     (let size = of_int input_size * 2 :: u64 in
      rbind (require Assert_failed (mok size)) (\<lambda>_.
      rbind (require Null_deref (evp_ctx_new evp)) (\<lambda>_.
      let ctx = (case cipher_type of
                   None \<Rightarrow> evp_decrypt_init evp (evp_aes_256_cfb8 evp) key iv
                 | Some c \<Rightarrow> evp_decrypt_init evp c key iv)
      in rbind (decrypt_loop evp ciphertext input_size 0 ctx (blk_alloc (unat size)) 0) (decrypt_end evp))))"

subsection \<open>Decryption is encryption with the other functions\<close>

definition swap_evp :: "('cipher, 'ctx) evp \<Rightarrow> ('cipher, 'ctx) evp" where
  "swap_evp evp = evp\<lparr>evp_encrypt_init := evp_decrypt_init evp, evp_encrypt_update := evp_decrypt_update evp,
     evp_encrypt_final := evp_decrypt_final evp, evp_decrypt_init := evp_encrypt_init evp,
     evp_decrypt_update := evp_encrypt_update evp, evp_decrypt_final := evp_encrypt_final evp\<rparr>"

lemma swap_evp_simps [simp]:
  "evp_ctx_new (swap_evp evp) = evp_ctx_new evp" "evp_aes_256_cfb8 (swap_evp evp) = evp_aes_256_cfb8 evp"
  "evp_encrypt_init (swap_evp evp) = evp_decrypt_init evp"
  "evp_encrypt_update (swap_evp evp) = evp_decrypt_update evp"
  "evp_encrypt_final (swap_evp evp) = evp_decrypt_final evp"
  by (simp_all add: swap_evp_def)

lemma decrypt_loop_swap: "decrypt_loop evp t n i ctx b p = encrypt_loop (swap_evp evp) t n i ctx b p"
proof (induction evp t n i ctx b p rule: decrypt_loop.induct)
  case (1 evp t n i ctx b p)
  then show ?case
    by (subst decrypt_loop.simps, subst encrypt_loop.simps)
      (auto intro!: rbind_cong split: option.split)
qed

lemma decrypt_end_swap: "decrypt_end evp r = encrypt_end (swap_evp evp) r"
  by (cases "(evp, r)" rule: decrypt_end.cases) simp_all

lemma decrypt_ssl_swap: "decrypt_ssl mok evp = encrypt_ssl mok (swap_evp evp)"
  unfolding decrypt_ssl_def encrypt_ssl_def decrypt_loop_swap decrypt_end_swap [abs_def] swap_evp_simps ..

subsection \<open>What a run stores\<close>

text \<open>The octets a whole input makes the cipher give, the end included; \<open>None\<close> when a call fails.\<close>

fun cipher_run :: "('cipher, 'ctx) evp \<Rightarrow> 'ctx \<Rightarrow> byte list \<Rightarrow> byte list option" where
  "cipher_run evp ctx [] = evp_encrypt_final evp ctx"
| "cipher_run evp ctx (c # cs) =
     (case evp_encrypt_update evp ctx c of
        None \<Rightarrow> None
      | Some (out, ctx) \<Rightarrow> map_option (\<lambda>outs. out @ outs) (cipher_run evp ctx cs))"

definition encrypt_start :: "('cipher, 'ctx) evp \<Rightarrow> byte list \<Rightarrow> byte list \<Rightarrow> 'cipher option \<Rightarrow> 'ctx" where
  "encrypt_start evp key iv cipher_type =
     evp_encrypt_init evp (case cipher_type of None \<Rightarrow> evp_aes_256_cfb8 evp | Some c \<Rightarrow> c) key iv"

lemma encrypt_tail:
  assumes "cipher_run evp ctx cs = Some outs" "p \<le> length b"
  shows "rbind (encrypt_loop evp (pre @ cs) (int (length (pre @ cs))) (int (length pre)) ctx (Live b) p) (encrypt_end evp) =
    (if p + length outs < length b
     then Inr \<lparr>ssl_text = Some (Live (take p b @ map Some (outs @ [0]) @ drop (p + length outs + 1) b)), ssl_ctx_leaked = False\<rparr>
     else Inl Out_of_bounds)"
  using assms
proof (induction cs arbitrary: ctx outs p b pre)
  case Nil
  then have f: "evp_encrypt_final evp ctx = Some outs" by simp
  have w: "write_at (Live b) p outs =
      (if p + length outs \<le> length b then Inr (Live (take p b @ map Some outs @ drop (p + length outs) b)) else Inl Out_of_bounds)"
    using Nil.prems(2) by (simp add: write_at_ok write_at_overflow)
  have d: "drop (p + length outs) b = b ! (p + length outs) # drop (p + length outs + 1) b" if "p + length outs < length b"
    using that by (simp add: Cons_nth_drop_Suc)
  consider "p + length outs < length b" | "p + length outs = length b" | "length b < p + length outs"
    by linarith
  then show ?case
    by cases ((subst encrypt_loop.simps), simp add: f w d list_update_append)+
next
  case (Cons c cs)
  from Cons.prems(1) obtain out ctx' outs' where
    u: "evp_encrypt_update evp ctx c = Some (out, ctx')" and r: "cipher_run evp ctx' cs = Some outs'" and
    o: "outs = out @ outs'" by (auto split: option.splits)
  have a: "arr_read (pre @ c # cs) (length pre) = Inr c" by (simp add: arr_read_def)
  show ?case
  proof (cases "p + length out \<le> length b")
    case True
    let ?b = "take p b @ map Some out @ drop (p + length out) b"
    have "rbind (encrypt_loop evp ((pre @ [c]) @ cs) (int (length ((pre @ [c]) @ cs))) (int (length (pre @ [c]))) ctx' (Live ?b)
        (p + length out)) (encrypt_end evp) =
      (if p + length out + length outs' < length ?b
       then Inr \<lparr>ssl_text = Some (Live (take (p + length out) ?b @ map Some (outs' @ [0]) @ drop (p + length out + length outs' + 1) ?b)),
         ssl_ctx_leaked = False\<rparr> else Inl Out_of_bounds)"
      using True by (intro Cons.IH r) simp
    moreover have "length ?b = length b" "take (p + length out) ?b = take p b @ map Some out"
      "drop (p + length out + length outs' + 1) ?b = drop (p + length out + length outs' + 1) b"
      using True by (simp_all add: ac_simps)
    ultimately show ?thesis
      using True by (subst encrypt_loop.simps) (simp add: a u o write_at_ok add_ac)
  next
    case False
    then show ?thesis
      using Cons.prems(2) by (subst encrypt_loop.simps) (simp add: a u o write_at_overflow)
  qed
qed

lemma encrypt_tail_error:
  assumes "cipher_run evp ctx cs = None" "p \<le> length b"
  shows "rbind (encrypt_loop evp (pre @ cs) (int (length (pre @ cs))) (int (length pre)) ctx (Live b) p) (encrypt_end evp)
    \<in> {Inr \<lparr>ssl_text = None, ssl_ctx_leaked = True\<rparr>, Inl Out_of_bounds}"
  using assms
proof (induction cs arbitrary: ctx p b pre)
  case Nil
  then show ?case by (subst encrypt_loop.simps) simp
next
  case (Cons c cs)
  have a: "arr_read (pre @ c # cs) (length pre) = Inr c" by (simp add: arr_read_def)
  show ?case
  proof (cases "evp_encrypt_update evp ctx c")
    case None
    then show ?thesis by (subst encrypt_loop.simps) (simp add: a)
  next
    case (Some r)
    obtain out ctx' where u: "evp_encrypt_update evp ctx c = Some (out, ctx')" using Some by (cases r) simp
    then have r: "cipher_run evp ctx' cs = None" using Cons.prems(1) by simp
    show ?thesis
    proof (cases "p + length out \<le> length b")
      case True
      let ?b = "take p b @ map Some out @ drop (p + length out) b"
      have "p + length out \<le> length ?b" using True by simp
      from Cons.IH [OF r this, of "pre @ [c]"] show ?thesis
        using True by (subst encrypt_loop.simps) (simp add: a u write_at_ok add_ac)
    next
      case False
      then show ?thesis
        using Cons.prems(2) by (subst encrypt_loop.simps) (simp add: a u write_at_overflow)
    qed
  qed
qed

lemma twice_size:
  assumes "n \<le> INT_MAX"
  shows "unat (of_int (int n) * 2 :: u64) = 2 * n"
proof -
  have "(of_int (int n) * 2 :: u64) = of_nat (2 * n)" by simp
  moreover have "2 * n < 2 ^ 64" using assms by (simp add: INT_MAX_def)
  ultimately show ?thesis by (simp only: unat_of_nat_u64)
qed

lemma encrypt_ssl_eq:
  assumes "length plaintext \<le> INT_MAX" "mok (of_int (int (length plaintext)) * 2)" "evp_ctx_new evp"
  shows "encrypt_ssl mok evp key iv cipher_type plaintext (int (length plaintext)) =
    rbind (encrypt_loop evp plaintext (int (length plaintext)) 0 (encrypt_start evp key iv cipher_type)
      (Live (replicate (2 * length plaintext) None)) 0) (encrypt_end evp)"
  using assms twice_size [OF assms(1)]
  by (simp add: encrypt_ssl_def blk_alloc_def encrypt_start_def split: option.split)

lemma encrypt_ssl_run:
  assumes "length plaintext \<le> INT_MAX" "mok (of_int (int (length plaintext)) * 2)" "evp_ctx_new evp"
    "cipher_run evp (encrypt_start evp key iv cipher_type) plaintext = Some outs"
  shows "encrypt_ssl mok evp key iv cipher_type plaintext (int (length plaintext)) =
    (if length outs < 2 * length plaintext
     then Inr \<lparr>ssl_text = Some (Live (map Some (outs @ [0]) @ replicate (2 * length plaintext - length outs - 1) None)),
       ssl_ctx_leaked = False\<rparr>
     else Inl Out_of_bounds)"
  using encrypt_tail [OF assms(4), of 0 "replicate (2 * length plaintext) None" "[]"] encrypt_ssl_eq [where mok = mok, OF assms(1-3)]
  by simp

subsection \<open>SHA-1\<close>

text \<open>The results of the library's calls in the order the code makes them; the last one gives the
  digest. The result is the pointer returned, \<open>Freed\<close> for one that was freed before, and what is
  stored in \<open>*digest_len\<close>.\<close>

record evp_md =
  md_ctx_new :: bool
  md_init :: bool
  md_update :: bool
  md_malloc :: bool
  md_final :: "byte list option"

definition digest_sha1 :: "(byte list \<Rightarrow> evp_md) \<Rightarrow> nat \<Rightarrow> byte list \<Rightarrow> (byte block option \<times> nat option) res" where
  "digest_sha1 md md_size input =
     (if \<not> md_ctx_new (md input) then Inr (None, None)
      else if \<not> md_init (md input) then Inr (None, None)
      else if \<not> md_update (md input) then Inr (None, None)
      else if \<not> md_malloc (md input) then Inr (None, None)
      else (case md_final (md input) of
              None \<Rightarrow> rbind (blk_free (blk_alloc md_size :: byte block)) (\<lambda>digest. Inr (Some digest, None))
            | Some d \<Rightarrow> rbind (write_at (blk_alloc md_size) 0 d) (\<lambda>digest. Inr (Some digest, Some (length d)))))"

lemma digest_sha1_ok:
  assumes "md_ctx_new (md input)" "md_init (md input)" "md_update (md input)" "md_malloc (md input)"
    "md_final (md input) = Some d" "length d = md_size"
  shows "digest_sha1 md md_size input = Inr (Some (Live (map Some d)), Some md_size)"
  using assms by (simp add: digest_sha1_def blk_alloc_def write_at_ok)

subsection \<open>Properties\<close>

text \<open>What is documented of a stream cipher: an octet out for an octet in, no octets at the end, and
  decryption with the same key and vector gives the octets back.\<close>

definition stream_cipher :: "('cipher, 'ctx) evp \<Rightarrow> byte list \<Rightarrow> byte list \<Rightarrow> 'cipher option \<Rightarrow> bool" where
  "stream_cipher evp key iv cipher_type \<longleftrightarrow>
     (\<forall>text. \<exists>crypt. cipher_run evp (encrypt_start evp key iv cipher_type) text = Some crypt \<and>
        length crypt = length text \<and>
        cipher_run (swap_evp evp) (encrypt_start (swap_evp evp) key iv cipher_type) crypt = Some text)"

text \<open>C13: with a stream cipher \<open>encrypt_ssl\<close> of a non-empty input returns as many octets, terminated by a NUL
  and inside the allocation, and \<open>decrypt_ssl\<close> of these octets returns the input, terminated by a
  NUL; both free their context.\<close>

theorem encrypt_decrypt_roundtrip:
  assumes "stream_cipher evp key iv cipher_type" "evp_ctx_new evp"
    "plaintext \<noteq> []" "length plaintext \<le> INT_MAX" "mok (of_int (int (length plaintext)) * 2)"
  shows "\<exists>crypt buf buf'. length crypt = length plaintext \<and>
    encrypt_ssl mok evp key iv cipher_type plaintext (int (length plaintext)) = Inr \<lparr>ssl_text = Some buf, ssl_ctx_leaked = False\<rparr> \<and>
    take (length plaintext + 1) (blk_cells buf) = map Some (crypt @ [0]) \<and>
    decrypt_ssl mok evp key iv cipher_type crypt (int (length plaintext)) = Inr \<lparr>ssl_text = Some buf', ssl_ctx_leaked = False\<rparr> \<and>
    take (length plaintext + 1) (blk_cells buf') = map Some (plaintext @ [0])"
proof -
  from assms(1) obtain crypt where
    e: "cipher_run evp (encrypt_start evp key iv cipher_type) plaintext = Some crypt" and
    l: "length crypt = length plaintext" and
    d: "cipher_run (swap_evp evp) (encrypt_start (swap_evp evp) key iv cipher_type) crypt = Some plaintext"
    unfolding stream_cipher_def by blast
  from assms(3) have n: "length plaintext < 2 * length plaintext" by simp
  show ?thesis
    using encrypt_ssl_run [where mok = mok, OF assms(4,5,2) e] encrypt_ssl_run [where mok = mok, OF _ _ _ d]
      assms(2,4,5) n l unfolding decrypt_ssl_swap by (intro exI [of _ crypt]) simp
qed

text \<open>An 8-bit cipher feedback: the register holds the last octet of ciphertext.\<close>

unbundle bit_operations_syntax

definition sample_cfb :: "(unit, byte \<times> byte) evp" where
  "sample_cfb = \<lparr>evp_ctx_new = True, evp_aes_256_cfb8 = (),
     evp_encrypt_init = (\<lambda>c key iv. (hd key, hd iv)),
     evp_encrypt_update = (\<lambda>(k, r) c. let x = c XOR (r * 7 + k) in Some ([x], (k, x))),
     evp_encrypt_final = (\<lambda>ctx. Some []),
     evp_decrypt_init = (\<lambda>c key iv. (hd key, hd iv)),
     evp_decrypt_update = (\<lambda>(k, r) x. Some ([x XOR (r * 7 + k)], (k, x))),
     evp_decrypt_final = (\<lambda>ctx. Some [])\<rparr>"

lemma sample_cfb_stream: "stream_cipher sample_cfb key iv cipher_type"
proof -
  have x: "(x XOR y) XOR y = x" for x y :: byte
    by (simp add: xor.assoc)
  have "\<exists>crypt. cipher_run sample_cfb ctx octets = Some crypt \<and> length crypt = length octets \<and>
      cipher_run (swap_evp sample_cfb) ctx crypt = Some octets" for ctx octets
  proof (induction octets arbitrary: ctx)
    case Nil
    then show ?case by (simp add: sample_cfb_def swap_evp_def)
  next
    case (Cons c cs)
    obtain k r where ctx: "ctx = (k, r)" by (cases ctx)
    let ?x = "c XOR (r * 7 + k)"
    from Cons [of "(k, ?x)"] obtain crypt where
      i: "cipher_run sample_cfb (k, ?x) cs = Some crypt" "length crypt = length cs"
        "cipher_run (swap_evp sample_cfb) (k, ?x) crypt = Some cs" by blast
    have e: "evp_encrypt_update sample_cfb (k, r) c = Some ([?x], (k, ?x))"
      "evp_decrypt_update sample_cfb (k, r) ?x = Some ([c], (k, ?x))"
      by (simp_all add: sample_cfb_def Let_def x)
    show ?case unfolding ctx by (rule exI [of _ "?x # crypt"]) (simp add: i e)
  qed
  moreover have "encrypt_start sample_cfb key iv cipher_type = encrypt_start (swap_evp sample_cfb) key iv cipher_type"
    by (simp add: encrypt_start_def sample_cfb_def swap_evp_def split: option.split)
  ultimately show ?thesis by (simp add: stream_cipher_def)
qed

theorem encrypt_decrypt_roundtrip_witness:
  "\<exists>crypt buf buf'. length crypt = length [104, 105 :: byte] \<and>
    encrypt_ssl (\<lambda>_. True) sample_cfb [1] [2] None [104, 105] (int (length [104, 105 :: byte])) =
      Inr \<lparr>ssl_text = Some buf, ssl_ctx_leaked = False\<rparr> \<and>
    take (length [104, 105 :: byte] + 1) (blk_cells buf) = map Some (crypt @ [0]) \<and>
    decrypt_ssl (\<lambda>_. True) sample_cfb [1] [2] None crypt (int (length [104, 105 :: byte])) =
      Inr \<lparr>ssl_text = Some buf', ssl_ctx_leaked = False\<rparr> \<and>
    take (length [104, 105 :: byte] + 1) (blk_cells buf') = map Some ([104, 105] @ [0])"
  by (rule encrypt_decrypt_roundtrip [OF sample_cfb_stream]) (simp_all add: sample_cfb_def INT_MAX_def)

lemma padded_size:
  fixes n :: nat
  shows "16 * (n div 16 + 1) < 2 * n \<longleftrightarrow> \<not> (n \<le> 8 \<or> n = 16)"
proof -
  define q r where "q = n div 16" and "r = n mod 16"
  have n: "n = 16 * q + r" and r: "r < 16" by (simp_all add: q_def r_def)
  have "16 * (q + 1) < 2 * (16 * q + r) \<longleftrightarrow> \<not> (16 * q + r \<le> 8 \<or> 16 * q + r = 16)"
  proof (cases "q = 0 \<or> q = 1")
    case True
    then show ?thesis using r by auto
  next
    case False
    then show ?thesis by simp
  qed
  then show ?thesis by (simp only: n [symmetric] q_def [symmetric])
qed

text \<open>C30: with a block cipher of 16 octets and its padding, of which the header allows any for AES, the
  buffer of twice the input is too small for inputs of up to 8 octets and for 16 octets, and for
  these only.\<close>

theorem encrypt_ssl_block_cipher_overflow_iff:
  assumes "cipher_run evp (encrypt_start evp key iv cipher_type) plaintext = Some crypt"
    "length crypt = 16 * (length plaintext div 16 + 1)"
    "evp_ctx_new evp" "length plaintext \<le> INT_MAX" "mok (of_int (int (length plaintext)) * 2)"
  shows "encrypt_ssl mok evp key iv cipher_type plaintext (int (length plaintext)) = Inl Out_of_bounds \<longleftrightarrow>
    length plaintext \<le> 8 \<or> length plaintext = 16"
proof -
  have "length crypt < 2 * length plaintext \<longleftrightarrow> \<not> (length plaintext \<le> 8 \<or> length plaintext = 16)"
    unfolding assms(2) by (rule padded_size)
  then show ?thesis
    using encrypt_ssl_run [where mok = mok, OF assms(4,5,3,1)] by auto
qed

text \<open>A block cipher that collects 16 octets, complements them and pads the last block with its
  number of missing octets.\<close>

definition sample_block :: "(unit, byte list) evp" where
  "sample_block = \<lparr>evp_ctx_new = True, evp_aes_256_cfb8 = (),
     evp_encrypt_init = (\<lambda>c key iv. []),
     evp_encrypt_update = (\<lambda>b c. if length b = 15 then Some (map NOT (b @ [c]), []) else Some ([], b @ [c])),
     evp_encrypt_final = (\<lambda>b. Some (map NOT (b @ replicate (16 - length b) (of_nat (16 - length b))))),
     evp_decrypt_init = (\<lambda>c key iv. []),
     evp_decrypt_update = (\<lambda>b c. None),
     evp_decrypt_final = (\<lambda>b. None)\<rparr>"

theorem encrypt_ssl_block_cipher_overflow_iff_witness:
  "encrypt_ssl (\<lambda>_. True) sample_block [] [] (Some ()) [104, 105] 2 = Inl Out_of_bounds"
proof -
  have "\<exists>crypt. cipher_run sample_block (encrypt_start sample_block [] [] (Some ())) [104, 105] = Some crypt \<and>
      length crypt = 16 * (length [104, 105 :: byte] div 16 + 1)"
    by (simp add: sample_block_def encrypt_start_def)
  then obtain crypt where "cipher_run sample_block (encrypt_start sample_block [] [] (Some ())) [104, 105] = Some crypt"
    "length crypt = 16 * (length [104, 105 :: byte] div 16 + 1)" by blast
  from encrypt_ssl_block_cipher_overflow_iff [OF this, of "\<lambda>_. True"] show ?thesis
    by (simp add: sample_block_def INT_MAX_def)
qed

text \<open>When an update or the end of the cipher fails, no text is returned and the context is never
  freed, unless an earlier write was already outside the buffer.\<close>

theorem encrypt_ssl_error_leaks:
  assumes "cipher_run evp (encrypt_start evp key iv cipher_type) plaintext = None"
    "evp_ctx_new evp" "length plaintext \<le> INT_MAX" "mok (of_int (int (length plaintext)) * 2)"
  shows "encrypt_ssl mok evp key iv cipher_type plaintext (int (length plaintext))
    \<in> {Inr \<lparr>ssl_text = None, ssl_ctx_leaked = True\<rparr>, Inl Out_of_bounds}"
  using encrypt_tail_error [OF assms(1), of 0 "replicate (2 * length plaintext) None" "[]"]
    encrypt_ssl_eq [where mok = mok, OF assms(3,4,2)] by simp

theorem encrypt_ssl_error_leaks_witness:
  "encrypt_ssl (\<lambda>_. True) (sample_cfb\<lparr>evp_encrypt_final := \<lambda>ctx. None\<rparr>) [1] [2] None [104] 1
    \<in> {Inr \<lparr>ssl_text = None, ssl_ctx_leaked = True\<rparr>, Inl Out_of_bounds}"
  using encrypt_ssl_error_leaks [of "sample_cfb\<lparr>evp_encrypt_final := \<lambda>ctx. None\<rparr>" "[1]" "[2]" None "[104]" "\<lambda>_. True"]
  by (simp add: sample_cfb_def encrypt_start_def INT_MAX_def Let_def)

text \<open>\<open>digest_sha1\<close> returns a pointer to the digest and stores its size when every call succeeds,
  and NULL when one of the first four fails; when the last one fails it returns a pointer to
  memory it has freed, which the caller reads or frees again.\<close>

theorem digest_sha1_outcomes:
  assumes "\<And>d. md_final (md input) = Some d \<Longrightarrow> length d = md_size"
  shows "digest_sha1 md md_size input =
    (if \<not> (md_ctx_new (md input) \<and> md_init (md input) \<and> md_update (md input) \<and> md_malloc (md input))
     then Inr (None, None)
     else case md_final (md input) of
       Some d \<Rightarrow> Inr (Some (Live (map Some d)), Some md_size)
     | None \<Rightarrow> Inr (Some Freed, None))"
  using assms digest_sha1_ok [of md input]
  by (cases "md_final (md input)") (auto simp: digest_sha1_def blk_alloc_def)

theorem digest_sha1_outcomes_witness:
  "digest_sha1 (\<lambda>s. \<lparr>md_ctx_new = True, md_init = True, md_update = True, md_malloc = True, md_final = None\<rparr>) 20 [97] =
    Inr (Some Freed, None)"
  by (subst digest_sha1_outcomes) simp_all

end
