(* ===== verification/Mutil_Num.thy ===== *)
theory Mutil_Num
  imports Prelude
begin

section \<open>Numbers and hexadecimal (mutil.c)\<close>

text \<open>
  \<open>dstnow\<close>, the recursive and the stateful Fibonacci functions on 64-bit words, and \<open>tohex\<close>. The
  static variables of \<open>sfibonacci\<close> are a record. \<open>fib\<close> is the sequence on naturals.
\<close>

subsection \<open>Daylight saving time\<close>

text \<open>The global \<open>now\<close> and \<open>now_tm\<close>; what \<open>time\<close> and \<open>localtime_r\<close> give are arguments, and of a
  \<open>struct tm\<close> only \<open>tm_isdst\<close> is used. A failing \<open>localtime_r\<close> is not noticed.\<close>

record 'tm dst_state =
  dst_now :: int
  dst_now_tm :: 'tm

definition dstnow :: "int \<Rightarrow> (int \<Rightarrow> 'tm option) \<Rightarrow> ('tm \<Rightarrow> int) \<Rightarrow> 'tm dst_state \<Rightarrow> int \<times> 'tm dst_state" where
  "dstnow clock localtime_r tm_isdst s =
     (let s = s\<lparr>dst_now := clock\<rparr>;
          s = (case localtime_r (dst_now s) of None \<Rightarrow> s | Some t \<Rightarrow> s\<lparr>dst_now_tm := t\<rparr>)
      in (tm_isdst (dst_now_tm s), s))"

text \<open>The value of the last conversion that worked.\<close>

lemma dstnow_last:
  "dstnow c1 lt isdst s = (r1, s1) \<Longrightarrow> lt c1 = Some t \<Longrightarrow> dstnow c2 lt isdst s1 = (r2, s2) \<Longrightarrow>
     r2 = (case lt c2 of Some u \<Rightarrow> isdst u | None \<Rightarrow> isdst t)"
  by (auto simp: dstnow_def Let_def split: option.splits)

subsection \<open>Fibonacci\<close>

function fibonacci :: "int \<Rightarrow> u64" where
  "fibonacci n = (if n < 1 then 0 else if n = 1 then 1 else fibonacci (n - 1) + fibonacci (n - 2))"
  by pat_completeness auto
termination by (relation "measure nat") auto

declare fibonacci.simps [simp del]

record sfib =
  sf_first :: u64
  sf_second :: u64
  sf_count :: u64

definition sfib_init :: sfib where
  "sfib_init = \<lparr>sf_first = 0, sf_second = 1, sf_count = 0\<rparr>"

definition sfibonacci :: "bool \<Rightarrow> sfib \<Rightarrow> u64 \<times> sfib" where
  "sfibonacci reset s =
     (let s = (if reset then s\<lparr>sf_first := 0, sf_second := 1, sf_count := 0\<rparr> else s);
          s = s\<lparr>sf_count := sf_count s + 1\<rparr>
      in if sf_count s = 1 then (0, s)
         else if sf_count s = 2 then (1, s)
         else (let out = sf_first s + sf_second s
               in (out, s\<lparr>sf_first := sf_second s, sf_second := out\<rparr>)))"

text \<open>The results of \<open>n\<close> further calls.\<close>

fun sfib_calls :: "nat \<Rightarrow> sfib \<Rightarrow> u64 list" where
  "sfib_calls 0 s = []"
| "sfib_calls (Suc n) s = (case sfibonacci False s of (x, s') \<Rightarrow> x # sfib_calls n s')"

fun fib :: "nat \<Rightarrow> nat" where
  "fib 0 = 0"
| "fib (Suc 0) = 1"
| "fib (Suc (Suc n)) = fib (Suc n) + fib n"

lemma fibonacci_fib: "fibonacci (int n) = of_nat (fib n)"
proof (induction n rule: fib.induct)
  case (3 n)
  have "fibonacci (int (Suc (Suc n))) = fibonacci (int (Suc n)) + fibonacci (int n)"
    by (subst fibonacci.simps) (simp add: algebra_simps)
  with 3 show ?case by simp
qed (simp_all add: fibonacci.simps)

lemma sfib_count:
  assumes "k + 3 < 2 ^ 64"
  shows "of_nat (k + 3) \<noteq> (1 :: u64)" "of_nat (k + 3) \<noteq> (2 :: u64)"
  using unat_of_nat_u64 [OF assms] by (auto dest: arg_cong [where f = unat] simp del: of_nat_add)

lemma sfib_state:
  "k + n + 2 < 2 ^ 64 \<Longrightarrow>
   sfib_calls n \<lparr>sf_first = of_nat (fib k), sf_second = of_nat (fib (k + 1)), sf_count = of_nat (k + 2)\<rparr> =
    map (\<lambda>i. of_nat (fib i)) [k + 2..<k + 2 + n]"
proof (induction n arbitrary: k)
  case (Suc n)
  have c: "of_nat (k + 2) + 1 = (of_nat (k + 3) :: u64)" by simp
  have "sfibonacci False \<lparr>sf_first = of_nat (fib k), sf_second = of_nat (fib (k + 1)), sf_count = of_nat (k + 2)\<rparr> =
      (of_nat (fib (k + 2)), \<lparr>sf_first = of_nat (fib (k + 1)), sf_second = of_nat (fib (k + 1 + 1)),
        sf_count = of_nat (k + 1 + 2)\<rparr>)"
    using sfib_count [of k] Suc.prems unfolding sfibonacci_def
    by (simp add: c del: of_nat_add) (simp add: ac_simps Let_def)
  moreover have "[k + 2..<k + 2 + Suc n] = (k + 2) # [k + 1 + 2..<k + 1 + 2 + n]"
    by (simp add: upt_rec)
  ultimately show ?case using Suc.IH [of "k + 1"] Suc.prems by simp
qed simp

lemma sfib_stream:
  assumes "n \<le> INT_MAX"
  shows "(case sfibonacci True s of (x, s') \<Rightarrow> x # sfib_calls n s') = map (\<lambda>i. of_nat (fib i)) [0..<Suc n]"
proof -
  have first: "sfibonacci True s = (0, s\<lparr>sf_first := 0, sf_second := 1, sf_count := 1\<rparr>)"
    by (simp add: sfibonacci_def)
  show ?thesis
  proof (cases n)
    case 0
    then show ?thesis by (simp add: first)
  next
    case (Suc m)
    have "sfibonacci False (s\<lparr>sf_first := 0, sf_second := 1, sf_count := 1\<rparr>) =
        (1, \<lparr>sf_first = of_nat (fib 0), sf_second = of_nat (fib (0 + 1)), sf_count = of_nat (0 + 2)\<rparr>)"
      by (cases s) (simp add: sfibonacci_def)
    moreover have "[0..<Suc (Suc m)] = 0 # 1 # [0 + 2..<0 + 2 + m]"
      by (simp add: upt_rec numeral_2_eq_2)
    ultimately show ?thesis
      using sfib_state [of 0 m] assms unfolding Suc first by (simp add: INT_MAX_def)
  qed
qed

text \<open>Evaluation on integers, in linear time.\<close>

fun fib_steps :: "nat \<Rightarrow> int \<Rightarrow> int \<Rightarrow> int" where
  "fib_steps 0 a b = a"
| "fib_steps (Suc n) a b = fib_steps n b (a + b)"

lemma fib_steps: "fib_steps n (int (fib k)) (int (fib (k + 1))) = int (fib (k + n))"
proof (induction n arbitrary: k)
  case (Suc n)
  then show ?case using Suc [of "k + 1"] by (simp add: add.commute)
qed simp

lemma fib_93_94: "int (fib 93) = 12200160415121876738" "int (fib 94) = 19740274219868223167"
proof -
  have "fib_steps 93 0 1 = 12200160415121876738" "fib_steps 94 0 1 = 19740274219868223167"
    by code_simp+
  then show "int (fib 93) = 12200160415121876738" "int (fib 94) = 19740274219868223167"
    using fib_steps [of 93 0] fib_steps [of 94 0] by simp_all
qed

lemma fib_mono: "m \<le> n \<Longrightarrow> fib m \<le> fib n"
proof (induction n rule: dec_induct)
  case (step n)
  then show ?case by (cases n) simp_all
qed simp

subsection \<open>Hexadecimal\<close>

text \<open>\<open>sprintf\<close> with \<open>%02x\<close> of an octet.\<close>

definition hex_digit :: "nat \<Rightarrow> byte" where
  "hex_digit d = (if d < 10 then of_nat (48 + d) else of_nat (87 + d))"

definition hex_octet :: "byte \<Rightarrow> byte list" where
  "hex_octet c = [hex_digit (unat c div 16), hex_digit (unat c mod 16)]"

fun tohex_loop :: "byte list \<Rightarrow> byte block \<Rightarrow> nat \<Rightarrow> byte block res" where
  "tohex_loop [] hexstring index = Inr hexstring"
| "tohex_loop (c # cs) hexstring index =
     rbind (blk_write hexstring index (hex_octet c ! 0)) (\<lambda>hexstring. rbind (int_add index 1) (\<lambda>index.
     rbind (blk_write hexstring index (hex_octet c ! 1)) (\<lambda>hexstring. rbind (int_add index 1) (\<lambda>index.
     tohex_loop cs hexstring index))))"

text \<open>\<open>None\<close> is the NULL return.\<close>

definition tohex :: "(nat \<Rightarrow> bool) \<Rightarrow> byte list \<Rightarrow> byte block option res" where
  "tohex mok input =
     (if mok (length input * 2 + 1)
      then rbind (tohex_loop input (blk_alloc (length input * 2 + 1)) 0) (\<lambda>b. Inr (Some b))
      else Inr None)"

lemma length_hex_octet [simp]: "length (hex_octet c) = 2"
  by (simp add: hex_octet_def)

lemma tohex_loop_ok:
  "length pre + 2 * length cs \<le> INT_MAX \<Longrightarrow>
   tohex_loop cs (Live (map Some pre @ replicate (2 * length cs + m) None)) (length pre) =
     Inr (Live (map Some (pre @ concat (map hex_octet cs)) @ replicate m None))"
proof (induction cs arbitrary: pre)
  case (Cons c cs)
  show ?case
    using Cons.IH [of "pre @ hex_octet c"] Cons.prems by (simp add: list_update_append hex_octet_def)
qed simp

lemma hex_digit_inject: "i < 16 \<Longrightarrow> j < 16 \<Longrightarrow> hex_digit i = hex_digit j \<longleftrightarrow> i = j"
proof -
  have a: "list_all (\<lambda>i. list_all (\<lambda>j. hex_digit i = hex_digit j \<longrightarrow> i = j) [0..<16]) [0..<16]"
    by code_simp
  show "i < 16 \<Longrightarrow> j < 16 \<Longrightarrow> hex_digit i = hex_digit j \<longleftrightarrow> i = j"
    using a by (auto simp: list_all_iff)
qed

lemma hex_octet_inject: "hex_octet a = hex_octet b \<longleftrightarrow> a = b"
proof
  assume "hex_octet a = hex_octet b"
  moreover have "unat c div 16 < 16" for c :: byte
    using unsigned_less [where ?'a = nat, of c] by (simp add: less_mult_imp_div_less)
  ultimately have "unat a div 16 = unat b div 16" "unat a mod 16 = unat b mod 16"
    by (auto simp: hex_octet_def hex_digit_inject)
  then have "unat a = unat b" by (metis div_mult_mod_eq)
  then show "a = b" by (rule unsigned_word_eqI)
qed simp

lemma hex_inject: "concat (map hex_octet xs) = concat (map hex_octet ys) \<longleftrightarrow> xs = ys"
proof
  show "concat (map hex_octet xs) = concat (map hex_octet ys) \<Longrightarrow> xs = ys"
  proof (induction xs arbitrary: ys)
    case Nil
    then show ?case by (cases ys) (auto simp: hex_octet_def)
  next
    case (Cons x xs)
    then obtain y zs where "ys = y # zs" by (cases ys) (auto simp: hex_octet_def)
    with Cons show ?case by (auto simp: append_eq_append_conv hex_octet_inject)
  qed
qed simp

subsection \<open>Properties\<close>

text \<open>After a reset the calls of \<open>sfibonacci\<close> give, one by one, what \<open>fibonacci\<close> gives for 0, 1,
  2 and so on, for every \<open>int\<close> argument.\<close>

theorem sfibonacci_stream:
  assumes "n \<le> INT_MAX"
  shows "(case sfibonacci True s of (x, s') \<Rightarrow> x # sfib_calls n s') =
    map (\<lambda>i. fibonacci (int i)) [0..<Suc n]"
  unfolding sfib_stream [OF assms] fibonacci_fib by simp

theorem sfibonacci_stream_witness:
  "(case sfibonacci True \<lparr>sf_first = 7, sf_second = 9, sf_count = 4\<rparr> of (x, s') \<Rightarrow> x # sfib_calls 6 s') =
    [0, 1, 1, 2, 3, 5, 8]"
proof -
  have "map (\<lambda>i. fibonacci (int i)) [0..<Suc 6] = [0, 1, 1, 2, 3, 5, 8]"
    unfolding fibonacci_fib by code_simp
  then show ?thesis
    using sfibonacci_stream [of 6 "\<lparr>sf_first = 7, sf_second = 9, sf_count = 4\<rparr>"] by (simp add: INT_MAX_def)
qed

text \<open>\<open>fibonacci\<close> returns the Fibonacci number modulo \<open>2 ^ 64\<close>: the number itself exactly up
  to the 93rd, and 0 for negative arguments.\<close>

theorem fibonacci_exact_iff:
  "unat (fibonacci (int n)) = fib n mod 2 ^ 64 \<and> (unat (fibonacci (int n)) = fib n \<longleftrightarrow> n \<le> 93) \<and>
   fibonacci (- int n) = 0"
proof -
  have m: "unat (fibonacci (int n)) = fib n mod 2 ^ 64"
    unfolding fibonacci_fib by (simp add: unsigned_of_nat take_bit_eq_mod)
  have "int (fib n) < 2 ^ 64" if "n \<le> 93"
    using fib_mono [OF that] fib_93_94(1) by simp
  moreover have "\<not> int (fib n) < 2 ^ 64" if "\<not> n \<le> 93"
    using fib_mono [of 94 n] that fib_93_94(2) by simp
  ultimately have "fib n < 2 ^ 64 \<longleftrightarrow> n \<le> 93" by (cases "n \<le> 93") auto
  then have "fib n mod 2 ^ 64 = fib n \<longleftrightarrow> n \<le> 93"
    by (metis mod_less mod_less_divisor zero_less_numeral zero_less_power)
  moreover have "fibonacci (- int n) = 0" by (subst fibonacci.simps) simp
  ultimately show ?thesis using m by simp
qed

text \<open>\<open>tohex\<close> of up to \<open>2 ^ 30 - 1\<close> octets fills the buffer with two lower-case digits per octet, which
  determine the octets, and never writes the last byte: the string it returns has no
  terminator, and reading it as a C string reads a byte that was never written.\<close>

theorem tohex_unterminated:
  assumes "2 * length input \<le> INT_MAX" "mok (length input * 2 + 1)"
  shows "\<exists>out. tohex mok input = Inr (Some out) \<and> blk_cells out = map Some (concat (map hex_octet input)) @ [None] \<and>
    blk_read out (2 * length input) = Inl Uninit_read \<and>
    (\<forall>input'. tohex mok input' = Inr (Some out) \<longrightarrow> 2 * length input' \<le> INT_MAX \<longrightarrow> input' = input)"
proof -
  have t: "tohex mok xs = Inr (Some (Live (map Some (concat (map hex_octet xs)) @ [None])))"
    if "2 * length xs \<le> INT_MAX" "mok (length xs * 2 + 1)" for xs
    using that tohex_loop_ok [of "[]" xs 1] by (simp add: tohex_def blk_alloc_def mult.commute)
  have l: "length (concat (map hex_octet input)) = 2 * length input" by (induction input) auto
  let ?out = "Live (map Some (concat (map hex_octet input)) @ [None])"
  have "input' = input" if "tohex mok input' = Inr (Some ?out)" "2 * length input' \<le> INT_MAX" for input'
  proof -
    have "mok (length input' * 2 + 1)" using that(1) by (simp add: tohex_def split: if_splits)
    with t that have "map Some (concat (map hex_octet input')) = map Some (concat (map hex_octet input))" by simp
    then have "concat (map hex_octet input') = concat (map hex_octet input)" by (rule map_injective) simp
    then show ?thesis by (simp only: hex_inject)
  qed
  moreover have "blk_read ?out (2 * length input) = Inl Uninit_read"
    by (simp add: nth_append l)
  ultimately show ?thesis using t [OF assms] by auto
qed

theorem tohex_unterminated_witness:
  "\<exists>out. tohex (\<lambda>n. True) [255, 10] = Inr (Some out) \<and>
    blk_cells out = [Some 102, Some 102, Some 48, Some 97, None] \<and> blk_read out 4 = Inl Uninit_read"
proof -
  have "map Some (concat (map hex_octet [255, 10])) @ [None] = [Some 102, Some 102, Some 48, Some 97, None]"
    by code_simp
  then show ?thesis
    using tohex_unterminated [of "[255, 10]" "\<lambda>n. True"] by (auto simp: INT_MAX_def)
qed

end
