(* ===== verification/Repo_Tests.thy ===== *)
theory Repo_Tests
  imports Linked_List Perf Mstr Mbase64 Evp_Cipher Mutil_Num
begin

section \<open>The repository's tests (t/)\<close>

text \<open>
  The test programs that need nothing from the system, as programs over the model: a failed
  \<open>assert\<close> is the fault \<open>Assert_failed\<close>. Three pass. The base64 test writes one byte past the decoded
  text, which is outside its allocation for the one input it looks at, and the encryption test
  depends on the ciphertext having no octet that is 0.
\<close>

definition assert_that :: "bool \<Rightarrow> unit res" where
  "assert_that b = require Assert_failed b"

subsection \<open>test_mlinked_list.c\<close>

definition field_at :: "(mll_node \<Rightarrow> 'v) \<Rightarrow> mll_node heap \<Rightarrow> ptr \<Rightarrow> 'v res" where
  "field_at f h p = (case p of None \<Rightarrow> Inl Invalid_pointer
     | Some a \<Rightarrow> (case h a of None \<Rightarrow> Inl Invalid_pointer | Some n \<Rightarrow> Inr (f n)))"

definition assert_field :: "(mll_node \<Rightarrow> 'v) \<Rightarrow> mll_node heap \<Rightarrow> ptr \<Rightarrow> 'v \<Rightarrow> unit prog" where
  "assert_field f h p v = Some (rbind (field_at f h p) (\<lambda>x. assert_that (x = v)))"

text \<open>The nodes \<open>one\<close>, \<open>two\<close> and \<open>three\<close> are local variables, at the addresses 1, 2 and 3.\<close>

definition test_nodes :: "mll_node heap" where
  "test_nodes = [1 \<mapsto> \<lparr>mll_value = 1, mll_next = None\<rparr>, 2 \<mapsto> \<lparr>mll_value = 2, mll_next = None\<rparr>,
     3 \<mapsto> \<lparr>mll_value = 3, mll_next = None\<rparr>]"

definition test_mlinked_list :: "unit prog" where
  "test_mlinked_list =
     pbind (mll_add test_nodes None 1) (\<lambda>(start, current, h).
     pbind (mll_add h start 2) (\<lambda>(start, current, h).
     pbind (mll_add h start 3) (\<lambda>(start, current, h).
     pbind (mlinked_list_length mll_next h start) (\<lambda>len.
     pbind (Some (assert_that (len = 3))) (\<lambda>_.
     pbind (mlinked_list_find mll_next mll_check 2 h start) (\<lambda>current.
     pbind (assert_field mll_value h current 2) (\<lambda>_.
     pbind (mlinked_list_find mll_next mll_check 3 h start) (\<lambda>current.
     pbind (assert_field mll_value h current 3) (\<lambda>_.
     pbind (assert_field mll_next h current None) (\<lambda>_.
     pbind (mlinked_list_remove mll_next set_mll_next mll_check 2
       \<lparr>lv_hp = h, lv_start = start, lv_current = current, lv_previous = None, lv_freenode = None\<rparr>) (\<lambda>v.
     pbind (assert_field mll_value (lv_hp v) (lv_freenode v) 2) (\<lambda>_.
     pbind (mlinked_list_length mll_next (lv_hp v) (lv_start v)) (\<lambda>len.
     Some (assert_that (len = 2)))))))))))))))"

lemma test_mlinked_list_passes: "test_mlinked_list = ret ()"
  by (simp add: test_mlinked_list_def mlinked_list_add_def mlinked_list_find_def mlinked_list_remove_def
      mlinked_list_length_def walk_last_Some find_loop_Some length_loop_Some remove_loop.simps set_next_at_def
      test_nodes_def set_mll_next_def mll_check_def assert_field_def field_at_def assert_that_def INT_MAX_def)

subsection \<open>test_fib.c\<close>

definition test_sfib :: "sfib \<Rightarrow> unit res" where
  "test_sfib s =
     (case sfibonacci True s of (a, s) \<Rightarrow> case sfibonacci False s of (b, s) \<Rightarrow>
      case sfibonacci False s of (c, s) \<Rightarrow> case sfibonacci False s of (d, s) \<Rightarrow>
      case sfibonacci False s of (e, s) \<Rightarrow>
        rbind (assert_that (a = 0)) (\<lambda>_. rbind (assert_that (b = 1)) (\<lambda>_. rbind (assert_that (c = 1)) (\<lambda>_.
        rbind (assert_that (d = 2)) (\<lambda>_. assert_that (e = 3))))))"

definition test_fib :: "unit res" where
  "test_fib =
     rbind (assert_that (fibonacci 0 = 0)) (\<lambda>_. rbind (assert_that (fibonacci 1 = 1)) (\<lambda>_.
     rbind (assert_that (fibonacci 2 = 1)) (\<lambda>_. rbind (assert_that (fibonacci 3 = 2)) (\<lambda>_.
     assert_that (fibonacci 4 = 3)))))"

lemma test_fib_passes: "test_sfib s = Inr ()" "test_fib = Inr ()"
  by (simp_all add: test_sfib_def test_fib_def sfibonacci_def fibonacci.simps assert_that_def)

subsection \<open>test_msplit.c\<close>

text \<open>The comparison of a word: its characters, and the NUL after them.\<close>

definition assert_word :: "words_block \<Rightarrow> nat \<Rightarrow> string \<Rightarrow> unit res" where
  "assert_word split i w =
     rbind (blk_read split i) (\<lambda>p. case p of
       None \<Rightarrow> Inl Invalid_pointer
     | Some b \<Rightarrow> rbind (read_cstr (blk_cells b)) (\<lambda>s. assert_that (s = map of_char w)))"

definition test_msplit :: "allocator \<Rightarrow> unit res" where
  "test_msplit mal =
     rbind (msplit mal (Some (map of_char ''--file=- --debug --tcp'')) None) (\<lambda>split.
     rbind (assert_word split 0 ''--file=-'') (\<lambda>_.
     rbind (assert_word split 1 ''--debug'') (\<lambda>_.
     rbind (assert_word split 2 ''--tcp'') (\<lambda>_.
     rbind (free_msplit split) (\<lambda>_. Inr ())))))"

lemma word_block_string: "0 \<notin> set w \<Longrightarrow> read_cstr (blk_cells (word_block mal w)) = Inr w"
  by (simp add: word_block_def read_cstr_string)

lemma test_msplit_passes:
  assumes "roomy mal"
  shows "test_msplit mal = Inr ()"
proof -
  let ?ws = "[map of_char ''--file=-'', map of_char ''--debug'', map of_char ''--tcp''] :: byte list list"
  have w: "msplit_words (used_seps None) (map of_char ''--file=- --debug --tcp'') = ?ws"
    by code_simp
  obtain rest where m: "msplit mal (Some (map of_char ''--file=- --debug --tcp'')) None = Inr (result_array mal ?ws rest)"
    using msplit_ok [OF assms, of "map of_char ''--file=- --debug --tcp''" None] unfolding w
    by (auto simp: INT_MAX_def used_seps_def default_sep_def MAX_SEPARATOR_def)
  have n: "0 \<notin> set w" if "w \<in> set ?ws" for w
  proof -
    have "\<forall>w \<in> set ?ws. 0 \<notin> set w" by code_simp
    with that show ?thesis by blast
  qed
  have a: "assert_word (result_array mal ?ws rest) i t = assert_that (?ws ! i = map of_char t)" if "i < 3" for i t
  proof -
    from that have "i = 0 \<or> i = 1 \<or> i = 2" by linarith
    then have "blk_read (result_array mal ?ws rest) i = Inr (Some (word_block mal (?ws ! i)))"
      by (elim disjE) (simp_all only: result_array_def list.map append.simps blk_read.simps, simp_all)
    moreover have "0 \<notin> set (?ws ! i)" using n that by (simp only: nth_mem list.size) simp
    ultimately show ?thesis by (simp only: assert_word_def rbind.simps option.case word_block_string simp_thms)
  qed
  have p: "assert_word (result_array mal ?ws rest) 0 ''--file=-'' = Inr ()"
    "assert_word (result_array mal ?ws rest) 1 ''--debug'' = Inr ()"
    "assert_word (result_array mal ?ws rest) 2 ''--tcp'' = Inr ()"
    by (subst a, simp, simp add: assert_that_def)+
  have "free_words (result_array mal ?ws rest) 0 = Inr (Live (map (\<lambda>w. Some (Some Freed)) ?ws @ Some None # rest))"
    using free_words_ok [of "[]" mal ?ws rest] by (simp only: result_array_def list.map append_Nil list.size(3))
  then show ?thesis
    unfolding test_msplit_def m by (simp only: p free_msplit_def rbind.simps) (simp add: result_array_def)
qed

subsection \<open>test_b64_enc_dec.c\<close>

text \<open>One round of the loop; the test returns at the end of the first, so \<open>foo\<close> is the only input it
  tries.\<close>

definition test_b64 :: "(u64 \<Rightarrow> bool) \<Rightarrow> byte list \<Rightarrow> unit res" where
  "test_b64 mok input =
     rbind (mbase64_encode mok input (of_nat (length input))) (\<lambda>encoded.
     rbind (read_cstr (blk_cells encoded)) (\<lambda>s.
     rbind (mbase64_decode mok s) (\<lambda>r. case r of
       None \<Rightarrow> Inl Assert_failed
     | Some (out, output_size) \<Rightarrow>
         rbind (blk_write out (unat output_size) 0) (\<lambda>out.
         rbind (read_cstr (blk_cells out)) (\<lambda>text.
         rbind (assert_that (text = input)) (\<lambda>_.
         assert_that (output_size = of_nat (length input))))))))"

lemma test_b64_outcome:
  assumes "4 * ((length input + 2) div 3) < INT_MAX" "0 \<notin> set input"
    "mok (of_nat (4 * ((length input + 2) div 3) + 1))" "mok (of_nat (3 * ((length input + 2) div 3)))"
  shows "test_b64 mok input = (if length input mod 3 = 0 then Inl Out_of_bounds else Inr ())"
proof -
  let ?n = "of_nat (length input) :: u64"
  let ?pad = "(3 - length input mod 3) mod 3"
  have n: "unat ?n = length input"
    by (rule unat_of_nat_u64) (use assms(1) in \<open>simp add: INT_MAX_def\<close>)
  note b = mbase64_roundtrip_buffers [where mok = mok, OF n assms(1,3,4)]
  have e: "read_cstr (map Some (enc_spec input @ [0])) = Inr (enc_spec input)"
    using read_cstr_string [OF enc_spec_no_nul [of input], of "[]"] by simp
  show ?thesis
  proof (cases "length input mod 3 = 0")
    case True
    then show ?thesis using b(1,3) e n by (simp add: test_b64_def)
  next
    case False
    then have "?pad \<noteq> 0" by presburger
    then obtain k where k: "?pad = Suc k" by (rule not0_implies_Suc [THEN exE])
    have w: "blk_write (Live (map Some (input @ replicate ?pad 0))) (unat ?n) (0 :: byte) =
        Inr (Live (map Some input @ Some 0 # replicate k (Some 0)))"
      unfolding k n by (simp add: list_update_append)
    have r: "read_cstr (map Some input @ Some 0 # replicate k (Some 0)) = Inr input"
      using read_cstr_string [OF assms(2), of "replicate k (Some 0)"] by simp
    show ?thesis
      by (simp only: test_b64_def b(1,3) rbind.simps option.case prod.case blk_cells.simps e w r
          assert_that_def require_def False if_False) simp
  qed
qed

subsection \<open>test_encrypt_decrypt.c\<close>

text \<open>One round of the loop. The length given to \<open>decrypt_ssl\<close> is the \<open>strlen\<close> of the ciphertext.\<close>

definition test_encrypt_decrypt ::
  "(u64 \<Rightarrow> bool) \<Rightarrow> ('cipher, 'ctx) evp \<Rightarrow> byte list \<Rightarrow> byte list \<Rightarrow> 'cipher option \<Rightarrow> byte list \<Rightarrow> unit res" where
  "test_encrypt_decrypt mok evp key iv cipher plaintext =
     rbind (encrypt_ssl mok evp key iv cipher plaintext (int (length plaintext))) (\<lambda>r. case ssl_text r of
       None \<Rightarrow> Inl Assert_failed
     | Some crypt \<Rightarrow>
         rbind (read_cstr (blk_cells crypt)) (\<lambda>ciphertext.
         rbind (decrypt_ssl mok evp key iv cipher ciphertext (int (length ciphertext))) (\<lambda>r. case ssl_text r of
           None \<Rightarrow> Inl Assert_failed
         | Some plain \<Rightarrow>
             rbind (read_cstr (blk_cells plain)) (\<lambda>decrypted. assert_that (decrypted = plaintext)))))"

text \<open>A cipher that turns octets into as many octets, in both directions.\<close>

definition octet_stream :: "('cipher, 'ctx) evp \<Rightarrow> byte list \<Rightarrow> byte list \<Rightarrow> 'cipher option \<Rightarrow> bool" where
  "octet_stream evp key iv cipher \<longleftrightarrow> stream_cipher evp key iv cipher \<and>
     (\<forall>crypt. \<exists>text. cipher_run (swap_evp evp) (encrypt_start (swap_evp evp) key iv cipher) crypt = Some text \<and>
        length text = length crypt)"

lemma read_cstr_takeWhile:
  "read_cstr (map Some (xs @ [0]) @ rest) = Inr (takeWhile (\<lambda>c. c \<noteq> 0) xs)"
  by (induction xs) auto

lemma test_encrypt_decrypt_outcome:
  assumes "octet_stream evp key iv cipher" "evp_ctx_new evp" "plaintext \<noteq> []" "0 \<notin> set plaintext"
    "length plaintext \<le> INT_MAX" "\<And>n. mok n"
  shows "\<exists>crypt. cipher_run evp (encrypt_start evp key iv cipher) plaintext = Some crypt \<and>
    length crypt = length plaintext \<and>
    (test_encrypt_decrypt mok evp key iv cipher plaintext = Inr () \<longleftrightarrow> 0 \<notin> set crypt)"
proof -
  obtain crypt where e: "cipher_run evp (encrypt_start evp key iv cipher) plaintext = Some crypt"
    and l: "length crypt = length plaintext"
    and d: "cipher_run (swap_evp evp) (encrypt_start (swap_evp evp) key iv cipher) crypt = Some plaintext"
    using assms(1) unfolding octet_stream_def stream_cipher_def by blast
  define c where "c = takeWhile (\<lambda>c. c \<noteq> 0) crypt"
  obtain t where t: "cipher_run (swap_evp evp) (encrypt_start (swap_evp evp) key iv cipher) c = Some t" "length t = length c"
    using assms(1) unfolding octet_stream_def by blast
  have lc: "length c \<le> length plaintext" using l length_takeWhile_le [of _ crypt] by (simp add: c_def)
  obtain r1 where enc: "encrypt_ssl mok evp key iv cipher plaintext (int (length plaintext)) =
      Inr \<lparr>ssl_text = Some (Live (map Some (crypt @ [0]) @ r1)), ssl_ctx_leaked = False\<rparr>"
    using encrypt_ssl_run [where mok = mok, OF assms(5,6,2) e] assms(3) l by auto
  obtain r2 where dec: "decrypt_ssl mok evp key iv cipher c (int (length c)) =
      (if c \<noteq> [] then Inr \<lparr>ssl_text = Some (Live (map Some (t @ [0]) @ r2)), ssl_ctx_leaked = False\<rparr>
       else Inl Out_of_bounds)"
    using encrypt_ssl_run [where mok = mok, OF _ assms(6) _ t(1)] assms(2,5) lc t(2)
    unfolding decrypt_ssl_swap by auto
  have run: "test_encrypt_decrypt mok evp key iv cipher plaintext =
      (if c = [] then Inl Out_of_bounds else assert_that (takeWhile (\<lambda>c. c \<noteq> 0) t = plaintext))"
    using dec by (cases "c = []") (simp_all add: test_encrypt_decrypt_def enc read_cstr_takeWhile c_def [symmetric]
        del: map_append)
  have "test_encrypt_decrypt mok evp key iv cipher plaintext = Inr () \<longleftrightarrow> 0 \<notin> set crypt"
  proof (cases "0 \<in> set crypt")
    case True
    then have "c \<noteq> crypt" unfolding c_def by (auto simp: takeWhile_eq_all_conv)
    moreover have "c = take (length c) crypt" unfolding c_def by (rule takeWhile_eq_take)
    ultimately have "length c < length crypt" by (metis le_less_linear take_all)
    then have "length (takeWhile (\<lambda>c. c \<noteq> 0) t) < length plaintext"
      using length_takeWhile_le [of "\<lambda>c. c \<noteq> 0" t] t(2) l by simp
    then show ?thesis using True by (auto simp: run assert_that_def)
  next
    case False
    then have "c = crypt" unfolding c_def by (auto simp: takeWhile_eq_all_conv)
    with d t(1) have "t = plaintext" by simp
    moreover have "takeWhile (\<lambda>c. c \<noteq> 0) plaintext = plaintext"
      using assms(4) by (auto simp: takeWhile_eq_all_conv)
    moreover have "c \<noteq> []" using \<open>c = crypt\<close> l assms(3) by auto
    ultimately show ?thesis using False by (simp add: run assert_that_def)
  qed
  with e l show ?thesis by blast
qed

subsection \<open>test_mqueue.c\<close>

text \<open>The producer and the consumer of Perf with \<open>MAX_QUEUE\<close> (ten) items each, on a queue of that size:
  the consumer's assertions are that the items come in order, the last one that the queue is empty.\<close>

lemma test_mqueue_passes:
  assumes "mqueue_init malloc_total 5 10 (Some name) = Inr q"
    and "perf_reach 10 q s" "perf_run 10 l s s'" "\<And>s''. \<not> perf_step 10 s' s''"
  shows "received (pf_machine s') = map Some [0..<10]" "mqueue_size_int (queue (pf_machine s')) = 0"
proof -
  have b: "unat (5 :: u64) \<le> 2 ^ 60" "0 < unat (10 :: u64)" "unat (10 :: u64) \<le> 2 ^ 58" by simp_all
  note e = perf_runs_end [OF assms(1) b assms(2,3)]
  then show r: "received (pf_machine s') = map Some [0..<10]" using assms(4) by blast
  have reach: "perf_reach 10 q s'" by (rule perf_run_reach [OF assms(3,2)])
  have i: "machine_inv (pf_machine s')"
    using reachable_inv [OF perf_reach_machine [OF reach]] init_bounded [OF assms(1) b] by blast
  have p: "pf_produced s' = 10" "pcs (pf_machine s') = [Idle, Idle]" using e assms(4) by blast+
  with perf_reach_inv [OF reach] have "sent (pf_machine s') = map Some [0..<10]" by (simp add: perf_inv_def)
  then have "contents (queue (pf_machine s')) = []"
    using i r by (simp add: machine_inv_def data_inv_def)
  moreover have "mqueue_inv (queue (pf_machine s'))" using i by (simp add: machine_inv_def data_inv_def bounded_inv_def)
  ultimately show "mqueue_size_int (queue (pf_machine s')) = 0" by (simp add: size_int_eq_0)
qed

end
