(* ===== verification/Perf_Main.thy ===== *)
theory Perf_Main
  imports Perf
begin

section \<open>The benchmark's statistics (perf/perf.c, \<open>main\<close>)\<close>

text \<open>
  \<open>main\<close> runs the producer and the consumer \<open>TEST_RUNS\<close> times and prints the processor time of each run
  and an average. What \<open>getrusage\<close> answers before and after each run is an argument, and so is the
  arithmetic on \<open>double\<close>; the run of the two threads is the subject of theory Perf. The times are
  signed 64-bit numbers, whose overflow is a fault.
\<close>

definition MAX_QUEUE :: nat where
  "MAX_QUEUE = 100000"

definition TEST_RUNS :: nat where
  "TEST_RUNS = 100"

record 'd arith =
  fl_zero :: 'd
  fl_add :: "'d \<Rightarrow> 'd \<Rightarrow> 'd"
  fl_of_long :: "int \<Rightarrow> 'd"
  fl_div :: "'d \<Rightarrow> 'd \<Rightarrow> 'd"

datatype 'd perf_out =
    Perror_rusage
  | Run_took nat nat 'd    \<comment> \<open>run, items, milliseconds\<close>
  | Run_bad nat
  | Runs_average nat 'd

text \<open>\<open>ru_utime\<close>: seconds and microseconds; \<open>None\<close> when \<open>getrusage\<close> fails.\<close>

type_synonym rusage = "(int \<times> int) option"

definition long :: "int \<Rightarrow> int res" where
  "long i = (if - (2 ^ 63) \<le> i \<and> i < 2 ^ 63 then Inr i else Inl Signed_overflow)"

definition usage_diff :: "int \<times> int \<Rightarrow> int \<times> int \<Rightarrow> int res" where
  "usage_diff start_usage end_usage =
     rbind (long (fst end_usage * 1000000)) (\<lambda>a.
     rbind (long (a + snd end_usage)) (\<lambda>b.
     rbind (long (fst start_usage * 1000000)) (\<lambda>c.
     rbind (long (b - c)) (\<lambda>d.
     long (d - snd start_usage)))))"

definition perf_report :: "'d arith \<Rightarrow> nat \<Rightarrow> int \<Rightarrow> 'd \<Rightarrow> 'd perf_out \<times> 'd" where
  "perf_report fl i diff tot =
     (let mdiff = fl_div fl (fl_of_long fl diff) (fl_of_long fl 1000) in
      if diff > 0 then (Run_took i MAX_QUEUE mdiff, fl_add fl tot mdiff) else (Run_bad i, tot))"

text \<open>The \<open>continue\<close>s of the loop: nothing is run when the first call fails, and nothing reported when the
  second does.\<close>

function perf_loop :: "'d arith \<Rightarrow> (nat \<Rightarrow> rusage \<times> rusage) \<Rightarrow> nat \<Rightarrow> 'd \<Rightarrow> ('d perf_out list \<times> 'd) res" where
  "perf_loop fl usage i tot =
     (if i < TEST_RUNS then
        (case usage i of
           (Some start_usage, Some end_usage) \<Rightarrow>
             rbind (usage_diff start_usage end_usage) (\<lambda>diff.
             case perf_report fl i diff tot of (out, tot) \<Rightarrow>
             rbind (perf_loop fl usage (i + 1) tot) (\<lambda>(outs, tot). Inr (out # outs, tot)))
         | _ \<Rightarrow> rbind (perf_loop fl usage (i + 1) tot) (\<lambda>(outs, tot). Inr (Perror_rusage # outs, tot)))
      else Inr ([], tot))"
  by pat_completeness auto
termination by (relation "measure (\<lambda>(fl, usage, i, tot). TEST_RUNS - i)") auto

declare perf_loop.simps [simp del]

definition perf_main :: "'d arith \<Rightarrow> (nat \<Rightarrow> rusage \<times> rusage) \<Rightarrow> 'd perf_out list res" where
  "perf_main fl usage =
     rbind (perf_loop fl usage 0 (fl_zero fl)) (\<lambda>(outs, tot).
       Inr (outs @ [Runs_average TEST_RUNS (fl_div fl tot (fl_of_long fl (int TEST_RUNS)))]))"

text \<open>The time of a run in microseconds, without bounds, and the runs that are counted.\<close>

definition plain_diff :: "int \<times> int \<Rightarrow> int \<times> int \<Rightarrow> int" where
  "plain_diff start_usage end_usage = (fst end_usage - fst start_usage) * 1000000 + (snd end_usage - snd start_usage)"

definition run_line :: "'d arith \<Rightarrow> (nat \<Rightarrow> rusage \<times> rusage) \<Rightarrow> nat \<Rightarrow> 'd perf_out" where
  "run_line fl usage i = (case usage i of
     (Some s, Some e) \<Rightarrow> if plain_diff s e > 0
       then Run_took i MAX_QUEUE (fl_div fl (fl_of_long fl (plain_diff s e)) (fl_of_long fl 1000)) else Run_bad i
   | _ \<Rightarrow> Perror_rusage)"

fun counted :: "'d perf_out \<Rightarrow> 'd list" where
  "counted (Run_took i n ms) = [ms]" | "counted _ = []"

definition times_ok :: "int \<times> int \<Rightarrow> bool" where
  "times_ok t \<longleftrightarrow> 0 \<le> fst t \<and> fst t < 2 ^ 40 \<and> 0 \<le> snd t \<and> snd t < 1000000"

lemma usage_diff_ok: "times_ok s \<Longrightarrow> times_ok e \<Longrightarrow> usage_diff s e = Inr (plain_diff s e)"
  by (cases s; cases e) (simp add: usage_diff_def long_def times_ok_def plain_diff_def algebra_simps)

lemma perf_loop_lines:
  assumes ok: "\<And>i s e. usage i = (Some s, Some e) \<Longrightarrow> times_ok s \<and> times_ok e"
  shows "i \<le> TEST_RUNS \<Longrightarrow> perf_loop fl usage i tot =
    Inr (map (run_line fl usage) [i..<TEST_RUNS],
      foldl (fl_add fl) tot (concat (map counted (map (run_line fl usage) [i..<TEST_RUNS]))))"
proof (induction "TEST_RUNS - i" arbitrary: i tot)
  case 0
  then show ?case by (subst perf_loop.simps) simp
next
  case (Suc k)
  then have i: "i < TEST_RUNS" by simp
  then have u: "[i..<TEST_RUNS] = i # [Suc i..<TEST_RUNS]" by (simp add: upt_conv_Cons)
  have ih: "perf_loop fl usage (Suc i) t = Inr (map (run_line fl usage) [Suc i..<TEST_RUNS],
      foldl (fl_add fl) t (concat (map counted (map (run_line fl usage) [Suc i..<TEST_RUNS]))))" for t
    using Suc.hyps(2) i by (intro Suc.hyps(1)) auto
  show ?case
  proof (cases "\<exists>s e. usage i = (Some s, Some e)")
    case True
    then obtain s e where se: "usage i = (Some s, Some e)" by blast
    with ok have "usage_diff s e = Inr (plain_diff s e)" by (blast intro: usage_diff_ok)
    then show ?thesis
      unfolding u by (subst perf_loop.simps) (simp add: i se ih perf_report_def run_line_def Let_def)
  next
    case False
    then have "run_line fl usage i = Perror_rusage"
      and "(case usage i of (Some s, Some e) \<Rightarrow> f s e | _ \<Rightarrow> x) = x" for f and x :: "('a perf_out list \<times> 'a) res"
      by (auto simp: run_line_def split: option.split prod.split)
    then show ?thesis unfolding u by (subst perf_loop.simps) (simp add: i ih)
  qed
qed

text \<open>The benchmark prints one line per run, in order (the run's time, that its time was not usable,
  or that \<open>getrusage\<close> failed), and then what it calls the average: the sum of the times that were
  usable, divided by the number of all runs.\<close>

theorem perf_main_average:
  assumes "\<And>i s e. usage i = (Some s, Some e) \<Longrightarrow> times_ok s \<and> times_ok e"
  shows "perf_main fl usage = Inr (map (run_line fl usage) [0..<TEST_RUNS] @
    [Runs_average TEST_RUNS (fl_div fl
      (foldl (fl_add fl) (fl_zero fl) (concat (map (counted \<circ> run_line fl usage) [0..<TEST_RUNS])))
      (fl_of_long fl (int TEST_RUNS)))])"
  using perf_loop_lines [of usage 0 fl "fl_zero fl", OF assms] by (simp add: perf_main_def)

text \<open>One run of 200 ms and 99 that could not be measured: an average of 2 ms.\<close>

theorem perf_main_average_witness:
  "\<exists>outs. perf_main \<lparr>fl_zero = 0, fl_add = (+), fl_of_long = id, fl_div = (div)\<rparr>
      (\<lambda>i. if i = 99 then (Some (1, 0), Some (1, 200000)) else (None, None)) = Inr (outs @ [Runs_average 100 (2 :: int)])"
proof -
  let ?fl = "\<lparr>fl_zero = 0, fl_add = (+), fl_of_long = id, fl_div = (div)\<rparr> :: int arith"
  let ?u = "\<lambda>i. if i = 99 then (Some (1, 0), Some (1, 200000)) else (None, None)"
  have "concat (map (counted \<circ> run_line ?fl ?u) [0..<99]) = []"
    by (simp add: run_line_def)
  moreover have "[0..<TEST_RUNS] = [0..<99] @ [99]" by (simp add: TEST_RUNS_def flip: upt_Suc_append)
  ultimately have "concat (map (counted \<circ> run_line ?fl ?u) [0..<TEST_RUNS]) = [200]"
    by (simp add: run_line_def plain_diff_def)
  then show ?thesis
    using perf_main_average [of ?u ?fl] by (fastforce simp: times_ok_def TEST_RUNS_def split: if_splits)
qed

end
