(* ===== verification/Decimal.thy ===== *)
theory Decimal
  imports Prelude "HOL-Library.Char_ord"
begin

section \<open>Decimal numbers\<close>

text \<open>
  What \<open>%d\<close> of the \<open>printf\<close> family writes for an \<open>int\<close>, the number read back, and the bounds on its
  length the callers' buffers rely on.
\<close>

definition digit :: "nat \<Rightarrow> char" where
  "digit d = char_of (48 + d)"

fun dec_nat :: "nat \<Rightarrow> string" where
  "dec_nat n = (if n < 10 then [digit n] else dec_nat (n div 10) @ [digit (n mod 10)])"

declare dec_nat.simps [simp del]

definition dec_int :: "int \<Rightarrow> string" where
  "dec_int i = (if i < 0 then CHR ''-'' # dec_nat (nat (- i)) else dec_nat (nat i))"

text \<open>Reading.\<close>

definition undec_nat :: "string \<Rightarrow> nat" where
  "undec_nat s = foldl (\<lambda>a c. 10 * a + (of_char c - 48)) 0 s"

definition undec_int :: "string \<Rightarrow> int" where
  "undec_int s = (if take 1 s = ''-'' then - int (undec_nat (tl s)) else int (undec_nat s))"

lemma of_char_digit: "d < 10 \<Longrightarrow> of_char (digit d) = 48 + d"
  by (simp add: digit_def)

lemma undec_dec_nat [simp]: "undec_nat (dec_nat n) = n"
proof (induction n rule: dec_nat.induct)
  case (1 n)
  then show ?case
    by (subst dec_nat.simps) (auto simp: undec_nat_def of_char_digit)
qed

lemma dec_nat_digits: "c \<in> set (dec_nat n) \<Longrightarrow> c \<in> digit ` {0..<10}"
proof (induction n rule: dec_nat.induct)
  case (1 n)
  then show ?case by (subst (asm) dec_nat.simps) (auto split: if_splits)
qed

lemma digit_char: "d < 10 \<Longrightarrow> of_char c < (48 :: nat) \<Longrightarrow> digit d \<noteq> c"
  using of_char_digit [of d] by auto

lemma dec_nat_no: "of_char c < (48 :: nat) \<Longrightarrow> c \<notin> set (dec_nat n)"
  using dec_nat_digits [of c n] digit_char [of _ c] by fastforce

lemma dec_int_no: "of_char c < (48 :: nat) \<Longrightarrow> c \<noteq> CHR ''-'' \<Longrightarrow> c \<notin> set (dec_int i)"
  by (simp add: dec_int_def dec_nat_no)

lemma dec_nat_nonempty [simp]: "dec_nat n \<noteq> []"
  by (subst dec_nat.simps) simp

lemma undec_dec_int [simp]: "undec_int (dec_int i) = i"
proof -
  have "take 1 (dec_nat n) \<noteq> ''-''" for n
    using dec_nat_no [of "CHR ''-''" n] by (cases "dec_nat n") auto
  then show ?thesis by (auto simp: undec_int_def dec_int_def)
qed

lemma length_dec_nat: "n < 10 ^ k \<Longrightarrow> 0 < k \<Longrightarrow> length (dec_nat n) \<le> k"
proof (induction n arbitrary: k rule: dec_nat.induct)
  case (1 n)
  show ?case
  proof (cases "n < 10")
    case True
    then show ?thesis using 1 by (subst dec_nat.simps) simp
  next
    case False
    with 1 have "1 < k" by (cases "k = 1") auto
    then obtain j where k: "k = Suc j" "0 < j" by (cases k) auto
    with 1 have "n div 10 < 10 ^ j" by (simp add: less_mult_imp_div_less mult.commute)
    with 1 False k have "length (dec_nat (n div 10)) \<le> j" by blast
    then show ?thesis using False k by (subst dec_nat.simps) simp
  qed
qed

text \<open>An \<open>int\<close> takes at most eleven characters.\<close>

lemma length_dec_int: "\<bar>i\<bar> \<le> 2 ^ 31 \<Longrightarrow> length (dec_int i) \<le> 11"
proof -
  assume "\<bar>i\<bar> \<le> 2 ^ 31"
  then have "nat (- i) < 10 ^ 10" "nat i < 10 ^ 10" by auto
  then show ?thesis
    using length_dec_nat [of "nat (- i)" 10] length_dec_nat [of "nat i" 10] by (simp add: dec_int_def)
qed

text \<open>A list of fields separated by dots.\<close>

fun split_dots :: "string \<Rightarrow> string list" where
  "split_dots [] = [[]]"
| "split_dots (c # cs) = (if c = CHR ''.'' then [] # split_dots cs
     else (case split_dots cs of [] \<Rightarrow> [[c]] | w # ws \<Rightarrow> (c # w) # ws))"

lemma split_dots_last: "CHR ''.'' \<notin> set w \<Longrightarrow> split_dots w = [w]"
  by (induction w) auto

lemma split_dots_field: "CHR ''.'' \<notin> set w \<Longrightarrow> split_dots (w @ CHR ''.'' # r) = w # split_dots r"
  by (induction w) auto

end
