(* ===== verification/Mdebug.thy ===== *)
theory Mdebug
  imports Decimal Mutex
begin

section \<open>Debug output (mdebug.c, mdebug.h)\<close>

text \<open>
  \<open>dbg_printf\<close> writes a message to the error stream in three calls of \<open>fprintf\<close>. The text of the time
  (what \<open>strftime\<close> makes of \<open>%c\<close>), the thread id and the formatted message are arguments; the writes are
  the result. In the build with \<open>MIKELIBC_THREADS\<close> one mutex keeps the writes of a message
  together; the machine below has a thread write them one by one.
\<close>

subsection \<open>One message\<close>

text \<open>The macro \<open>swerr\<close>: nothing for a true value, else a message; the flag is whether the call of
  \<open>fprintf\<close> returned a positive number.\<close>

definition swerr :: "int \<Rightarrow> string \<Rightarrow> int \<Rightarrow> (string \<Rightarrow> int) \<Rightarrow> int \<times> string list" where
  "swerr f fname lineno fprintf =
     (if f \<noteq> 0 then (0, [])
      else let text = ''libesdb SWERR: File -> '' @ fname @ '', Line -> '' @ dec_int lineno @ [CHR 0x0A]
        in (of_bool (fprintf text > 0), [text]))"

definition TSTAMP_SIZE :: nat where
  "TSTAMP_SIZE = 1024"

text \<open>\<open>strftime\<close> into an array of that size: a text that does not fit with its NUL leaves it with
  unspecified contents, which the \<open>fprintf\<close> then reads.\<close>

definition timestamp :: "string \<Rightarrow> string res" where
  "timestamp now = (if length now < TSTAMP_SIZE then Inr now else Inl Uninit_read)"

text \<open>The writes; \<open>tid\<close> is given in the build with threads only.\<close>

definition dbg_printf :: "string \<Rightarrow> int option \<Rightarrow> string \<Rightarrow> int \<Rightarrow> string \<Rightarrow> string list res" where
  "dbg_printf now tid fname lineno msg =
     rbind (timestamp now) (\<lambda>ts. Inr
       [ts @ (case tid of None \<Rightarrow> '' [DEBUG] '' | Some t \<Rightarrow> '' ['' @ dec_int t @ ''] [DEBUG] ''),
        ''['' @ fname @ '':'' @ dec_int lineno @ ''] '',
        msg])"

subsection \<open>Threads\<close>

text \<open>A call, and where a thread is in one: about to take \<open>mdebug_mutex\<close>, or inside it with the writes left.\<close>

datatype dbg_pc =
    Dbg_out
  | Dbg_lock string int string
  | Dbg_write "string list"

record dbg_machine =
  dbg_mutex :: "nat option"
  dbg_pcs :: "dbg_pc list"
  dbg_err :: "string list"
  dbg_failed :: "fault option"
  dbg_calls :: "(string list) list"   \<comment> \<open>ghost: the messages, in the order the mutex was taken\<close>

fun dbg_holds :: "dbg_pc \<Rightarrow> bool" where
  "dbg_holds (Dbg_write ws) = True"
| "dbg_holds _ = False"

definition at_dbg :: "dbg_machine \<Rightarrow> nat \<Rightarrow> dbg_pc \<Rightarrow> bool" where
  "at_dbg s i p \<longleftrightarrow> i < length (dbg_pcs s) \<and> dbg_pcs s ! i = p"

definition goto_dbg :: "nat \<Rightarrow> dbg_pc \<Rightarrow> dbg_machine \<Rightarrow> dbg_machine" where
  "goto_dbg i p s = s\<lparr>dbg_pcs := (dbg_pcs s)[i := p]\<rparr>"

text \<open>A call; taking the mutex, after which the time is read; one write; the release of the mutex.\<close>

inductive dbg_step :: "dbg_machine \<Rightarrow> dbg_machine \<Rightarrow> bool" where
  dbg_call: "at_dbg s i Dbg_out \<Longrightarrow> dbg_step s (goto_dbg i (Dbg_lock fname lineno msg) s)"
| dbg_enter: "at_dbg s i (Dbg_lock fname lineno msg) \<Longrightarrow> dbg_mutex s = None \<Longrightarrow>
     dbg_printf now (Some tid) fname lineno msg = Inr ws \<Longrightarrow>
     dbg_step s (goto_dbg i (Dbg_write ws) (s\<lparr>dbg_mutex := Some i, dbg_calls := dbg_calls s @ [ws]\<rparr>))"
| dbg_fault: "at_dbg s i (Dbg_lock fname lineno msg) \<Longrightarrow> dbg_mutex s = None \<Longrightarrow>
     dbg_printf now (Some tid) fname lineno msg = Inl e \<Longrightarrow>
     dbg_step s (s\<lparr>dbg_failed := Some e\<rparr>)"
| dbg_write: "at_dbg s i (Dbg_write (w # ws)) \<Longrightarrow>
     dbg_step s (goto_dbg i (Dbg_write ws) (s\<lparr>dbg_err := dbg_err s @ [w]\<rparr>))"
| dbg_leave: "at_dbg s i (Dbg_write []) \<Longrightarrow>
     dbg_step s (goto_dbg i Dbg_out (s\<lparr>dbg_mutex := None\<rparr>))"

definition dbg_start :: "nat \<Rightarrow> dbg_machine" where
  "dbg_start n = \<lparr>dbg_mutex = None, dbg_pcs = replicate n Dbg_out, dbg_err = [], dbg_failed = None, dbg_calls = []\<rparr>"

inductive_cases dbg_stepE: "dbg_step s s'"

lemma dbg_fields [simp]:
  "dbg_mutex (goto_dbg i p s) = dbg_mutex s" "dbg_err (goto_dbg i p s) = dbg_err s"
  "dbg_calls (goto_dbg i p s) = dbg_calls s" "dbg_pcs (goto_dbg i p s) = (dbg_pcs s)[i := p]"
  by (simp_all add: goto_dbg_def)

text \<open>What the thread inside the mutex has still to write.\<close>

definition left_to_write :: "dbg_machine \<Rightarrow> string list" where
  "left_to_write s = (case dbg_mutex s of
     None \<Rightarrow> []
   | Some i \<Rightarrow> (case dbg_pcs s ! i of Dbg_write ws \<Rightarrow> ws | _ \<Rightarrow> []))"

definition is_message :: "string list \<Rightarrow> bool" where
  "is_message ws \<longleftrightarrow> (\<exists>now tid fname lineno msg. dbg_printf now (Some tid) fname lineno msg = Inr ws)"

definition dbg_inv :: "dbg_machine \<Rightarrow> bool" where
  "dbg_inv s \<longleftrightarrow> owner_ok dbg_holds (dbg_mutex s) (dbg_pcs s) \<and>
     dbg_err s @ left_to_write s = concat (dbg_calls s) \<and>
     (\<forall>ws \<in> set (dbg_calls s). is_message ws)"

lemma dbg_writer:
  "dbg_inv s \<Longrightarrow> at_dbg s i (Dbg_write ws) \<Longrightarrow> dbg_mutex s = Some i \<and> left_to_write s = ws"
  using owner_holds [of dbg_holds "dbg_mutex s" "dbg_pcs s" i]
  by (simp add: dbg_inv_def at_dbg_def left_to_write_def)

lemma left_to_write_other:
  "owner_ok dbg_holds (dbg_mutex s) (dbg_pcs s) \<Longrightarrow> at_dbg s i q \<Longrightarrow> \<not> dbg_holds q \<Longrightarrow>
     left_to_write (goto_dbg i p s) = left_to_write s"
  using owner_holds [of dbg_holds "dbg_mutex s" "dbg_pcs s" i]
  by (auto simp: left_to_write_def at_dbg_def split: option.split)

lemma dbg_inv_step:
  assumes "dbg_step s s'" "dbg_inv s"
  shows "dbg_inv s'"
  using assms(1)
proof (rule dbg_stepE)
  fix i fname lineno msg
  assume a: "s' = goto_dbg i (Dbg_lock fname lineno msg) s" "at_dbg s i Dbg_out"
  then show ?thesis
    using assms(2) left_to_write_other [of s i Dbg_out]
    by (simp add: dbg_inv_def at_dbg_def owner_keep)
next
  fix i fname lineno msg now tid ws
  assume "s' = goto_dbg i (Dbg_write ws) (s\<lparr>dbg_mutex := Some i, dbg_calls := dbg_calls s @ [ws]\<rparr>)"
    "at_dbg s i (Dbg_lock fname lineno msg)" "dbg_mutex s = None"
    "dbg_printf now (Some tid) fname lineno msg = Inr ws"
  moreover from this have "is_message ws" unfolding is_message_def by blast
  ultimately show ?thesis
    using assms(2) by (simp add: dbg_inv_def at_dbg_def owner_acquire left_to_write_def)
next
  fix i w ws
  assume a: "s' = goto_dbg i (Dbg_write ws) (s\<lparr>dbg_err := dbg_err s @ [w]\<rparr>)" "at_dbg s i (Dbg_write (w # ws))"
  then show ?thesis
    using assms(2) dbg_writer [OF assms(2) a(2)]
    by (simp add: dbg_inv_def at_dbg_def owner_keep left_to_write_def)
next
  fix i
  assume a: "s' = goto_dbg i Dbg_out (s\<lparr>dbg_mutex := None\<rparr>)" "at_dbg s i (Dbg_write [])"
  then show ?thesis
    using assms(2) dbg_writer [OF assms(2) a(2)]
    by (simp add: dbg_inv_def at_dbg_def owner_release [of _ "Some i"] left_to_write_def)
qed (use assms(2) in \<open>auto simp: dbg_inv_def left_to_write_def\<close>)

lemma dbg_inv_reach: "dbg_step\<^sup>*\<^sup>* s s' \<Longrightarrow> dbg_inv s \<Longrightarrow> dbg_inv s'"
  by (induction rule: rtranclp.induct) (auto intro: dbg_inv_step)

lemma dbg_inv_start: "dbg_inv (dbg_start n)"
  by (simp add: dbg_inv_def dbg_start_def owner_idle left_to_write_def)

text \<open>C33: debug messages of different threads never mix. However the calls interleave, the error stream
  holds whole messages, one after the other in the order in which the mutex was taken, except that the
  thread inside the mutex may have part of the last one left to write.\<close>

theorem dbg_messages_whole:
  assumes "dbg_step\<^sup>*\<^sup>* (dbg_start n) s"
  shows "dbg_err s @ left_to_write s = concat (dbg_calls s) \<and>
    (dbg_mutex s = None \<longrightarrow> dbg_err s = concat (dbg_calls s)) \<and> (\<forall>ws \<in> set (dbg_calls s). is_message ws)"
  using dbg_inv_reach [OF assms dbg_inv_start] by (auto simp: dbg_inv_def left_to_write_def)

text \<open>Thread 0 is after its first write; thread 1 waits.\<close>

theorem dbg_messages_whole_witness:
  "\<exists>s. dbg_step\<^sup>*\<^sup>* (dbg_start 2) s \<and> dbg_pcs s ! 1 = Dbg_lock ''b.c'' 2 ''two'' \<and> dbg_err s = [''now [7] [DEBUG] ''] \<and>
     dbg_err s @ left_to_write s = [''now [7] [DEBUG] '', ''[a.c:1] '', ''one'']"
proof -
  let ?s1 = "goto_dbg 0 (Dbg_lock ''a.c'' 1 ''one'') (dbg_start 2)"
  let ?s2 = "goto_dbg 1 (Dbg_lock ''b.c'' 2 ''two'') ?s1"
  let ?ws = "[''now [7] [DEBUG] '', ''[a.c:1] '', ''one'']"
  let ?s3 = "goto_dbg 0 (Dbg_write ?ws) (?s2\<lparr>dbg_mutex := Some 0, dbg_calls := dbg_calls ?s2 @ [?ws]\<rparr>)"
  let ?s4 = "goto_dbg 0 (Dbg_write (tl ?ws)) (?s3\<lparr>dbg_err := dbg_err ?s3 @ [hd ?ws]\<rparr>)"
  have d: "dec_int 7 = ''7''" "dec_int 1 = ''1''"
    by code_simp+
  have "dbg_step (dbg_start 2) ?s1" "dbg_step ?s1 ?s2"
    by (rule dbg_step.dbg_call, simp add: at_dbg_def dbg_start_def)+
  moreover have "dbg_printf ''now'' (Some 7) ''a.c'' 1 ''one'' = Inr ?ws"
    by (simp add: dbg_printf_def timestamp_def TSTAMP_SIZE_def d)
  then have "dbg_step ?s2 ?s3"
    by (intro dbg_step.dbg_enter) (simp_all add: at_dbg_def dbg_start_def)
  moreover have "dbg_step ?s3 ?s4"
    unfolding list.sel by (rule dbg_step.dbg_write) (simp add: at_dbg_def dbg_start_def)
  ultimately have r: "dbg_step\<^sup>*\<^sup>* (dbg_start 2) ?s4" by (meson rtranclp.intros)
  have "dbg_calls ?s4 = [?ws]" "dbg_err ?s4 = [''now [7] [DEBUG] '']" "dbg_pcs ?s4 ! 1 = Dbg_lock ''b.c'' 2 ''two''"
    by (simp_all add: dbg_start_def)
  with dbg_messages_whole [OF r] r show ?thesis by (intro exI [of _ ?s4]) (simp del: dbg_fields)
qed

end
