(* ===== verification/Version.thy ===== *)
theory Version
  imports Decimal
begin

section \<open>The version functions (mikelib.c)\<close>

text \<open>
  The three numbers come from the config.h that cmake writes; they are arguments. \<open>version_buffer\<close> is a
  static array of 256 bytes, so zero before the first call.
\<close>

definition version_buffer :: "byte block" where
  "version_buffer = Live (replicate 256 (Some 0))"

definition mikelib_version_i :: "int \<Rightarrow> int \<Rightarrow> int \<Rightarrow> int list" where
  "mikelib_version_i major minor patch = [major, minor, patch]"

text \<open>\<open>sprintf\<close> writes the characters and a NUL, from the start of the buffer. The result is the buffer.\<close>

definition get_mikelib_version_s :: "int \<Rightarrow> int \<Rightarrow> int \<Rightarrow> byte block \<Rightarrow> byte block res" where
  "get_mikelib_version_s major minor patch buffer =
     write_at buffer 0 (map of_char (dec_int major @ ''.'' @ dec_int minor @ ''.'' @ dec_int patch) @ [0])"

definition get_mikelib_version_i :: "int \<Rightarrow> int \<Rightarrow> int \<Rightarrow> int list" where
  "get_mikelib_version_i major minor patch = mikelib_version_i major minor patch"

text \<open>The numbers of a version string.\<close>

definition parse_version :: "byte list \<Rightarrow> int list" where
  "parse_version s = map undec_int (split_dots (map (\<lambda>b. char_of (unat b)) s))"

lemma char_of_byte [simp]: "char_of (unat (of_char c :: byte)) = c"
proof -
  have "unat (of_nat (of_char c) :: byte) = of_char c"
    by (simp add: unsigned_of_nat take_bit_nat_eq_self del: of_nat_of_char)
  then have "unat (of_char c :: byte) = of_char c" unfolding of_nat_of_char .
  then show ?thesis by simp
qed

lemma parse_version_text:
  "parse_version (map of_char (dec_int a @ ''.'' @ dec_int b @ ''.'' @ dec_int c)) = [a, b, c]"
proof -
  have n: "CHR ''.'' \<notin> set (dec_int i)" for i by (rule dec_int_no) simp_all
  have "map (\<lambda>b. char_of (unat b)) (map of_char s :: byte list) = s" for s
    by (induction s) simp_all
  then show ?thesis
    unfolding parse_version_def using n by (simp only:) (simp add: split_dots_field split_dots_last)
qed

text \<open>Whatever the three version numbers (any \<open>int\<close>s), and however often it was called before,
  \<open>get_mikelib_version_s\<close> stays inside its buffer and leaves a NUL-terminated string there, from
  which the numbers \<open>get_mikelib_version_i\<close> gives can be read back.\<close>

theorem version_string_readable:
  assumes "\<bar>major\<bar> \<le> 2 ^ 31" "\<bar>minor\<bar> \<le> 2 ^ 31" "\<bar>patch\<bar> \<le> 2 ^ 31" "length buffer = 256" "initialised buffer"
  shows "\<exists>buf. get_mikelib_version_s major minor patch (Live buffer) = Inr (Live buf) \<and> length buf = 256 \<and>
    initialised buf \<and> parse_version (c_string (Live buf)) = get_mikelib_version_i major minor patch"
proof -
  define t where "t = dec_int major @ ''.'' @ dec_int minor @ ''.'' @ dec_int patch"
  define cs where "cs = (map of_char t @ [0] :: byte list)"
  have l: "length cs \<le> 36"
    using length_dec_int [OF assms(1)] length_dec_int [OF assms(2)] length_dec_int [OF assms(3)]
    by (simp add: cs_def t_def)
  then have w: "get_mikelib_version_s major minor patch (Live buffer) =
      Inr (Live (map Some cs @ drop (length cs) buffer))"
    using assms(4) write_at_ok [of 0 cs buffer] by (simp add: get_mikelib_version_s_def cs_def t_def)
  have no: "(0 :: byte) \<notin> set (map of_char t)"
  proof -
    have "char_of (0 :: nat) \<noteq> CHR ''-''" "char_of (0 :: nat) \<noteq> CHR ''.''"
      by (auto dest: arg_cong [where f = "of_char :: char \<Rightarrow> nat"])
    then have "char_of (0 :: nat) \<notin> set t"
      by (auto simp: t_def dest: dec_int_no [THEN notE, rotated 2])
    moreover have "c = char_of (0 :: nat)" if "of_char c = (0 :: byte)" for c
      using char_of_byte [of c] that by simp
    ultimately show ?thesis by (auto simp: image_iff)
  qed
  obtain rest where r: "drop (length cs) buffer = map Some rest"
    using assms(5) initialised_iff_map_Some
    by (metis append_take_drop_id initialised_simps(3))
  have "c_string (Live (map Some cs @ drop (length cs) buffer)) = map of_char t"
    using c_string_terminated [OF no, of rest] unfolding r by (simp add: cs_def)
  then have "parse_version (c_string (Live (map Some cs @ drop (length cs) buffer))) = [major, minor, patch]"
    using parse_version_text by (simp add: t_def)
  moreover have "length (map Some cs @ drop (length cs) buffer) = 256" using l assms(4) by simp
  moreover have "initialised (map Some cs @ drop (length cs) buffer)" unfolding r by simp
  ultimately show ?thesis
    using w unfolding get_mikelib_version_i_def mikelib_version_i_def by blast
qed

theorem version_string_readable_witness:
  "\<exists>buf. get_mikelib_version_s 0 3 (-1) version_buffer = Inr (Live buf) \<and> parse_version (c_string (Live buf)) = [0, 3, - 1]"
proof -
  have "list_all (\<lambda>c. c \<noteq> None) (replicate 256 (Some (0 :: byte)))" by (simp add: list_all_iff)
  then show ?thesis
    using version_string_readable [of 0 3 "-1" "replicate 256 (Some 0)"]
    by (auto simp: version_buffer_def get_mikelib_version_i_def mikelib_version_i_def initialised_def)
qed

end
