(* ===== verification/Btree.thy ===== *)
theory Btree
  imports Linked_List "HOL-Library.Tree"
begin

section \<open>The integer tree of madt.c (\<open>mbtree_int_node_t\<close>)\<close>

text \<open>
  Nodes on a heap, the constructor, the destructor and the traversal. \<open>malloc\<close> hands out the
  address it is given as argument (\<open>None\<close> for NULL, which the constructor does not check). The
  traversal prints one line per visit: its result is the list of the printed values, \<open>None\<close> when it
  never returns (a cyclic heap).
\<close>

record mbtree_node =
  bt_value :: int
  bt_left :: ptr
  bt_right :: ptr

definition new_mbtree_int_node ::
  "ptr \<Rightarrow> int \<Rightarrow> mbtree_node heap \<Rightarrow> (addr \<times> mbtree_node heap) res" where
  "new_mbtree_int_node malloced v h =
     (case malloced of
        None \<Rightarrow> Inl Null_deref
      | Some a \<Rightarrow> Inr (a, h(a \<mapsto> \<lparr>bt_value = v, bt_left = None, bt_right = None\<rparr>)))"

definition free_mbtree_int_node :: "ptr \<Rightarrow> mbtree_node heap \<Rightarrow> mbtree_node heap res" where
  "free_mbtree_int_node p h =
     (case p of
        None \<Rightarrow> Inr h
      | Some a \<Rightarrow> (case h a of None \<Rightarrow> Inl Double_free | Some n \<Rightarrow> Inr (h(a := None))))"

text \<open>The two recursive calls are those of the source: \<open>root->left\<close> both times.\<close>

partial_function (option) mbtree_int_inorder_traversal ::
  "mbtree_node heap \<Rightarrow> ptr \<Rightarrow> int list res option" where
  "mbtree_int_inorder_traversal h root =
     (case root of
        None \<Rightarrow> Some (Inr [])
      | Some a \<Rightarrow> (case h a of
          None \<Rightarrow> Some (Inl Invalid_pointer)
        | Some n \<Rightarrow>
            Option.bind (mbtree_int_inorder_traversal h (bt_left n)) (\<lambda>r1.
            Option.bind (mbtree_int_inorder_traversal h (bt_left n)) (\<lambda>r2.
            Some (rbind r1 (\<lambda>out1. rbind r2 (\<lambda>out2. Inr (out1 @ bt_value n # out2))))))))"

subsection \<open>The tree a pointer leads to\<close>

fun is_tree :: "mbtree_node heap \<Rightarrow> ptr \<Rightarrow> int tree \<Rightarrow> bool" where
  "is_tree h p Leaf \<longleftrightarrow> p = None"
| "is_tree h p (Node l v r) \<longleftrightarrow>
     (case p of None \<Rightarrow> False | Some a \<Rightarrow> (case h a of None \<Rightarrow> False
      | Some n \<Rightarrow> bt_value n = v \<and> is_tree h (bt_left n) l \<and> is_tree h (bt_right n) r))"

text \<open>What the code prints for a tree.\<close>

fun left_twice :: "'v tree \<Rightarrow> 'v list" where
  "left_twice Leaf = []"
| "left_twice (Node l v r) = left_twice l @ v # left_twice l"

fun spine :: "'v tree \<Rightarrow> nat" where
  "spine Leaf = 0"
| "spine (Node l v r) = Suc (spine l)"

lemma traversal_left_twice:
  "is_tree h p t \<Longrightarrow> mbtree_int_inorder_traversal h p = Some (Inr (left_twice t))"
proof (induction t arbitrary: p)
  case Leaf
  then show ?case by (simp add: mbtree_int_inorder_traversal.simps)
next
  case (Node l v r)
  then obtain a n where "p = Some a" "h a = Some n" "bt_value n = v" "is_tree h (bt_left n) l"
    by (auto split: option.splits)
  with Node.IH(1) show ?case by (simp add: mbtree_int_inorder_traversal.simps [of h "Some a"])
qed

lemma length_left_twice: "length (left_twice t) + 1 = 2 ^ spine t"
  by (induction t) auto

lemma set_left_twice: "set (left_twice t) \<subseteq> set (inorder t)"
  by (induction t) auto

lemma left_twice_inorder_iff:
  assumes "distinct (inorder t)"
  shows "left_twice t = inorder t \<longleftrightarrow> size t \<le> 1"
proof (cases t)
  case Leaf
  then show ?thesis by simp
next
  case (Node l v r)
  show ?thesis
  proof (cases "l = Leaf")
    case True
    have "inorder r = [] \<longleftrightarrow> r = Leaf" by (cases r) auto
    with Node True show ?thesis by (cases r) auto
  next
    case False
    then obtain l' w r' where l: "l = Node l' w r'" by (cases l) auto
    then have "\<not> distinct (left_twice t)" using Node by auto
    with assms have "left_twice t \<noteq> inorder t" by auto
    moreover have "1 < size t" using Node l by simp
    ultimately show ?thesis by simp
  qed
qed

subsection \<open>The properties of the tree functions\<close>

text \<open>C20: On every finite tree the traversal returns, and what it prints is, at each node, the
  left subtree, the value and the left subtree again: a node in a right subtree is never printed.
  For \<open>k\<close> nodes on the left spine it prints \<open>2 ^ k - 1\<close> lines, and for distinct values the output
  is the in-order sequence only for trees of at most one node.\<close>

theorem mbtree_inorder_traversal_output:
  assumes "is_tree h p t"
  shows "\<exists>out. mbtree_int_inorder_traversal h p = Some (Inr out) \<and> out = left_twice t \<and>
     length out + 1 = 2 ^ spine t \<and>
     (distinct (inorder t) \<longrightarrow> (out = inorder t \<longleftrightarrow> size t \<le> 1))"
  using traversal_left_twice [OF assms] length_left_twice [of t] left_twice_inorder_iff [of t] by auto

text \<open>The tree with 1 left and 3 right of 2.\<close>

definition sample_tree :: "mbtree_node heap" where
  "sample_tree = [5 \<mapsto> \<lparr>bt_value = 2, bt_left = Some 6, bt_right = Some 7\<rparr>,
     6 \<mapsto> \<lparr>bt_value = 1, bt_left = None, bt_right = None\<rparr>,
     7 \<mapsto> \<lparr>bt_value = 3, bt_left = None, bt_right = None\<rparr>]"

theorem mbtree_inorder_traversal_output_witness:
  "mbtree_int_inorder_traversal sample_tree (Some 5) = Some (Inr [1, 2, 1])"
  using mbtree_inorder_traversal_output
    [of sample_tree "Some 5" "Node (Node Leaf 1 Leaf) 2 (Node Leaf 3 Leaf)"]
  by (simp add: sample_tree_def)

text \<open>A node made by the constructor is a tree of that one value, is printed once, and freeing it
  gives back the heap it was made in; freeing it again is a double free, freeing NULL does nothing.
  When \<open>malloc\<close> fails, the constructor writes through NULL.\<close>

theorem mbtree_node_lifecycle:
  assumes "h a = None" and "new_mbtree_int_node (Some a) v h = Inr (b, h')"
  shows "is_tree h' (Some b) (Node Leaf v Leaf) \<and>
     mbtree_int_inorder_traversal h' (Some b) = Some (Inr [v]) \<and>
     free_mbtree_int_node (Some b) h' = Inr h \<and>
     free_mbtree_int_node (Some b) h = Inl Double_free \<and>
     free_mbtree_int_node None h = Inr h \<and>
     new_mbtree_int_node None v h = Inl Null_deref"
proof -
  from assms have b: "b = a" "h' = h(a \<mapsto> \<lparr>bt_value = v, bt_left = None, bt_right = None\<rparr>)"
    by (auto simp: new_mbtree_int_node_def)
  then have t: "is_tree h' (Some b) (Node Leaf v Leaf)" by simp
  from traversal_left_twice [OF t] t b assms(1) show ?thesis
    by (auto simp: new_mbtree_int_node_def free_mbtree_int_node_def)
qed

theorem mbtree_node_lifecycle_witness:
  "\<exists>h'. new_mbtree_int_node (Some 3) 42 Map.empty = Inr (3, h') \<and>
     mbtree_int_inorder_traversal h' (Some 3) = Some (Inr [42]) \<and>
     free_mbtree_int_node (Some 3) h' = Inr Map.empty"
proof -
  obtain h' where n: "new_mbtree_int_node (Some 3) 42 Map.empty = Inr (3, h')"
    by (simp add: new_mbtree_int_node_def)
  from mbtree_node_lifecycle [OF _ n] n show ?thesis by auto
qed

end
