(* ===== verification/Mlog.thy ===== *)
theory Mlog
  imports Linked_List
begin

section \<open>Loggers (mlog.c, mlog.h)\<close>

text \<open>
  The registry of loggers: a linked list of \<open>malloc\<close>ed records, searched and changed with the
  macros of madt.h, the handle counter, the number of loggers and the default handle, as one
  state record; the output is a list of events. The time stamp text, the formatted message, the
  result of \<open>malloc\<close> and the success of \<open>fopen\<close> are arguments: they come from libc and the
  environment. Functions return \<open>None\<close> when a search of the list does not end, and a fault for
  a failed assertion, an invalid pointer or an overflow of the handle counter.
\<close>

subsection \<open>Types\<close>

definition MAX_LOG :: nat where
  "MAX_LOG = 4096"

text \<open>\<open>Other_type\<close> is a value that is none of the five of the enumeration.\<close>

datatype loggertype = MLOG_NONE | MLOG_STDOUT | MLOG_SYSLOG | MLOG_FILE | MLOG_STDERR | Other_type int

text \<open>The severities: an enumeration with gaps, compared by its unsigned value.\<close>

datatype logseverity = Severity (sev_value: u32)

instantiation logseverity :: linorder
begin

definition less_eq_logseverity :: "logseverity \<Rightarrow> logseverity \<Rightarrow> bool" where
  "less_eq_logseverity a b \<longleftrightarrow> sev_value a \<le> sev_value b"

definition less_logseverity :: "logseverity \<Rightarrow> logseverity \<Rightarrow> bool" where
  "less_logseverity a b \<longleftrightarrow> sev_value a < sev_value b"

instance
  by intro_classes (auto simp: less_eq_logseverity_def less_logseverity_def logseverity.expand)

end

definition MLOG_TRACE :: logseverity where
  "MLOG_TRACE = Severity 0"

definition MLOG_DEBUG :: logseverity where
  "MLOG_DEBUG = Severity 10"

definition MLOG_INFO :: logseverity where
  "MLOG_INFO = Severity 20"

definition MLOG_WARNING :: logseverity where
  "MLOG_WARNING = Severity 30"

definition MLOG_ERROR :: logseverity where
  "MLOG_ERROR = Severity 40"

definition MLOG_CRITICAL :: logseverity where
  "MLOG_CRITICAL = Severity 50"

lemmas severity_defs =
  MLOG_TRACE_def MLOG_DEBUG_def MLOG_INFO_def MLOG_WARNING_def MLOG_ERROR_def MLOG_CRITICAL_def

datatype logtime = NONE | LOCNOZONE | LOCWZONE | UTC

text \<open>A \<open>FILE *\<close>: a standard stream or what \<open>fopen\<close> gave for a path.\<close>

datatype stream = Stdout | Stderr | Opened string

text \<open>Callbacks are named by a number; \<open>cb_data\<close> is an opaque pointer.\<close>

type_synonym handle = int
type_synonym callback = nat

record mlog =
  lg_type :: loggertype
  lg_severity :: logseverity
  lg_logtime :: logtime
  lg_handle :: handle
  lg_path :: ptr
  lg_logfile :: "stream option"
  lg_callback :: "callback option"
  lg_cb_data :: ptr
  lg_next :: ptr

definition set_lg_next :: "ptr \<Rightarrow> mlog \<Rightarrow> mlog" where
  "set_lg_next p l = l\<lparr>lg_next := p\<rparr>"

interpretation lg: linked lg_next set_lg_next
  by unfold_locales (simp_all add: set_lg_next_def)

text \<open>What the code does to the outside, one event per library call. \<open>Print_int\<close> is an \<open>fprintf\<close>
  whose format ends in \<open>%d\<close> and a newline.\<close>

datatype event =
    Print stream string
  | Print_int stream string int
  | Perror string
  | Fopen string
  | Callback callback logseverity string ptr

record mlog_state =
  ms_heap :: "mlog heap"
  mloggers :: ptr
  next_handle :: nat
  nloggers :: u32
  g_handle :: handle
  ms_out :: "event list"

definition mlog_init :: mlog_state where
  "mlog_init = \<lparr>ms_heap = Map.empty, mloggers = None, next_handle = 0, nloggers = 0, g_handle = -1, ms_out = []\<rparr>"

definition emit :: "event list \<Rightarrow> mlog_state \<Rightarrow> mlog_state" where
  "emit es s = s\<lparr>ms_out := ms_out s @ es\<rparr>"

definition newline :: string where
  "newline = [CHR 0x0A]"

subsection \<open>Writing a message\<close>

definition severity_label :: "logseverity \<Rightarrow> string" where
  "severity_label severity =
     (if severity = MLOG_TRACE then ''ALL: ''
      else if severity = MLOG_DEBUG then ''DEBUG: ''
      else if severity = MLOG_INFO then ''INFO: ''
      else if severity = MLOG_WARNING then ''WARNING: ''
      else if severity = MLOG_ERROR then ''ERROR: ''
      else if severity = MLOG_CRITICAL then ''CRITICAL: ''
      else ''LOG: '')"

text \<open>The format given to \<open>strftime\<close>.\<close>

fun time_format :: "logtime \<Rightarrow> string" where
  "time_format LOCNOZONE = ''%a %b %e %H:%M:%S''"
| "time_format UTC = ''%a %b %e %H:%M:%S''"
| "time_format LOCWZONE = ''%a %b %e %H:%M:%S %Z (UTC%z) %Y''"
| "time_format NONE = []"

text \<open>\<open>strftime fmt utc\<close> is the text libc makes of the current time, in UTC (\<open>gmtime\<close>) or not;
  with these formats it fits the 128 bytes of \<open>timebuf\<close>.\<close>

type_synonym strftime_fun = "string \<Rightarrow> bool \<Rightarrow> string"

definition write_line ::
  "strftime_fun \<Rightarrow> mlog \<Rightarrow> logseverity \<Rightarrow> string \<Rightarrow> mlog_state \<Rightarrow> mlog_state res" where
  "write_line strftime logger severity msg s =
     (case lg_logfile logger of
        None \<Rightarrow> Inl Assert_failed
      | Some f \<Rightarrow>
          Inr (emit
            ((if lg_logtime logger \<noteq> NONE
              then [Print f (strftime (time_format (lg_logtime logger)) (lg_logtime logger = UTC) @ '' '')] else []) @
             (if lg_logtime logger = UTC then [Print f ''UTC ''] else []) @
             [Print f (severity_label severity), Print f msg, Print f newline]) s))"

definition vmlogf ::
  "strftime_fun \<Rightarrow> ptr \<Rightarrow> logseverity \<Rightarrow> string \<Rightarrow> mlog_state \<Rightarrow> mlog_state res" where
  "vmlogf strftime logger severity msg s =
     (case logger of
        None \<Rightarrow> Inl Assert_failed
      | Some a \<Rightarrow> (case ms_heap s a of
          None \<Rightarrow> Inl Invalid_pointer
        | Some l \<Rightarrow>
            if severity < lg_severity l then Inr s
            else (case lg_callback l of
              Some cb \<Rightarrow> Inr (emit [Callback cb (lg_severity l) (take (MAX_LOG - 1) msg) (lg_cb_data l)] s)
            | None \<Rightarrow> (case lg_type l of
                MLOG_NONE \<Rightarrow> Inr s
              | MLOG_SYSLOG \<Rightarrow> write_line strftime l severity msg
                  (emit [Print Stderr (''Warning: syslog support not implemented.'' @ newline)] s)
              | MLOG_STDOUT \<Rightarrow> write_line strftime l severity msg s
              | MLOG_STDERR \<Rightarrow> write_line strftime l severity msg s
              | MLOG_FILE \<Rightarrow> write_line strftime l severity msg s
              | Other_type t \<Rightarrow> Inr (emit [Print_int Stderr ''Unsupported logger type: '' t] s)))))"

subsection \<open>Finding a logger and changing it\<close>

definition mlogger_check :: "handle \<Rightarrow> mlog \<Rightarrow> bool" where
  "mlogger_check handle current \<longleftrightarrow> lg_handle current = handle"

definition find_mlogger :: "handle \<Rightarrow> mlog_state \<Rightarrow> ptr prog" where
  "find_mlogger handle s = mlinked_list_find lg_next mlogger_check handle (ms_heap s) (mloggers s)"

text \<open>A write to fields of the logger at an address.\<close>

definition set_logger :: "addr \<Rightarrow> (mlog \<Rightarrow> mlog) \<Rightarrow> mlog_state \<Rightarrow> mlog_state" where
  "set_logger a f s = s\<lparr>ms_heap := (ms_heap s)(a := map_option f (ms_heap s a))\<rparr>"

definition mlogf ::
  "strftime_fun \<Rightarrow> handle \<Rightarrow> logseverity \<Rightarrow> string \<Rightarrow> mlog_state \<Rightarrow> mlog_state prog" where
  "mlogf strftime handle severity msg s =
     (if handle < 0 then ret s
      else pbind (find_mlogger handle s) (\<lambda>logger.
        if logger \<noteq> None then Some (vmlogf strftime logger severity msg s)
        else ret (emit [Print_int Stderr ''Bad logging handle: '' handle] s)))"

definition setloggertime :: "handle \<Rightarrow> logtime \<Rightarrow> mlog_state \<Rightarrow> mlog_state prog" where
  "setloggertime handle tstype s =
     pbind (find_mlogger handle s) (\<lambda>logger.
       case logger of
         Some a \<Rightarrow> ret (set_logger a (\<lambda>l. l\<lparr>lg_logtime := tstype\<rparr>) s)
       | None \<Rightarrow> ret (emit [Print_int Stderr ''Invalid logger handle: '' handle] s))"

definition setloggertype ::
  "(string \<Rightarrow> bool) \<Rightarrow> handle \<Rightarrow> loggertype \<Rightarrow> string option \<Rightarrow> mlog_state \<Rightarrow> (bool \<times> mlog_state) prog" where
  "setloggertype fopen handle type path s =
     pbind (find_mlogger handle s) (\<lambda>logger.
       case logger of
         Some a \<Rightarrow>
           (let s = set_logger a (\<lambda>l. l\<lparr>lg_type := type\<rparr>) s in
            if type = MLOG_FILE then
              (case path of
                 Some p \<Rightarrow>
                   (let s = emit [Fopen p] s in
                    if fopen p then ret (True, set_logger a (\<lambda>l. l\<lparr>lg_logfile := Some (Opened p)\<rparr>) s)
                    else ret (False, set_logger a (\<lambda>l. l\<lparr>lg_type := MLOG_NONE\<rparr>)
                      (emit [Perror ''logfile''] (set_logger a (\<lambda>l. l\<lparr>lg_logfile := None\<rparr>) s))))
               | None \<Rightarrow>
                   ret (False, emit [Print Stderr (''Warning: Requested file logger, but path is NULL'' @ newline)] s))
            else if type = MLOG_STDERR then
              ret (True, set_logger a (\<lambda>l. l\<lparr>lg_logfile := Some Stderr\<rparr>) s)
            else ret (True, set_logger a (\<lambda>l. l\<lparr>lg_logfile := Some Stdout\<rparr>) s))
       | None \<Rightarrow> ret (False, emit [Print_int Stderr ''Invalid logger handle '' handle] s))"

definition setloggersev :: "handle \<Rightarrow> logseverity \<Rightarrow> mlog_state \<Rightarrow> mlog_state prog" where
  "setloggersev handle severity s =
     pbind (find_mlogger handle s) (\<lambda>logger.
       case logger of
         Some a \<Rightarrow> ret (set_logger a (\<lambda>l. l\<lparr>lg_severity := severity\<rparr>) s)
       | None \<Rightarrow> ret (emit [Print_int Stderr ''Invalid logger handle '' handle] s))"

definition register_mlog_callback ::
  "handle \<Rightarrow> callback option \<Rightarrow> ptr \<Rightarrow> mlog_state \<Rightarrow> mlog_state prog" where
  "register_mlog_callback handle cb_fn_ptr cb_ptr s =
     pbind (find_mlogger handle s) (\<lambda>logger.
       case logger of
         Some a \<Rightarrow> ret (set_logger a (\<lambda>l. l\<lparr>lg_callback := cb_fn_ptr, lg_cb_data := cb_ptr\<rparr>) s)
       | None \<Rightarrow> ret (emit [Print_int Stderr ''Invalid logger handle '' handle] s))"

subsection \<open>Creating and shutting down loggers\<close>

text \<open>The address is what \<open>malloc\<close> returned.\<close>

definition get_mlogger ::
  "(string \<Rightarrow> bool) \<Rightarrow> ptr \<Rightarrow> loggertype \<Rightarrow> logseverity \<Rightarrow> logtime \<Rightarrow> mlog_state \<Rightarrow> (handle \<times> mlog_state) prog" where
  "get_mlogger fopen new_logger type severity logtime s =
     (case new_logger of
        None \<Rightarrow> ret (-1, emit [Print Stderr (''FATAL: malloc returned NULL'' @ newline)] s)
      | Some new \<Rightarrow>
          let handle = int (next_handle s);
              l = \<lparr>lg_type = type, lg_severity = severity, lg_logtime = logtime, lg_handle = handle,
                   lg_path = None, lg_logfile = None, lg_callback = None, lg_cb_data = None, lg_next = None\<rparr>;
              h = (ms_heap s)(new \<mapsto> l)
          in pbind (Some (int_add (next_handle s) 1)) (\<lambda>next'.
             pbind (mlinked_list_add lg_next set_lg_next h (mloggers s) new) (\<lambda>(start, current, h).
             let s = s\<lparr>ms_heap := h, mloggers := start, next_handle := next', nloggers := nloggers s + 1\<rparr>;
                 s = (if g_handle s < 0 then s\<lparr>g_handle := 0\<rparr> else s)
             in pbind (setloggertype fopen handle type None s) (\<lambda>(_, s). ret (handle, s)))))"

text \<open>The part of \<open>shutdown_mlogger\<close> before the record is freed: \<open>freenode\<close> and the list without it.\<close>

definition shutdown_unlink :: "handle \<Rightarrow> mlog_state \<Rightarrow> (ptr \<times> mlog_state) prog" where
  "shutdown_unlink handle s =
     pbind (mlinked_list_remove lg_next set_lg_next mlogger_check handle
       \<lparr>lv_hp = ms_heap s, lv_start = mloggers s, lv_current = None, lv_previous = None, lv_freenode = None\<rparr>) (\<lambda>v.
     ret (lv_freenode v, s\<lparr>ms_heap := lv_hp v, mloggers := lv_start v\<rparr>))"

definition shutdown_mlogger :: "handle \<Rightarrow> mlog_state \<Rightarrow> (bool \<times> mlog_state) prog" where
  "shutdown_mlogger handle s =
     pbind (shutdown_unlink handle s) (\<lambda>(freenode, s).
     case freenode of
       None \<Rightarrow> ret (False, s)
     | Some a \<Rightarrow>
         if ms_heap s a = None then Some (Inl Double_free)
         else let s = s\<lparr>ms_heap := (ms_heap s)(a := None), nloggers := nloggers s - 1\<rparr>
           in ret (True, if nloggers s = 0 then s\<lparr>g_handle := -1\<rparr> else s))"

partial_function (option) shutdown_all_loop :: "ptr \<Rightarrow> ptr \<Rightarrow> mlog_state \<Rightarrow> mlog_state prog" where
  "shutdown_all_loop current previous s =
     (case current of
        None \<Rightarrow> Some (Inr s)
      | Some c \<Rightarrow> (case ms_heap s c of
          None \<Rightarrow> Some (Inl Invalid_pointer)
        | Some l \<Rightarrow> (case previous of
            None \<Rightarrow> shutdown_all_loop (lg_next l) (lg_next l) (s\<lparr>nloggers := nloggers s - 1\<rparr>)
          | Some p \<Rightarrow>
              if ms_heap s p = None then Some (Inl Double_free)
              else shutdown_all_loop (lg_next l) (lg_next l)
                (s\<lparr>ms_heap := (ms_heap s)(p := None), nloggers := nloggers s - 1\<rparr>))))"

definition shutdown_all_mloggers :: "mlog_state \<Rightarrow> mlog_state prog" where
  "shutdown_all_mloggers s =
     pbind (shutdown_all_loop (mloggers s) (mloggers s) s) (\<lambda>s.
       if nloggers s = 0 then ret (s\<lparr>g_handle := -1, mloggers := None\<rparr>) else Some (Inl Assert_failed))"

text \<open>The macros that log to the default handle.\<close>

definition mdebugf :: "strftime_fun \<Rightarrow> string \<Rightarrow> mlog_state \<Rightarrow> mlog_state prog" where
  "mdebugf strftime msg s = mlogf strftime (g_handle s) MLOG_DEBUG msg s"

definition minfof :: "strftime_fun \<Rightarrow> string \<Rightarrow> mlog_state \<Rightarrow> mlog_state prog" where
  "minfof strftime msg s = mlogf strftime (g_handle s) MLOG_INFO msg s"

definition mwarningf :: "strftime_fun \<Rightarrow> string \<Rightarrow> mlog_state \<Rightarrow> mlog_state prog" where
  "mwarningf strftime msg s = mlogf strftime (g_handle s) MLOG_WARNING msg s"

definition merrorf :: "strftime_fun \<Rightarrow> string \<Rightarrow> mlog_state \<Rightarrow> mlog_state prog" where
  "merrorf strftime msg s = mlogf strftime (g_handle s) MLOG_ERROR msg s"

definition mcriticalf :: "strftime_fun \<Rightarrow> string \<Rightarrow> mlog_state \<Rightarrow> mlog_state prog" where
  "mcriticalf strftime msg s = mlogf strftime (g_handle s) MLOG_CRITICAL msg s"

end
