(* ===== verification/Mlog_Spec.thy ===== *)
theory Mlog_Spec
  imports Mlog
begin

section \<open>Loggers: specification and correctness\<close>

text \<open>
  The registry of mlog.c refines a list of loggers in order of creation: call by call, the linked
  list, the counters and the default handle represent it, no memory outside the list is live,
  and calls on one logger leave the others alone.
\<close>

subsection \<open>The registry as a list of loggers\<close>

text \<open>
  The specification: the loggers in order of creation without their links, the next handle
  and the output.
\<close>

record log_spec =
  sp_loggers :: "mlog list"
  sp_next :: nat
  sp_out :: "event list"

definition spec_init :: log_spec where
  "spec_init = \<lparr>sp_loggers = [], sp_next = 0, sp_out = []\<rparr>"

definition spec_find :: "handle \<Rightarrow> log_spec \<Rightarrow> mlog option" where
  "spec_find handle sp = List.find (mlogger_check handle) (sp_loggers sp)"

definition spec_update :: "handle \<Rightarrow> (mlog \<Rightarrow> mlog) \<Rightarrow> log_spec \<Rightarrow> log_spec" where
  "spec_update handle f sp =
     sp\<lparr>sp_loggers := map (\<lambda>l. if mlogger_check handle l then f l else l) (sp_loggers sp)\<rparr>"

definition spec_emit :: "event list \<Rightarrow> log_spec \<Rightarrow> log_spec" where
  "spec_emit es sp = sp\<lparr>sp_out := sp_out sp @ es\<rparr>"

text \<open>What a logger does with a message.\<close>

definition line_events :: "strftime_fun \<Rightarrow> mlog \<Rightarrow> logseverity \<Rightarrow> string \<Rightarrow> event list res" where
  "line_events strftime l severity msg =
     (case lg_logfile l of
        None \<Rightarrow> Inl Assert_failed
      | Some f \<Rightarrow> Inr (map (Print f)
          ((case lg_logtime l of
              NONE \<Rightarrow> []
            | UTC \<Rightarrow> [strftime (time_format UTC) True @ '' '', ''UTC '']
            | t \<Rightarrow> [strftime (time_format t) False @ '' ''])
           @ [severity_label severity, msg, newline])))"

definition message_events :: "strftime_fun \<Rightarrow> mlog \<Rightarrow> logseverity \<Rightarrow> string \<Rightarrow> event list res" where
  "message_events strftime l severity msg =
     (if severity < lg_severity l then Inr []
      else case lg_callback l of
        Some cb \<Rightarrow> Inr [Callback cb (lg_severity l) (take (MAX_LOG - 1) msg) (lg_cb_data l)]
      | None \<Rightarrow> (case lg_type l of
          MLOG_NONE \<Rightarrow> Inr []
        | Other_type t \<Rightarrow> Inr [Print_int Stderr ''Unsupported logger type: '' t]
        | MLOG_SYSLOG \<Rightarrow> rbind (line_events strftime l severity msg) (\<lambda>es.
            Inr (Print Stderr (''Warning: syslog support not implemented.'' @ newline) # es))
        | _ \<Rightarrow> line_events strftime l severity msg))"

definition spec_mlogf ::
  "strftime_fun \<Rightarrow> handle \<Rightarrow> logseverity \<Rightarrow> string \<Rightarrow> log_spec \<Rightarrow> log_spec res" where
  "spec_mlogf strftime handle severity msg sp =
     (if handle < 0 then Inr sp
      else case spec_find handle sp of
        None \<Rightarrow> Inr (spec_emit [Print_int Stderr ''Bad logging handle: '' handle] sp)
      | Some l \<Rightarrow> rbind (message_events strftime l severity msg) (\<lambda>es. Inr (spec_emit es sp)))"

text \<open>The default handle: \<open>0\<close> while there is a logger.\<close>

definition spec_default :: "log_spec \<Rightarrow> handle" where
  "spec_default sp = (if sp_loggers sp = [] then -1 else 0)"

text \<open>What \<open>setloggertype\<close> does to a logger: the change, the output and the result.\<close>

definition retype ::
  "(string \<Rightarrow> bool) \<Rightarrow> loggertype \<Rightarrow> string option \<Rightarrow> (mlog \<Rightarrow> mlog) \<times> event list \<times> bool" where
  "retype fopen type path =
     (if type = MLOG_FILE then
        (case path of
           None \<Rightarrow> (\<lambda>l. l\<lparr>lg_type := MLOG_FILE\<rparr>,
             [Print Stderr (''Warning: Requested file logger, but path is NULL'' @ newline)], False)
         | Some p \<Rightarrow>
             if fopen p then (\<lambda>l. l\<lparr>lg_type := MLOG_FILE, lg_logfile := Some (Opened p)\<rparr>, [Fopen p], True)
             else (\<lambda>l. l\<lparr>lg_logfile := None, lg_type := MLOG_NONE\<rparr>, [Fopen p, Perror ''logfile''], False))
      else (\<lambda>l. l\<lparr>lg_type := type, lg_logfile := Some (if type = MLOG_STDERR then Stderr else Stdout)\<rparr>, [], True))"

definition spec_set ::
  "string \<Rightarrow> handle \<Rightarrow> (mlog \<Rightarrow> mlog) \<times> event list \<times> bool \<Rightarrow> log_spec \<Rightarrow> bool \<times> log_spec" where
  "spec_set bad handle change sp =
     (case spec_find handle sp of
        None \<Rightarrow> (False, spec_emit [Print_int Stderr bad handle] sp)
      | Some l \<Rightarrow> (case change of (f, es, ok) \<Rightarrow> (ok, spec_emit es (spec_update handle f sp))))"

definition spec_get ::
  "(string \<Rightarrow> bool) \<Rightarrow> bool \<Rightarrow> loggertype \<Rightarrow> logseverity \<Rightarrow> logtime \<Rightarrow> log_spec \<Rightarrow> (handle \<times> log_spec) res" where
  "spec_get fopen mok type severity logtime sp =
     (if \<not> mok then Inr (-1, spec_emit [Print Stderr (''FATAL: malloc returned NULL'' @ newline)] sp)
      else if INT_MAX \<le> sp_next sp then Inl Signed_overflow
      else case retype fopen type None of (f, es, ok) \<Rightarrow>
        Inr (int (sp_next sp),
          spec_emit es (sp\<lparr>sp_loggers := sp_loggers sp @
            [f \<lparr>lg_type = type, lg_severity = severity, lg_logtime = logtime, lg_handle = int (sp_next sp),
                lg_path = None, lg_logfile = None, lg_callback = None, lg_cb_data = None, lg_next = None\<rparr>],
            sp_next := sp_next sp + 1\<rparr>)))"

definition spec_shutdown :: "handle \<Rightarrow> log_spec \<Rightarrow> bool \<times> log_spec" where
  "spec_shutdown handle sp =
     (spec_find handle sp \<noteq> None, sp\<lparr>sp_loggers := filter (\<lambda>l. \<not> mlogger_check handle l) (sp_loggers sp)\<rparr>)"

subsection \<open>Representation\<close>

text \<open>The list of the records at \<open>as\<close> holds the loggers of the specification; other memory may be live.\<close>

definition registry :: "addr list \<Rightarrow> mlog_state \<Rightarrow> log_spec \<Rightarrow> bool" where
  "registry as s sp \<longleftrightarrow>
     lst lg_next (ms_heap s) (mloggers s) as \<and>
     map Some (sp_loggers sp) = map (erase set_lg_next (ms_heap s)) as \<and>
     next_handle s = sp_next sp \<and> ms_out s = sp_out sp"

text \<open>Between calls there is no other memory, and the count and the default handle agree with the list.\<close>

definition represents :: "addr list \<Rightarrow> mlog_state \<Rightarrow> log_spec \<Rightarrow> bool" where
  "represents as s sp \<longleftrightarrow>
     registry as s sp \<and> dom (ms_heap s) = set as \<and> unat (nloggers s) = length as \<and>
     g_handle s = spec_default sp"

definition spec_wf :: "log_spec \<Rightarrow> bool" where
  "spec_wf sp \<longleftrightarrow> sorted_wrt (<) (map lg_handle (sp_loggers sp)) \<and>
     (\<forall>k \<in> set (map lg_handle (sp_loggers sp)). 0 \<le> k \<and> k < int (sp_next sp)) \<and> sp_next sp \<le> INT_MAX"

definition mlog_rel :: "mlog_state \<Rightarrow> log_spec \<Rightarrow> bool" where
  "mlog_rel s sp \<longleftrightarrow> spec_wf sp \<and> (\<exists>as. represents as s sp)"

lemma represents_registry: "represents as s sp \<Longrightarrow> registry as s sp"
  by (simp add: represents_def)

lemma registry_length: "registry as s sp \<Longrightarrow> length (sp_loggers sp) = length as"
  unfolding registry_def by (metis length_map)

lemma registry_nth:
  assumes "registry as s sp" "i < length as"
  shows "\<exists>l. ms_heap s (as ! i) = Some l \<and> sp_loggers sp ! i = set_lg_next None l"
proof -
  have "map Some (sp_loggers sp) ! i = map (erase set_lg_next (ms_heap s)) as ! i"
    using assms(1) by (simp add: registry_def)
  then show ?thesis
    using assms registry_length [OF assms(1)]
    by (cases "ms_heap s (as ! i)") (auto simp: erase_def)
qed

lemma check_set_next [simp]: "mlogger_check h (set_lg_next p l) = mlogger_check h l"
  by (simp add: mlogger_check_def set_lg_next_def)

lemma hits_nth:
  assumes "registry as s sp" "i < length as"
  shows "hits mlogger_check h (ms_heap s) (as ! i) = mlogger_check h (sp_loggers sp ! i)"
  using registry_nth [OF assms] by (auto simp: hits_def)

lemma registry_distinct: "registry as s sp \<Longrightarrow> distinct as"
  by (auto simp: registry_def intro: lst_distinct)

lemma handles_unique:
  assumes "spec_wf sp" "i < length (sp_loggers sp)" "j < length (sp_loggers sp)"
    "mlogger_check h (sp_loggers sp ! i)" "mlogger_check h (sp_loggers sp ! j)"
  shows "i = j"
proof -
  have "distinct (map lg_handle (sp_loggers sp))"
    using assms(1) strict_sorted_iff unfolding spec_wf_def by blast
  then show ?thesis
    using assms by (auto simp: mlogger_check_def distinct_conv_nth)
qed

text \<open>A search in the state and in the specification.\<close>

lemma find_mlogger_cases:
  assumes r: "registry as s sp" and w: "spec_wf sp"
  obtains (missing) "find_mlogger h s = ret None" "spec_find h sp = None"
      "filter (hits mlogger_check h (ms_heap s)) as = []"
  | (found) i l where "i < length as" "find_mlogger h s = ret (Some (as ! i))"
      "ms_heap s (as ! i) = Some l" "spec_find h sp = Some (set_lg_next None l)"
      "sp_loggers sp ! i = set_lg_next None l" "lg_handle l = h"
proof -
  have f: "find_mlogger h s = ret (List.find (hits mlogger_check h (ms_heap s)) as)"
    using r unfolding find_mlogger_def registry_def by (blast intro: lg.mlinked_list_find_ok)
  note len = registry_length [OF r]
  show thesis
  proof (cases "List.find (hits mlogger_check h (ms_heap s)) as")
    case None
    then have no: "\<not> hits mlogger_check h (ms_heap s) (as ! i)" if "i < length as" for i
      using that by (auto simp: find_None_iff)
    then have "spec_find h sp = None"
      unfolding spec_find_def find_None_iff
      using hits_nth [OF r] len by (metis in_set_conv_nth)
    moreover have "filter (hits mlogger_check h (ms_heap s)) as = []"
      using None by (auto simp: find_None_iff filter_empty_conv)
    ultimately show thesis using None f missing by simp
  next
    case (Some a)
    then obtain i where i: "i < length as" "a = as ! i" "hits mlogger_check h (ms_heap s) a"
      by (auto simp: find_Some_iff)
    obtain l where l: "ms_heap s (as ! i) = Some l" "sp_loggers sp ! i = set_lg_next None l"
      using registry_nth [OF r i(1)] by blast
    have c: "mlogger_check h (sp_loggers sp ! i)"
      using hits_nth [OF r i(1)] i by simp
    have "\<not> mlogger_check h (sp_loggers sp ! j)" if "j < i" for j
      using handles_unique [OF w, of i j h] c i that len by auto
    then have "spec_find h sp = Some (sp_loggers sp ! i)"
      unfolding spec_find_def find_Some_iff using c i len by auto
    moreover have "lg_handle l = h"
      using c l by (simp add: mlogger_check_def set_lg_next_def)
    ultimately show thesis using found [OF i(1)] f Some i l by simp
  qed
qed

lemmas rep_defs = represents_def registry_def
lemmas represents_length = registry_length [OF represents_registry]
lemmas represents_distinct = registry_distinct [OF represents_registry]

subsection \<open>Changing a logger\<close>

definition keeps_links :: "(mlog \<Rightarrow> mlog) \<Rightarrow> bool" where
  "keeps_links f \<longleftrightarrow> (\<forall>p l. f (set_lg_next p l) = set_lg_next p (f l)) \<and>
     (\<forall>l. lg_handle (f l) = lg_handle l) \<and> (\<forall>l. lg_next (f l) = lg_next l)"

lemma set_logger_simps [simp]:
  "set_logger a f (emit es s) = emit es (set_logger a f s)"
  "set_logger a f (set_logger a g s) = set_logger a (\<lambda>l. f (g l)) s"
  "emit es (emit ds s) = emit (ds @ es) s" "emit [] s = s"
  by (simp_all add: set_logger_def emit_def option.map_comp comp_def)

lemma lst_same_next:
  "h a = Some n \<Longrightarrow> lg_next m = lg_next n \<Longrightarrow> lst lg_next (h(a \<mapsto> m)) p as = lst lg_next h p as"
  by (induction as arbitrary: p) (auto split: option.splits)

lemma spec_wf_update: "keeps_links f \<Longrightarrow> spec_wf (spec_update h f sp) = spec_wf sp"
proof -
  assume "keeps_links f"
  then have "map lg_handle (sp_loggers (spec_update h f sp)) = map lg_handle (sp_loggers sp)"
    by (auto simp: spec_update_def keeps_links_def)
  moreover have "sp_next (spec_update h f sp) = sp_next sp"
    by (simp add: spec_update_def)
  ultimately show ?thesis by (simp only: spec_wf_def)
qed

lemma registry_update:
  assumes r: "registry as s sp" and w: "spec_wf sp" and k: "keeps_links f"
    and i: "i < length as" "ms_heap s (as ! i) = Some l" "lg_handle l = h"
  shows "registry as (set_logger (as ! i) f s) (spec_update h f sp)"
proof -
  note len = registry_length [OF r]
  have c: "mlogger_check h (sp_loggers sp ! i)"
    using registry_nth [OF r i(1)] i by (auto simp: mlogger_check_def set_lg_next_def)
  have "map Some (sp_loggers (spec_update h f sp)) ! j =
      map (erase set_lg_next (ms_heap (set_logger (as ! i) f s))) as ! j" if j: "j < length as" for j
  proof (cases "j = i")
    case True
    then show ?thesis
      using registry_nth [OF r i(1)] c i k len
      by (auto simp: spec_update_def set_logger_def erase_def keeps_links_def)
  next
    case False
    then have "\<not> mlogger_check h (sp_loggers sp ! j)"
      using handles_unique [OF w, of i j h] c i len j by auto
    moreover have "as ! j \<noteq> as ! i"
      using False registry_distinct [OF r] i(1) j by (simp add: nth_eq_iff_index_eq)
    ultimately show ?thesis
      using registry_nth [OF r j] len j by (auto simp: spec_update_def set_logger_def erase_def)
  qed
  then have "map Some (sp_loggers (spec_update h f sp)) =
      map (erase set_lg_next (ms_heap (set_logger (as ! i) f s))) as"
    using len by (intro nth_equalityI) (simp_all add: spec_update_def)
  moreover have "lg_next (f l) = lg_next l" using k by (simp add: keeps_links_def)
  ultimately show ?thesis
    using r i by (auto simp: registry_def set_logger_def lst_same_next spec_update_def)
qed

lemma registry_emit: "registry as s sp \<Longrightarrow> registry as (emit es s) (spec_emit es sp)"
  by (simp add: registry_def emit_def spec_emit_def)

text \<open>What writing to a logger and output leave alone.\<close>

lemma set_logger_fields [simp]:
  "dom (ms_heap (set_logger a f s)) = dom (ms_heap s)" "nloggers (set_logger a f s) = nloggers s"
  "g_handle (set_logger a f s) = g_handle s"
  by (auto simp: set_logger_def dom_def)

lemma emit_fields [simp]:
  "ms_heap (emit es s) = ms_heap s" "nloggers (emit es s) = nloggers s" "g_handle (emit es s) = g_handle s"
  by (simp_all add: emit_def)

lemma spec_default_simps [simp]:
  "spec_default (spec_emit es sp) = spec_default sp" "spec_default (spec_update h f sp) = spec_default sp"
  by (simp_all add: spec_default_def spec_emit_def spec_update_def)

lemma represents_emit: "represents as s sp \<Longrightarrow> represents as (emit es s) (spec_emit es sp)"
  by (simp add: represents_def registry_emit)

lemma spec_wf_emit [simp]: "spec_wf (spec_emit es sp) = spec_wf sp"
  by (simp add: spec_wf_def spec_emit_def)

lemma mlog_rel_emit: "mlog_rel s sp \<Longrightarrow> mlog_rel (emit es s) (spec_emit es sp)"
  unfolding mlog_rel_def by (simp, blast intro: represents_emit)

text \<open>The functions that look a logger up and change it.\<close>

lemma registry_set:
  assumes r: "registry as s sp" and w: "spec_wf sp" and change: "keeps_links f"
  shows "(case spec_find h sp of
      None \<Rightarrow> find_mlogger h s = ret None
    | Some l \<Rightarrow> \<exists>a. find_mlogger h s = ret (Some a) \<and>
        registry as (emit es (set_logger a f s)) (spec_emit es (spec_update h f sp)))"
proof (cases rule: find_mlogger_cases [OF r w, of h])
  case found: (2 i l)
  then show ?thesis
    using registry_emit [OF registry_update [OF r w change found(1,3,6)], of es] by auto
qed auto

lemma mlog_rel_set:
  assumes rel: "mlog_rel s sp" and change: "keeps_links f"
  shows "(case spec_find h sp of
      None \<Rightarrow> find_mlogger h s = ret None
    | Some l \<Rightarrow> \<exists>a. find_mlogger h s = ret (Some a) \<and>
        mlog_rel (emit es (set_logger a f s)) (spec_emit es (spec_update h f sp)))"
proof -
  from rel obtain as where r: "represents as s sp" and w: "spec_wf sp"
    by (auto simp: mlog_rel_def)
  show ?thesis
    using registry_set [OF represents_registry [OF r] w change, of h es] r w spec_wf_update [OF change, of h sp]
    by (auto simp: mlog_rel_def represents_def split: option.splits)
qed

lemma keeps_retype: "retype fopen type path = (f, es, ok) \<Longrightarrow> keeps_links f"
  by (auto simp: retype_def keeps_links_def set_lg_next_def split: if_splits option.splits)

lemma setloggertype_retype:
  "setloggertype fopen h type path s =
     pbind (find_mlogger h s) (\<lambda>logger. case logger of
         Some a \<Rightarrow> (case retype fopen type path of (f, es, ok) \<Rightarrow> ret (ok, emit es (set_logger a f s)))
       | None \<Rightarrow> ret (False, emit [Print_int Stderr ''Invalid logger handle '' h] s))"
  unfolding setloggertype_def
  by (rule arg_cong [where f = "pbind (find_mlogger h s)"])
    (auto simp: fun_eq_iff retype_def Let_def split: option.splits)

lemma setloggertype_registry:
  assumes "registry as s sp" "spec_wf sp"
  shows "\<exists>ok s'. setloggertype fopen h type path s = ret (ok, s') \<and>
    fst (spec_set ''Invalid logger handle '' h (retype fopen type path) sp) = ok \<and>
    registry as s' (snd (spec_set ''Invalid logger handle '' h (retype fopen type path) sp)) \<and>
    dom (ms_heap s') = dom (ms_heap s) \<and> nloggers s' = nloggers s \<and> g_handle s' = g_handle s"
proof -
  obtain f es ok where f: "retype fopen type path = (f, es, ok)" by (rule prod_cases3)
  show ?thesis
    using registry_set [OF assms keeps_retype [OF f], of h es] registry_emit [OF assms(1)]
    by (auto simp: setloggertype_retype f spec_set_def split: option.splits)
qed

lemma spec_wf_set: "spec_wf sp \<Longrightarrow> keeps_links (fst change) \<Longrightarrow> spec_wf (snd (spec_set bad h change sp))"
  by (auto simp: spec_set_def spec_wf_update split: option.split prod.splits)

lemma spec_default_set [simp]: "spec_default (snd (spec_set bad h change sp)) = spec_default sp"
  by (simp add: spec_set_def split: option.split prod.splits)

lemma setloggertype_refines:
  assumes "mlog_rel s sp"
  shows "\<exists>ok s'. setloggertype fopen h type path s = ret (ok, s') \<and>
    fst (spec_set ''Invalid logger handle '' h (retype fopen type path) sp) = ok \<and>
    mlog_rel s' (snd (spec_set ''Invalid logger handle '' h (retype fopen type path) sp))"
proof -
  from assms obtain as where r: "represents as s sp" and w: "spec_wf sp"
    by (auto simp: mlog_rel_def)
  have "spec_wf (snd (spec_set ''Invalid logger handle '' h (retype fopen type path) sp))"
    using keeps_retype [of fopen type path] by (intro spec_wf_set [OF w]) (metis prod.collapse)
  then show ?thesis
    using setloggertype_registry [OF represents_registry [OF r] w, of fopen h type path] r
    by (auto simp: mlog_rel_def represents_def)
qed

lemma setter_refines:
  assumes rel: "mlog_rel s sp" and change: "keeps_links f"
    and op: "op s = pbind (find_mlogger h s) (\<lambda>logger. case logger of
       Some a \<Rightarrow> ret (set_logger a f s) | None \<Rightarrow> ret (emit [Print_int Stderr bad h] s))"
  shows "\<exists>s'. op s = ret s' \<and> mlog_rel s' (snd (spec_set bad h (f, [], True) sp))"
  using mlog_rel_set [OF rel change, of h "[]"] mlog_rel_emit [OF rel]
  by (auto simp: op spec_set_def split: option.splits)

lemma setters_refine:
  assumes rel: "mlog_rel s sp"
  shows
    "\<exists>s'. setloggertime h t s = ret s' \<and>
       mlog_rel s' (snd (spec_set ''Invalid logger handle: '' h (\<lambda>l. l\<lparr>lg_logtime := t\<rparr>, [], True) sp))"
    "\<exists>s'. setloggersev h v s = ret s' \<and>
       mlog_rel s' (snd (spec_set ''Invalid logger handle '' h (\<lambda>l. l\<lparr>lg_severity := v\<rparr>, [], True) sp))"
    "\<exists>s'. register_mlog_callback h cb d s = ret s' \<and>
       mlog_rel s' (snd (spec_set ''Invalid logger handle '' h
         (\<lambda>l. l\<lparr>lg_callback := cb, lg_cb_data := d\<rparr>, [], True) sp))"
  by (rule setter_refines [OF rel]; simp add: keeps_links_def set_lg_next_def
      setloggertime_def setloggersev_def register_mlog_callback_def)+

text \<open>Logging.\<close>

lemma vmlogf_message:
  "ms_heap s a = Some l \<Longrightarrow> vmlogf strftime (Some a) severity msg s =
     rbind (message_events strftime l severity msg) (\<lambda>es. Inr (emit es s))"
  by (auto simp: vmlogf_def message_events_def write_line_def line_events_def
      split: option.splits loggertype.splits logtime.splits)

lemma line_events_unlinked [simp]:
  "line_events strftime (set_lg_next p l) severity msg = line_events strftime l severity msg"
  by (cases "lg_logfile l") (simp_all add: line_events_def set_lg_next_def)

lemma message_events_unlinked [simp]:
  "message_events strftime (set_lg_next p l) severity msg = message_events strftime l severity msg"
proof -
  have "lg_severity (set_lg_next p l) = lg_severity l" "lg_callback (set_lg_next p l) = lg_callback l"
    "lg_cb_data (set_lg_next p l) = lg_cb_data l" "lg_type (set_lg_next p l) = lg_type l"
    by (simp_all add: set_lg_next_def)
  then show ?thesis by (simp only: message_events_def line_events_unlinked)
qed

lemma mlogf_registry:
  assumes r: "registry as s sp" and w: "spec_wf sp"
  shows "case spec_mlogf strftime h severity msg sp of
      Inl e \<Rightarrow> mlogf strftime h severity msg s = Some (Inl e)
    | Inr sp' \<Rightarrow> \<exists>es. mlogf strftime h severity msg s = ret (emit es s) \<and> sp' = spec_emit es sp"
proof (cases rule: find_mlogger_cases [OF r w, of h])
  case missing: 1
  have "emit [] s = s" "spec_emit [] sp = sp" by (simp_all add: emit_def spec_emit_def)
  with missing show ?thesis
    by (cases "h < 0") (auto simp: spec_mlogf_def mlogf_def intro: exI [of _ "[]"])
next
  case found: (2 i l)
  have "emit [] s = s" "spec_emit [] sp = sp" by (simp_all add: emit_def spec_emit_def)
  with found show ?thesis
    by (cases "message_events strftime l severity msg"; cases "h < 0")
      (auto simp: spec_mlogf_def mlogf_def vmlogf_message intro: exI [of _ "[]"])
qed

lemma mlogf_refines:
  assumes rel: "mlog_rel s sp"
  shows "case spec_mlogf strftime h severity msg sp of
      Inl e \<Rightarrow> mlogf strftime h severity msg s = Some (Inl e)
    | Inr sp' \<Rightarrow> \<exists>s'. mlogf strftime h severity msg s = ret s' \<and> mlog_rel s' sp'"
proof -
  from rel obtain as where r: "represents as s sp" and w: "spec_wf sp"
    by (auto simp: mlog_rel_def)
  show ?thesis
    using mlogf_registry [OF represents_registry [OF r] w, of strftime h severity msg] mlog_rel_emit [OF rel]
    by (auto split: sum.splits)
qed

subsection \<open>Creating a logger\<close>

lemma card_handles: "spec_wf sp \<Longrightarrow> length (sp_loggers sp) \<le> sp_next sp"
proof -
  assume w: "spec_wf sp"
  let ?hs = "map lg_handle (sp_loggers sp)"
  have "length ?hs = card (set ?hs)"
    using w strict_sorted_iff [of ?hs] unfolding spec_wf_def by (metis distinct_card)
  also have "\<dots> \<le> card {0..<int (sp_next sp)}"
    using w unfolding spec_wf_def by (intro card_mono) auto
  finally show ?thesis by simp
qed

lemma spec_wf_append:
  assumes "spec_wf sp" "lg_handle l = int (sp_next sp)" "sp_next sp < INT_MAX"
  shows "spec_wf (sp\<lparr>sp_loggers := sp_loggers sp @ [l], sp_next := sp_next sp + 1\<rparr>)"
  using assms by (auto simp: spec_wf_def sorted_wrt_append)

lemma spec_find_new:
  assumes "spec_wf sp" "lg_handle l = int (sp_next sp)"
  shows "spec_find (int (sp_next sp)) (sp\<lparr>sp_loggers := sp_loggers sp @ [l], sp_next := n\<rparr>) = Some l"
    "spec_update (int (sp_next sp)) f (sp\<lparr>sp_loggers := sp_loggers sp @ [l], sp_next := n\<rparr>) =
       sp\<lparr>sp_loggers := sp_loggers sp @ [f l], sp_next := n\<rparr>"
proof -
  have no: "\<not> mlogger_check (int (sp_next sp)) m" if "m \<in> set (sp_loggers sp)" for m
    using assms(1) that by (auto simp: spec_wf_def mlogger_check_def)
  have yes: "mlogger_check (int (sp_next sp)) l" using assms(2) by (simp add: mlogger_check_def)
  have "List.find (mlogger_check (int (sp_next sp))) (ms @ [l]) = Some l"
    if "\<And>m. m \<in> set ms \<Longrightarrow> \<not> mlogger_check (int (sp_next sp)) m" for ms
    using that yes by (induction ms) auto
  then show "spec_find (int (sp_next sp)) (sp\<lparr>sp_loggers := sp_loggers sp @ [l], sp_next := n\<rparr>) = Some l"
    using no by (simp add: spec_find_def)
  show "spec_update (int (sp_next sp)) f (sp\<lparr>sp_loggers := sp_loggers sp @ [l], sp_next := n\<rparr>) =
       sp\<lparr>sp_loggers := sp_loggers sp @ [f l], sp_next := n\<rparr>"
    using no yes by (auto simp: spec_update_def map_idI)
qed

lemma registry_add:
  assumes r: "registry as s sp" and new: "new \<notin> set as" and l: "lg_next l = None"
  shows "\<exists>start c h. mlinked_list_add lg_next set_lg_next ((ms_heap s)(new \<mapsto> l)) (mloggers s) new = ret (start, c, h) \<and>
    registry (as @ [new])
      (s\<lparr>ms_heap := h, mloggers := start, next_handle := n, nloggers := k, g_handle := g\<rparr>)
      (sp\<lparr>sp_loggers := sp_loggers sp @ [l], sp_next := n\<rparr>) \<and> dom h = insert new (dom (ms_heap s))"
proof -
  let ?h = "(ms_heap s)(new \<mapsto> l)"
  have "lst lg_next ?h (mloggers s) as"
    using r new by (simp add: registry_def lst_upd)
  then obtain start c h where a: "mlinked_list_add lg_next set_lg_next ?h (mloggers s) new = ret (start, c, h)"
      "lst lg_next h start (as @ [new])" "erase set_lg_next h = erase set_lg_next ?h"
    using lg.mlinked_list_add_ok [of ?h "mloggers s" as new l] new l by auto
  have "dom h = dom (erase set_lg_next h)" by (auto simp: erase_def dom_def)
  also have "\<dots> = insert new (dom (ms_heap s))" unfolding a(3) by (auto simp: erase_def dom_def)
  finally have d: "dom h = insert new (dom (ms_heap s))" .
  have "map (erase set_lg_next h) as = map (erase set_lg_next (ms_heap s)) as"
    unfolding a(3) using new by (auto simp: erase_def)
  moreover have "erase set_lg_next h new = Some l"
    unfolding a(3) using l by (cases l) (simp add: erase_def set_lg_next_def)
  ultimately show ?thesis
    using a d r by (auto simp: registry_def)
qed

text \<open>What \<open>get_mlogger\<close> does once the record is allocated.\<close>

lemma get_mlogger_registry:
  assumes r: "registry as s sp" and w: "spec_wf sp" and a: "a \<notin> set as" "sp_next sp < INT_MAX"
  shows "\<exists>s' sp'. get_mlogger fopen (Some a) type severity logtime s = ret (int (sp_next sp), s') \<and>
    spec_get fopen True type severity logtime sp = Inr (int (sp_next sp), sp') \<and>
    registry (as @ [a]) s' sp' \<and> spec_wf sp' \<and> dom (ms_heap s') = insert a (dom (ms_heap s)) \<and>
    nloggers s' = nloggers s + 1 \<and> g_handle s' = (if g_handle s < 0 then 0 else g_handle s) \<and>
    sp_loggers sp' \<noteq> []"
proof -
  define l where "l = \<lparr>lg_type = type, lg_severity = severity, lg_logtime = logtime, lg_handle = int (sp_next sp),
      lg_path = None, lg_logfile = None, lg_callback = None, lg_cb_data = None, lg_next = None\<rparr>"
  let ?sp = "sp\<lparr>sp_loggers := sp_loggers sp @ [l], sp_next := sp_next sp + 1\<rparr>"
  let ?g = "if g_handle s < 0 then 0 else g_handle s"
  have lh: "lg_handle l = int (sp_next sp)" by (simp add: l_def)
  obtain start c h where add:
      "mlinked_list_add lg_next set_lg_next ((ms_heap s)(a \<mapsto> l)) (mloggers s) a = ret (start, c, h)"
      "registry (as @ [a]) (s\<lparr>ms_heap := h, mloggers := start, next_handle := sp_next sp + 1,
        nloggers := nloggers s + 1, g_handle := ?g\<rparr>) ?sp" "dom h = insert a (dom (ms_heap s))"
    using registry_add [OF r a(1), where l = l and n = "sp_next sp + 1" and k = "nloggers s + 1" and g = ?g] by (auto simp: l_def)
  let ?s = "s\<lparr>ms_heap := h, mloggers := start, next_handle := sp_next sp + 1, nloggers := nloggers s + 1\<rparr>"
  have g: "(if g_handle ?s < 0 then ?s\<lparr>g_handle := 0\<rparr> else ?s) = ?s\<lparr>g_handle := ?g\<rparr>" by simp
  have wf: "spec_wf ?sp" by (rule spec_wf_append [OF w lh a(2)])
  from setloggertype_registry [OF add(2) wf, of fopen "int (sp_next sp)" type None]
  obtain ok s' where t: "setloggertype fopen (int (sp_next sp)) type None (?s\<lparr>g_handle := ?g\<rparr>) = ret (ok, s')"
      "registry (as @ [a]) s' (snd (spec_set ''Invalid logger handle '' (int (sp_next sp)) (retype fopen type None) ?sp))"
      "dom (ms_heap s') = dom h" "nloggers s' = nloggers s + 1" "g_handle s' = ?g"
    by auto
  have n: "next_handle s = sp_next sp" using r by (simp add: registry_def)
  have "get_mlogger fopen (Some a) type severity logtime s = ret (int (sp_next sp), s')"
    using a(2) unfolding get_mlogger_def n option.case Let_def l_def [symmetric]
    by (simp only: int_add_ok pbind.simps add prod.case g t)
  moreover have e: "snd (spec_set ''Invalid logger handle '' (int (sp_next sp)) (retype fopen type None) ?sp) =
      (case retype fopen type None of (f, es, ok) \<Rightarrow>
        spec_emit es (sp\<lparr>sp_loggers := sp_loggers sp @ [f l], sp_next := sp_next sp + 1\<rparr>))"
    using spec_find_new [OF w lh] by (simp add: spec_set_def split: prod.split)
  moreover have "spec_wf (snd (spec_set ''Invalid logger handle '' (int (sp_next sp)) (retype fopen type None) ?sp))"
    using keeps_retype [of fopen type None] by (intro spec_wf_set [OF wf]) (metis prod.collapse)
  ultimately show ?thesis
    using t(2-) a add(3) unfolding e by (simp add: spec_get_def l_def spec_emit_def split: prod.split_asm)
qed

lemma get_mlogger_full:
  assumes "registry as s sp" "INT_MAX \<le> sp_next sp"
  shows "get_mlogger fopen (Some a) type severity logtime s = Some (Inl Signed_overflow)"
    "spec_get fopen True type severity logtime sp = Inl Signed_overflow"
  using assms by (auto simp: registry_def spec_get_def get_mlogger_def int_add_def Let_def)

lemma get_mlogger_refines:
  assumes rel: "mlog_rel s sp" and new: "\<And>a. new = Some a \<Longrightarrow> ms_heap s a = None"
  shows "case spec_get fopen (new \<noteq> None) type severity logtime sp of
      Inl e \<Rightarrow> get_mlogger fopen new type severity logtime s = Some (Inl e)
    | Inr (h, sp') \<Rightarrow> \<exists>s'. get_mlogger fopen new type severity logtime s = ret (h, s') \<and> mlog_rel s' sp'"
proof (cases new)
  case None
  then show ?thesis
    using mlog_rel_emit [OF rel] by (simp add: spec_get_def get_mlogger_def)
next
  case (Some a)
  from rel obtain as where r: "represents as s sp" and w: "spec_wf sp"
    by (auto simp: mlog_rel_def)
  note q = represents_registry [OF r]
  show ?thesis
  proof (cases "sp_next sp < INT_MAX")
    case True
    have "a \<notin> set as" using new [OF Some] r by (auto simp: represents_def)
    from get_mlogger_registry [OF q w this True, of fopen type severity logtime] obtain s' sp' where
      g: "get_mlogger fopen (Some a) type severity logtime s = ret (int (sp_next sp), s')"
        "spec_get fopen True type severity logtime sp = Inr (int (sp_next sp), sp')"
        "registry (as @ [a]) s' sp'" "spec_wf sp'" "dom (ms_heap s') = insert a (dom (ms_heap s))"
        "nloggers s' = nloggers s + 1" "g_handle s' = (if g_handle s < 0 then 0 else g_handle s)"
        "sp_loggers sp' \<noteq> []"
      by blast
    have "length as \<le> INT_MAX"
      using represents_length [OF r] card_handles [OF w] w by (simp add: spec_wf_def)
    then have "unat (nloggers s + 1) = length as + 1"
      using r by (simp add: represents_def unat_word_ariths INT_MAX_def)
    then have "represents (as @ [a]) s' sp'"
      using r g by (auto simp: represents_def spec_default_def)
    then show ?thesis using Some g by (auto simp: mlog_rel_def)
  next
    case False
    then show ?thesis using Some get_mlogger_full [OF q] by simp
  qed
qed

subsection \<open>Shutting down\<close>

lemma filter_represented:
  assumes "map Some ls = map E as" "\<And>a. a \<in> set as \<Longrightarrow> m a = c (the (E a))"
  shows "map Some (filter (\<lambda>l. \<not> c l) ls) = map E (filter (\<lambda>a. \<not> m a) as)"
  using assms
proof (induction as arbitrary: ls)
  case (Cons a as)
  then obtain l ls' where "ls = l # ls'" "E a = Some l" "map Some ls' = map E as"
    by (cases ls) auto
  with Cons show ?case by auto
qed simp

lemma filter_single:
  assumes "distinct as" "i < length as" "\<And>j. j < length as \<Longrightarrow> m (as ! j) \<longleftrightarrow> j = i"
  shows "filter m as = [as ! i]" "tl (takeWhile m as) = []"
    "set (filter (\<lambda>a. \<not> m a) as) = set as - {as ! i}" "length (filter (\<lambda>a. \<not> m a) as) = length as - 1"
proof -
  obtain us vs where s: "as = us @ as ! i # vs" using id_take_nth_drop [OF assms(2)] by blast
  have m: "m a \<longleftrightarrow> a = as ! i" if "a \<in> set as" for a
    using that assms by (auto simp: in_set_conv_nth nth_eq_iff_index_eq)
  then have "filter m as = filter (\<lambda>a. a = as ! i) as" by (intro filter_cong) auto
  also have "filter (\<lambda>a. a = x) as = [x]" if "as = us @ x # vs" for x
  proof -
    have "filter (\<lambda>a. a = x) us = []" "filter (\<lambda>a. a = x) vs = []"
      using assms(1) that by (auto simp: filter_empty_conv)
    then show ?thesis using that by simp
  qed
  note this [OF s]
  finally show f: "filter m as = [as ! i]" .
  show "tl (takeWhile m as) = []"
  proof (cases as)
    case (Cons a bs)
    then show ?thesis
    proof (cases bs)
      case (Cons b cs)
      with \<open>as = a # bs\<close> assms(3) [of 0] assms(3) [of 1] show ?thesis by auto
    qed simp
  qed simp
  show "set (filter (\<lambda>a. \<not> m a) as) = set as - {as ! i}" using m by auto
  have "length (filter m as) + length (filter (\<lambda>a. \<not> m a) as) = length as"
    by (rule sum_length_filter_compl)
  with f show "length (filter (\<lambda>a. \<not> m a) as) = length as - 1" by simp
qed

lemma spec_wf_filter: "spec_wf sp \<Longrightarrow> spec_wf (sp\<lparr>sp_loggers := filter P (sp_loggers sp)\<rparr>)"
  by (auto simp: spec_wf_def sorted_wrt_map sorted_wrt_filter)

text \<open>Taking a record out of the list, with the memory as it is.\<close>

lemma erase_dom: "erase set_lg_next h = erase set_lg_next h' \<Longrightarrow> dom h = dom h'"
proof -
  have "dom (erase set_lg_next h) = dom h" for h by (auto simp: erase_def dom_def)
  then show "erase set_lg_next h = erase set_lg_next h' \<Longrightarrow> dom h = dom h'" by metis
qed

lemma registry_hits:
  assumes "registry as s sp" "a \<in> set as"
  shows "hits mlogger_check h (ms_heap s) a = mlogger_check h (the (erase set_lg_next (ms_heap s) a))"
proof -
  have "ms_heap s a \<noteq> None" using assms by (auto simp: registry_def dest: lst_live)
  then obtain l where "ms_heap s a = Some l" by auto
  then show ?thesis by (simp add: hits_def erase_def)
qed

lemma shutdown_unlink_registry:
  assumes r: "registry as s sp" and w: "spec_wf sp"
  shows "\<exists>s' f bs. shutdown_unlink h s = ret (f, s') \<and> registry bs s' (snd (spec_shutdown h sp)) \<and>
    spec_wf (snd (spec_shutdown h sp)) \<and> (f \<noteq> None) = fst (spec_shutdown h sp) \<and>
    dom (ms_heap s') = dom (ms_heap s) \<and> nloggers s' = nloggers s \<and> g_handle s' = g_handle s \<and>
    (case f of None \<Rightarrow> bs = as \<and> snd (spec_shutdown h sp) = sp
     | Some a \<Rightarrow> a \<in> set as \<and> set bs = set as - {a} \<and> length as = Suc (length bs))"
proof -
  note len = registry_length [OF r]
  define m where "m = hits mlogger_check h (ms_heap s)"
  define bs where "bs = filter (\<lambda>a. \<not> m a) as"
  let ?v = "\<lparr>lv_hp = ms_heap s, lv_start = mloggers s, lv_current = None, lv_previous = None, lv_freenode = None\<rparr>"
  have "lst lg_next (lv_hp ?v) (lv_start ?v) as" using r by (simp add: registry_def)
  from lg.mlinked_list_remove_ok [OF this, where check = mlogger_check and handle = h and m = m] obtain v where
    v: "mlinked_list_remove lg_next set_lg_next mlogger_check h ?v = ret v"
      "lst lg_next (lv_hp v) (lv_start v) (tl (takeWhile m as) @ bs)"
      "erase set_lg_next (lv_hp v) = erase set_lg_next (ms_heap s)"
      "lv_freenode v = (if filter m as = [] then None else Some (last (filter m as)))"
    by (auto simp: m_def bs_def)
  let ?s = "s\<lparr>ms_heap := lv_hp v, mloggers := lv_start v\<rparr>"
  have u: "shutdown_unlink h s = ret (lv_freenode v, ?s)" by (simp add: shutdown_unlink_def v(1))
  have d: "dom (lv_hp v) = dom (ms_heap s)" by (rule erase_dom [OF v(3)])
  let ?ls = "filter (\<lambda>l. \<not> mlogger_check h l) (sp_loggers sp)"
  have ls: "map Some ?ls = map (erase set_lg_next (lv_hp v)) bs"
    unfolding bs_def v(3) m_def using r registry_hits [OF r] by (intro filter_represented) (auto simp: registry_def)
  have wf: "spec_wf (snd (spec_shutdown h sp))" using spec_wf_filter [OF w] by (simp add: spec_shutdown_def)
  have reg: "registry bs ?s (snd (spec_shutdown h sp))" if "tl (takeWhile m as) = []"
    using r v(2) ls that by (simp add: registry_def spec_shutdown_def)
  show ?thesis
  proof (cases rule: find_mlogger_cases [OF r w, of h])
    case missing: 1
    then have f: "filter m as = []" by (simp add: m_def)
    then have b: "bs = as" "takeWhile m as = []"
      by (auto simp: bs_def filter_empty_conv filter_id_conv takeWhile_eq_Nil_iff)
    have "map Some ?ls = map Some (sp_loggers sp)"
      using ls r unfolding b(1) v(3) by (simp only: registry_def)
    then have "?ls = sp_loggers sp" by (rule map_injective) simp
    then have "snd (spec_shutdown h sp) = sp" by (simp add: spec_shutdown_def)
    then show ?thesis
      using u f d b reg wf missing v(4) by (auto simp: spec_shutdown_def intro!: exI [of _ as])
  next
    case found: (2 i l)
    have "m (as ! j) \<longleftrightarrow> j = i" if "j < length as" for j
      using hits_nth [OF r that, of h] hits_nth [OF r found(1), of h] handles_unique [OF w, of i j h]
        found that len
      by (auto simp: m_def hits_def mlogger_check_def set_lg_next_def)
    note single = filter_single [OF registry_distinct [OF r] found(1) this, folded bs_def]
    then have "lv_freenode v = Some (as ! i)" "length as = Suc (length bs)" "as ! i \<in> set as"
      using v(4) found(1) by (cases as, auto)
    then show ?thesis
      using u reg [OF single(2)] wf d single(3) found(4)
      by (intro exI [of _ ?s] exI [of _ "Some (as ! i)"] exI [of _ bs]) (simp add: spec_shutdown_def)
  qed
qed

lemma registry_free:
  "registry bs s sp \<Longrightarrow> a \<notin> set bs \<Longrightarrow>
     registry bs (s\<lparr>ms_heap := (ms_heap s)(a := None), nloggers := k, g_handle := g\<rparr>) sp"
proof -
  assume r: "registry bs s sp" and a: "a \<notin> set bs"
  then have "map (erase set_lg_next ((ms_heap s)(a := None))) bs = map (erase set_lg_next (ms_heap s)) bs"
    by (auto simp: erase_def)
  with r a show ?thesis by (simp add: registry_def lst_upd)
qed

lemma registry_counters:
  "registry bs (s\<lparr>nloggers := k\<rparr>) sp = registry bs s sp" "registry bs (s\<lparr>g_handle := g\<rparr>) sp = registry bs s sp"
  by (simp_all add: registry_def)

lemma shutdown_refines:
  assumes rel: "mlog_rel s sp"
  shows "\<exists>s'. shutdown_mlogger h s = ret (fst (spec_shutdown h sp), s') \<and> mlog_rel s' (snd (spec_shutdown h sp))"
proof -
  from rel obtain as where r: "represents as s sp" and w: "spec_wf sp"
    by (auto simp: mlog_rel_def)
  obtain s' f bs where u: "shutdown_unlink h s = ret (f, s')" "registry bs s' (snd (spec_shutdown h sp))"
      "spec_wf (snd (spec_shutdown h sp))" "(f \<noteq> None) = fst (spec_shutdown h sp)"
      "dom (ms_heap s') = dom (ms_heap s)" "nloggers s' = nloggers s" "g_handle s' = g_handle s"
      "case f of None \<Rightarrow> bs = as \<and> snd (spec_shutdown h sp) = sp
       | Some a \<Rightarrow> a \<in> set as \<and> set bs = set as - {a} \<and> length as = Suc (length bs)"
    using shutdown_unlink_registry [OF represents_registry [OF r] w, of h] by blast
  show ?thesis
  proof (cases f)
    case None
    then show ?thesis using u r by (auto simp: shutdown_mlogger_def mlog_rel_def represents_def)
  next
    case (Some a)
    let ?s = "s'\<lparr>ms_heap := (ms_heap s')(a := None), nloggers := nloggers s' - 1\<rparr>"
    let ?t = "if nloggers ?s = 0 then ?s\<lparr>g_handle := -1\<rparr> else ?s"
    have b: "a \<in> set as" "set bs = set as - {a}" "length as = Suc (length bs)" using u(8) Some by auto
    have live: "ms_heap s' a \<noteq> None" using b(1) u(5) r by (auto simp: represents_def)
    have n: "unat (nloggers s' - 1) = length bs"
      using r b(3) u(6) unat_sub_1 [of "nloggers s"] by (simp add: represents_def)
    then have z: "nloggers s' - 1 = 0 \<longleftrightarrow> bs = []" by (metis length_0_conv unat_eq_zero)
    have "registry bs ?s (snd (spec_shutdown h sp))"
      using registry_free [OF u(2), where a = a and k = "nloggers s' - 1" and g = "g_handle s'"] b by simp
    moreover have "sp_loggers (snd (spec_shutdown h sp)) = [] \<longleftrightarrow> bs = []"
      using registry_length [OF u(2)] by auto
    moreover have "g_handle s = 0" using r b by (auto simp: represents_def spec_default_def
        dest: registry_length)
    ultimately have "represents bs ?t (snd (spec_shutdown h sp))"
      using n z b u r by (auto simp: represents_def registry_counters spec_default_def)
    moreover have "shutdown_mlogger h s = ret (True, ?t)"
      using u(1) Some live by (simp add: shutdown_mlogger_def Let_def)
    ultimately show ?thesis using Some u(3,4) by (auto simp: mlog_rel_def)
  qed
qed

lemma shutdown_all_loop_ok:
  "lst lg_next (ms_heap s) p as \<Longrightarrow> shutdown_all_loop p p s =
     ret (s\<lparr>ms_heap := (ms_heap s) |` (- set as), nloggers := nloggers s - of_nat (length as)\<rparr>)"
proof (induction as arbitrary: p s)
  case Nil
  then show ?case by (simp add: shutdown_all_loop.simps)
next
  case (Cons a as)
  then obtain l where a: "p = Some a" "ms_heap s a = Some l" "lst lg_next (ms_heap s) (lg_next l) as"
    by (auto split: option.splits)
  let ?s = "s\<lparr>ms_heap := (ms_heap s)(a := None), nloggers := nloggers s - 1\<rparr>"
  have "a \<notin> set as" using lst_distinct [OF Cons.prems] by simp
  then have "lst lg_next (ms_heap ?s) (lg_next l) as" using a by (simp add: lst_upd)
  note ih = Cons.IH [OF this]
  have e: "ms_heap ?s |` (- set as) = ms_heap s |` (- set (a # as))"
    by (auto simp: restrict_map_def fun_eq_iff)
  have n: "nloggers ?s - of_nat (length as) = nloggers s - of_nat (length (a # as))"
    by simp
  have "shutdown_all_loop p p s = shutdown_all_loop (lg_next l) (lg_next l) ?s"
    using a by (simp add: shutdown_all_loop.simps [of "Some a"])
  also have "\<dots> = ret (s\<lparr>ms_heap := ms_heap s |` (- set (a # as)),
      nloggers := nloggers s - of_nat (length (a # as))\<rparr>)"
    unfolding ih e n by simp
  finally show ?case .
qed

lemma shutdown_all_refines:
  assumes rel: "mlog_rel s sp"
  shows "\<exists>s'. shutdown_all_mloggers s = ret s' \<and> mlog_rel s' (sp\<lparr>sp_loggers := []\<rparr>)"
proof -
  from rel obtain as where r: "represents as s sp" and w: "spec_wf sp"
    by (auto simp: mlog_rel_def)
  have l: "lst lg_next (ms_heap s) (mloggers s) as" using r by (simp add: rep_defs)
  have "nloggers s - of_nat (length as) = 0"
    using r by (auto simp: represents_def dest: word_eq_of_nat)
  moreover have "(ms_heap s) |` (- set as) = Map.empty"
    using r by (auto simp: represents_def restrict_map_def fun_eq_iff)
  ultimately show ?thesis
    using r w unfolding mlog_rel_def
    by (auto simp: shutdown_all_mloggers_def shutdown_all_loop_ok [OF l] rep_defs spec_default_def spec_wf_def)
qed

subsection \<open>Clients\<close>

text \<open>The calls a client makes. In \<open>Get_mlogger\<close> the flag says whether \<open>malloc\<close> succeeds;
  \<open>fresh\<close> gives the address it then returns.\<close>

datatype log_op =
    Get_mlogger bool loggertype logseverity logtime
  | Shutdown handle
  | Shutdown_all
  | Mlogf handle logseverity string
  | Mdefault logseverity string
  | Set_time handle logtime
  | Set_type handle loggertype "string option"
  | Set_sev handle logseverity
  | Register handle "callback option" ptr

datatype log_result = Done | Handle handle | Flag bool

fun log_step ::
  "strftime_fun \<Rightarrow> (string \<Rightarrow> bool) \<Rightarrow> (mlog heap \<Rightarrow> addr) \<Rightarrow> log_op \<Rightarrow> mlog_state
     \<Rightarrow> (log_result \<times> mlog_state) prog" where
  "log_step strftime fopen fresh (Get_mlogger mok type severity logtime) s =
     pbind (get_mlogger fopen (if mok then Some (fresh (ms_heap s)) else None) type severity logtime s)
       (\<lambda>(h, s). ret (Handle h, s))"
| "log_step strftime fopen fresh (Shutdown h) s = pbind (shutdown_mlogger h s) (\<lambda>(b, s). ret (Flag b, s))"
| "log_step strftime fopen fresh Shutdown_all s = pbind (shutdown_all_mloggers s) (\<lambda>s. ret (Done, s))"
| "log_step strftime fopen fresh (Mlogf h severity msg) s =
     pbind (mlogf strftime h severity msg s) (\<lambda>s. ret (Done, s))"
| "log_step strftime fopen fresh (Mdefault severity msg) s =
     pbind (mlogf strftime (g_handle s) severity msg s) (\<lambda>s. ret (Done, s))"
| "log_step strftime fopen fresh (Set_time h t) s = pbind (setloggertime h t s) (\<lambda>s. ret (Done, s))"
| "log_step strftime fopen fresh (Set_type h type path) s =
     pbind (setloggertype fopen h type path s) (\<lambda>(b, s). ret (Flag b, s))"
| "log_step strftime fopen fresh (Set_sev h severity) s =
     pbind (setloggersev h severity s) (\<lambda>s. ret (Done, s))"
| "log_step strftime fopen fresh (Register h cb d) s =
     pbind (register_mlog_callback h cb d s) (\<lambda>s. ret (Done, s))"

fun log_run ::
  "strftime_fun \<Rightarrow> (string \<Rightarrow> bool) \<Rightarrow> (mlog heap \<Rightarrow> addr) \<Rightarrow> log_op list \<Rightarrow> mlog_state
     \<Rightarrow> (log_result list \<times> mlog_state) prog" where
  "log_run strftime fopen fresh [] s = ret ([], s)"
| "log_run strftime fopen fresh (c # cs) s =
     pbind (log_step strftime fopen fresh c s) (\<lambda>(r, s).
     pbind (log_run strftime fopen fresh cs s) (\<lambda>(rs, s). ret (r # rs, s)))"

text \<open>The same calls on the specification.\<close>

fun spec_step ::
  "strftime_fun \<Rightarrow> (string \<Rightarrow> bool) \<Rightarrow> log_op \<Rightarrow> log_spec \<Rightarrow> (log_result \<times> log_spec) res" where
  "spec_step strftime fopen (Get_mlogger mok type severity logtime) sp =
     rbind (spec_get fopen mok type severity logtime sp) (\<lambda>(h, sp). Inr (Handle h, sp))"
| "spec_step strftime fopen (Shutdown h) sp = Inr (apfst Flag (spec_shutdown h sp))"
| "spec_step strftime fopen Shutdown_all sp = Inr (Done, sp\<lparr>sp_loggers := []\<rparr>)"
| "spec_step strftime fopen (Mlogf h severity msg) sp =
     rbind (spec_mlogf strftime h severity msg sp) (\<lambda>sp. Inr (Done, sp))"
| "spec_step strftime fopen (Mdefault severity msg) sp =
     rbind (spec_mlogf strftime (spec_default sp) severity msg sp) (\<lambda>sp. Inr (Done, sp))"
| "spec_step strftime fopen (Set_time h t) sp =
     Inr (Done, snd (spec_set ''Invalid logger handle: '' h (\<lambda>l. l\<lparr>lg_logtime := t\<rparr>, [], True) sp))"
| "spec_step strftime fopen (Set_type h type path) sp =
     Inr (apfst Flag (spec_set ''Invalid logger handle '' h (retype fopen type path) sp))"
| "spec_step strftime fopen (Set_sev h severity) sp =
     Inr (Done, snd (spec_set ''Invalid logger handle '' h (\<lambda>l. l\<lparr>lg_severity := severity\<rparr>, [], True) sp))"
| "spec_step strftime fopen (Register h cb d) sp =
     Inr (Done, snd (spec_set ''Invalid logger handle '' h
       (\<lambda>l. l\<lparr>lg_callback := cb, lg_cb_data := d\<rparr>, [], True) sp))"

fun spec_run ::
  "strftime_fun \<Rightarrow> (string \<Rightarrow> bool) \<Rightarrow> log_op list \<Rightarrow> log_spec \<Rightarrow> (log_result list \<times> log_spec) res" where
  "spec_run strftime fopen [] sp = Inr ([], sp)"
| "spec_run strftime fopen (c # cs) sp =
     rbind (spec_step strftime fopen c sp) (\<lambda>(r, sp).
     rbind (spec_run strftime fopen cs sp) (\<lambda>(rs, sp). Inr (r # rs, sp)))"

text \<open>\<open>malloc\<close>: the address it returns is not in use.\<close>

definition fresh_addresses :: "(mlog heap \<Rightarrow> addr) \<Rightarrow> bool" where
  "fresh_addresses fresh \<longleftrightarrow> (\<forall>h. finite (dom h) \<longrightarrow> h (fresh h) = None)"

definition next_address :: "mlog heap \<Rightarrow> addr" where
  "next_address h = Suc (Max (insert 0 (dom h)))"

lemma fresh_next_address: "fresh_addresses next_address"
  unfolding fresh_addresses_def next_address_def
proof (intro allI impI)
  fix h :: "mlog heap" assume "finite (dom h)"
  then have "a \<in> dom h \<Longrightarrow> a \<le> Max (insert 0 (dom h))" for a by simp
  then show "h (Suc (Max (insert 0 (dom h)))) = None"
    by (metis Suc_n_not_le_n domIff)
qed

lemma mlog_rel_finite: "mlog_rel s sp \<Longrightarrow> finite (dom (ms_heap s))"
  by (auto simp: mlog_rel_def rep_defs)

lemma mlog_rel_default: "mlog_rel s sp \<Longrightarrow> g_handle s = spec_default sp"
  by (auto simp: mlog_rel_def rep_defs)

lemma log_step_refines:
  assumes rel: "mlog_rel s sp" and fresh: "fresh_addresses fresh"
  shows "case spec_step strftime fopen c sp of
      Inl e \<Rightarrow> log_step strftime fopen fresh c s = Some (Inl e)
    | Inr (r, sp') \<Rightarrow> \<exists>s'. log_step strftime fopen fresh c s = ret (r, s') \<and> mlog_rel s' sp'"
proof (cases c)
  case (Get_mlogger mok type severity logtime)
  define new where "new = (if mok then Some (fresh (ms_heap s)) else None)"
  have n: "ms_heap s a = None" if "new = Some a" for a
    using that fresh mlog_rel_finite [OF rel] by (auto simp: new_def fresh_addresses_def split: if_splits)
  have mok: "(new \<noteq> None) = mok" by (simp add: new_def)
  note g = get_mlogger_refines [where new = new and fopen = fopen and type = type and severity = severity
      and logtime = logtime, OF rel n, unfolded mok]
  then show ?thesis
    unfolding Get_mlogger log_step.simps spec_step.simps new_def [symmetric]
    by (cases "spec_get fopen mok type severity logtime sp") auto
next
  case (Shutdown h)
  then show ?thesis
    using shutdown_refines [OF rel, of h] by (cases "spec_shutdown h sp") auto
next
  case Shutdown_all
  then show ?thesis using shutdown_all_refines [OF rel] by auto
next
  case (Mlogf h severity msg)
  then show ?thesis
    using mlogf_refines [OF rel, of strftime h severity msg]
    by (cases "spec_mlogf strftime h severity msg sp") auto
next
  case (Mdefault severity msg)
  then show ?thesis
    using mlogf_refines [OF rel, of strftime "spec_default sp" severity msg] mlog_rel_default [OF rel]
    by (cases "spec_mlogf strftime (spec_default sp) severity msg sp") auto
next
  case (Set_type h type path)
  then show ?thesis
    using setloggertype_refines [OF rel, of fopen h type path]
    by (cases "spec_set ''Invalid logger handle '' h (retype fopen type path) sp") auto
next
  case (Set_time h t)
  then show ?thesis using setters_refine(1) [OF rel, of h t] by auto
next
  case (Set_sev h severity)
  then show ?thesis using setters_refine(2) [OF rel, of h severity] by auto
next
  case (Register h cb d)
  then show ?thesis using setters_refine(3) [OF rel, of h cb d] by auto
qed

lemma log_run_refines:
  assumes fresh: "fresh_addresses fresh"
  shows "mlog_rel s sp \<Longrightarrow> case spec_run strftime fopen cs sp of
      Inl e \<Rightarrow> log_run strftime fopen fresh cs s = Some (Inl e)
    | Inr (rs, sp') \<Rightarrow> \<exists>s'. log_run strftime fopen fresh cs s = ret (rs, s') \<and> mlog_rel s' sp'"
proof (induction cs arbitrary: s sp)
  case (Cons c cs)
  show ?case
  proof (cases "spec_step strftime fopen c sp")
    case (Inl e)
    then show ?thesis using log_step_refines [OF Cons.prems fresh, of strftime fopen c] by simp
  next
    case (Inr p)
    obtain r sp1 where p: "p = (r, sp1)" by (rule prod.exhaust)
    obtain s1 where s1: "log_step strftime fopen fresh c s = ret (r, s1)" "mlog_rel s1 sp1"
      using log_step_refines [OF Cons.prems fresh, of strftime fopen c] Inr p by auto
    show ?thesis
      using Cons.IH [OF s1(2)] Inr p s1(1)
      by (cases "spec_run strftime fopen cs sp1") auto
  qed
qed simp

lemma log_run_Inr:
  assumes "mlog_rel s sp" "fresh_addresses fresh" "spec_run strftime fopen cs sp = Inr (rs, sp')"
  obtains s' where "log_run strftime fopen fresh cs s = ret (rs, s')" "mlog_rel s' sp'"
  using log_run_refines [OF assms(2,1), of strftime fopen cs] assms(3) by auto

lemma mlog_rel_init: "mlog_rel mlog_init spec_init"
  by (auto simp: mlog_rel_def rep_defs mlog_init_def spec_init_def spec_wf_def spec_default_def
      intro!: exI [of _ "[]"])

subsection \<open>Isolation\<close>

text \<open>Calls that do not touch a key leave what it is bound to alone, however many are made.\<close>

locale isolated =
  fixes look :: "'k \<Rightarrow> 's \<Rightarrow> 'v option"
    and step :: "'o \<Rightarrow> 's \<Rightarrow> ('r \<times> 's) res"
    and run :: "'o list \<Rightarrow> 's \<Rightarrow> ('r list \<times> 's) res"
    and touches :: "'o \<Rightarrow> 'k \<Rightarrow> bool"
  assumes run_Nil: "run [] s = Inr ([], s)"
    and run_Cons: "run (c # cs) s = rbind (step c s) (\<lambda>(r, s). rbind (run cs s) (\<lambda>(rs, s). Inr (r # rs, s)))"
    and frame: "look k s = Some v \<Longrightarrow> \<not> touches c k \<Longrightarrow> step c s = Inr (r, s') \<Longrightarrow> look k s' = Some v"
begin

lemma run_frame:
  "look k s = Some v \<Longrightarrow> (\<And>c. c \<in> set cs \<Longrightarrow> \<not> touches c k) \<Longrightarrow> run cs s = Inr (rs, s') \<Longrightarrow> look k s' = Some v"
proof (induction cs arbitrary: s rs)
  case (Cons c cs)
  from Cons.prems(3) obtain r s1 rs1 where "step c s = Inr (r, s1)" "run cs s1 = Inr (rs1, s')"
    by (auto simp: run_Cons res_simps)
  with Cons frame show ?case by (metis list.set_intros)
qed (simp add: run_Nil)

end

fun touches :: "log_op \<Rightarrow> handle \<Rightarrow> bool" where
  "touches (Shutdown h) k \<longleftrightarrow> h = k"
| "touches Shutdown_all k \<longleftrightarrow> True"
| "touches (Set_time h t) k \<longleftrightarrow> h = k"
| "touches (Set_type h type path) k \<longleftrightarrow> h = k"
| "touches (Set_sev h severity) k \<longleftrightarrow> h = k"
| "touches (Register h cb d) k \<longleftrightarrow> h = k"
| "touches c k \<longleftrightarrow> False"

lemma find_append: "List.find P xs = Some v \<Longrightarrow> List.find P (xs @ ys) = Some v"
  by (induction xs) auto

lemma find_filter_other:
  "List.find P xs = Some v \<Longrightarrow> (\<And>x. P x \<Longrightarrow> Q x) \<Longrightarrow> List.find P (filter Q xs) = Some v"
  by (induction xs) (auto split: if_splits)

lemma spec_emit_find [simp]: "spec_find k (spec_emit es sp) = spec_find k sp"
  by (simp add: spec_find_def spec_emit_def)

lemma spec_update_find:
  assumes "h \<noteq> k" "keeps_links f"
  shows "spec_find k (spec_update h f sp) = spec_find k sp"
proof -
  have "List.find (mlogger_check k) (map (\<lambda>l. if mlogger_check h l then f l else l) ls) =
      List.find (mlogger_check k) ls" for ls
    using assms by (induction ls) (auto simp: mlogger_check_def keeps_links_def)
  then show ?thesis by (simp add: spec_find_def spec_update_def)
qed

lemma spec_set_find:
  assumes "h \<noteq> k" "keeps_links (fst change)"
  shows "spec_find k (snd (spec_set bad h change sp)) = spec_find k sp"
  using assms spec_update_find by (auto simp: spec_set_def split: option.split prod.splits)

interpretation loggers: isolated spec_find "spec_step strftime fopen" "spec_run strftime fopen" touches
  for strftime fopen
proof unfold_locales
  fix k sp v c r sp'
  assume look: "spec_find k sp = Some v" and t: "\<not> touches c k"
    and s: "spec_step strftime fopen c sp = Inr (r, sp')"
  show "spec_find k sp' = Some v"
  proof (cases c)
    case (Get_mlogger mok type severity logtime)
    then show ?thesis
      using s look by (auto simp: spec_get_def res_simps spec_find_def spec_emit_def find_append
          split: if_splits prod.splits)
  next
    case (Shutdown h)
    then show ?thesis
      using s look t by (auto simp: spec_shutdown_def spec_find_def mlogger_check_def intro!: find_filter_other)
  next
    case (Mlogf h severity msg)
    then show ?thesis
      using s look by (auto simp: spec_mlogf_def res_simps split: if_splits option.splits)
  next
    case (Mdefault severity msg)
    then show ?thesis
      using s look by (auto simp: spec_mlogf_def res_simps split: if_splits option.splits)
  next
    case (Set_type h type path)
    obtain f es ok where "retype fopen type path = (f, es, ok)" by (rule prod_cases3)
    then show ?thesis
      using s look t Set_type keeps_retype spec_set_find [of h k "retype fopen type path"]
      by (auto simp: apfst_def map_prod_def split: prod.splits) (metis snd_conv)
  qed (use s look t in \<open>auto simp: spec_set_find keeps_links_def set_lg_next_def\<close>)
qed simp_all

text \<open>The settings of a logger, read from the state.\<close>

definition mlogger_settings :: "handle \<Rightarrow> mlog_state \<Rightarrow> mlog option" where
  "mlogger_settings k s =
     (case find_mlogger k s of
        Some (Inr (Some a)) \<Rightarrow> map_option (set_lg_next None) (ms_heap s a)
      | _ \<Rightarrow> None)"

lemma mlogger_settings_find:
  assumes "mlog_rel s sp"
  shows "mlogger_settings k s = spec_find k sp"
proof -
  from assms obtain as where r: "represents as s sp" and w: "spec_wf sp"
    by (auto simp: mlog_rel_def)
  show ?thesis
    by (cases rule: find_mlogger_cases [OF represents_registry [OF r] w, of k]) (auto simp: mlogger_settings_def)
qed

subsection \<open>Properties\<close>

text \<open>C5: any sequence of calls on the initial state returns, and returns call by call what the
  list of loggers returns, with the same output; it faults exactly where the specification
  does (a file logger without a file, the handle counter at \<open>INT_MAX\<close>).\<close>

theorem mlog_run_refines_registry:
  assumes "fresh_addresses fresh"
  shows "case spec_run strftime fopen cs spec_init of
      Inl e \<Rightarrow> log_run strftime fopen fresh cs mlog_init = Some (Inl e)
    | Inr (rs, sp) \<Rightarrow> \<exists>s. log_run strftime fopen fresh cs mlog_init = ret (rs, s) \<and> mlog_rel s sp"
  by (rule log_run_refines [OF assms mlog_rel_init])

lemmas spec_eval = spec_get_def spec_mlogf_def spec_shutdown_def spec_set_def spec_find_def spec_update_def
  spec_emit_def spec_init_def spec_default_def retype_def mlogger_check_def message_events_def line_events_def
  severity_defs less_logseverity_def severity_label_def newline_def INT_MAX_def

theorem mlog_run_refines_registry_witness:
  "\<exists>s. log_run (\<lambda>fmt utc. fmt) (\<lambda>p. True) next_address
      [Get_mlogger True MLOG_STDOUT MLOG_INFO NONE, Mlogf 0 MLOG_DEBUG ''quiet'', Mlogf 0 MLOG_ERROR ''loud'',
       Shutdown 0, Shutdown 0] mlog_init = ret ([Handle 0, Done, Done, Flag True, Flag False], s) \<and>
    mlog_rel s \<lparr>sp_loggers = [], sp_next = 1,
      sp_out = [Print Stdout ''ERROR: '', Print Stdout ''loud'', Print Stdout [CHR 0x0A]]\<rparr>"
  using mlog_run_refines_registry [OF fresh_next_address, of "\<lambda>fmt utc. fmt" "\<lambda>p. True"
    "[Get_mlogger True MLOG_STDOUT MLOG_INFO NONE, Mlogf 0 MLOG_DEBUG ''quiet'', Mlogf 0 MLOG_ERROR ''loud'',
       Shutdown 0, Shutdown 0]"]
  by (simp add: spec_eval)

text \<open>C25: a logger keeps its settings through any calls that are made on other handles,
  creations and shutdowns of other loggers included.\<close>

theorem mlog_loggers_isolated:
  assumes "fresh_addresses fresh" "log_run strftime fopen fresh cs mlog_init = ret (rs, s)"
    "mlogger_settings k s = Some l" "log_run strftime fopen fresh ds s = ret (qs, t)"
    "\<forall>c \<in> set ds. \<not> touches c k"
  shows "mlogger_settings k t = Some l"
proof -
  obtain sp where sp: "mlog_rel s sp"
    using log_run_refines [OF assms(1) mlog_rel_init, of strftime fopen cs] assms(2)
    by (auto split: sum.splits)
  obtain tp where tp: "spec_run strftime fopen ds sp = Inr (qs, tp)" "mlog_rel t tp"
    using log_run_refines [OF assms(1) sp, of strftime fopen ds] assms(4)
    by (auto split: sum.splits)
  show ?thesis
    using loggers.run_frame [of k sp l ds strftime fopen qs tp] assms(3,5) tp
    by (simp add: mlogger_settings_find [OF sp] mlogger_settings_find [OF tp(2)])
qed

theorem mlog_loggers_isolated_witness:
  "\<exists>rs s l qs t. log_run (\<lambda>fmt utc. fmt) (\<lambda>p. True) next_address
      [Get_mlogger True MLOG_STDOUT MLOG_INFO NONE, Get_mlogger True MLOG_STDERR MLOG_ERROR UTC] mlog_init = ret (rs, s) \<and>
    log_run (\<lambda>fmt utc. fmt) (\<lambda>p. True) next_address [Shutdown 0, Set_sev 0 MLOG_DEBUG] s = ret (qs, t) \<and>
    mlogger_settings 1 t = Some l \<and> lg_severity l = MLOG_ERROR"
proof -
  let ?run = "log_run (\<lambda>fmt utc. fmt) (\<lambda>p. True) next_address"
  let ?cs = "[Get_mlogger True MLOG_STDOUT MLOG_INFO NONE, Get_mlogger True MLOG_STDERR MLOG_ERROR UTC]"
  let ?sp = "\<lparr>sp_loggers = [\<lparr>lg_type = MLOG_STDOUT, lg_severity = MLOG_INFO, lg_logtime = NONE, lg_handle = 0, lg_path = None,
      lg_logfile = Some Stdout, lg_callback = None, lg_cb_data = None, lg_next = None\<rparr>,
      \<lparr>lg_type = MLOG_STDERR, lg_severity = MLOG_ERROR, lg_logtime = UTC, lg_handle = 1, lg_path = None,
      lg_logfile = Some Stderr, lg_callback = None, lg_cb_data = None, lg_next = None\<rparr>], sp_next = 2, sp_out = []\<rparr>"
  have e: "spec_run (\<lambda>fmt utc. fmt) (\<lambda>p. True) ?cs spec_init = Inr ([Handle 0, Handle 1], ?sp)"
    by (simp add: spec_eval)
  obtain s where s: "?run ?cs mlog_init = ret ([Handle 0, Handle 1], s)" "mlog_rel s ?sp"
    by (rule log_run_Inr [OF mlog_rel_init fresh_next_address e])
  obtain l where l: "mlogger_settings 1 s = Some l" "lg_severity l = MLOG_ERROR"
    unfolding mlogger_settings_find [OF s(2)] by (simp add: spec_find_def mlogger_check_def)
  have e2: "\<exists>qs tp. spec_run (\<lambda>fmt utc. fmt) (\<lambda>p. True) [Shutdown 0, Set_sev 0 MLOG_DEBUG] ?sp = Inr (qs, tp)"
    by (simp split: prod.split)
  then obtain qs tp where e3: "spec_run (\<lambda>fmt utc. fmt) (\<lambda>p. True) [Shutdown 0, Set_sev 0 MLOG_DEBUG] ?sp = Inr (qs, tp)"
    by blast
  obtain t where t: "?run [Shutdown 0, Set_sev 0 MLOG_DEBUG] s = ret (qs, t)"
    by (rule log_run_Inr [OF s(2) fresh_next_address e3])
  have "mlogger_settings 1 t = Some l"
    by (rule mlog_loggers_isolated [OF fresh_next_address s(1) l(1) t]) simp
  with s t l show ?thesis by blast
qed

text \<open>C16: after any calls, the live logger records are exactly the nodes of the list, their number
  is \<open>nloggers\<close>, their handles are distinct, and the default handle is \<open>0\<close>, or \<open>-1\<close> when
  there is none: nothing leaks and nothing dangles.\<close>

theorem mlog_registry_memory:
  assumes "fresh_addresses fresh" "log_run strftime fopen fresh cs mlog_init = ret (rs, s)"
  shows "\<exists>as. lst lg_next (ms_heap s) (mloggers s) as \<and> dom (ms_heap s) = set as \<and> distinct as \<and>
    unat (nloggers s) = length as \<and> distinct (map (\<lambda>a. lg_handle (the (ms_heap s a))) as) \<and>
    g_handle s = (if as = [] then -1 else 0)"
proof -
  obtain sp as where r: "represents as s sp" "spec_wf sp"
    using log_run_refines [OF assms(1) mlog_rel_init, of strftime fopen cs] assms(2)
    by (auto simp: mlog_rel_def split: sum.splits)
  have "lg_handle (sp_loggers sp ! i) = lg_handle (the (ms_heap s (as ! i)))" if "i < length as" for i
    using registry_nth [OF represents_registry [OF r(1)] that] by (auto simp: set_lg_next_def)
  then have "map lg_handle (sp_loggers sp) = map (\<lambda>a. lg_handle (the (ms_heap s a))) as"
    using registry_length [OF represents_registry [OF r(1)]] by (intro nth_equalityI) auto
  moreover have "distinct (map lg_handle (sp_loggers sp))"
    using r(2) strict_sorted_iff unfolding spec_wf_def by blast
  ultimately have d: "distinct (map (\<lambda>a. lg_handle (the (ms_heap s a))) as)" by simp
  have "sp_loggers sp = [] \<longleftrightarrow> as = []" using registry_length [OF represents_registry [OF r(1)]] by auto
  then show ?thesis
    using r(1) represents_distinct [OF r(1)] d by (auto simp: rep_defs spec_default_def)
qed

theorem mlog_registry_memory_witness:
  "\<exists>rs s. log_run (\<lambda>fmt utc. fmt) (\<lambda>p. True) next_address
      [Get_mlogger True MLOG_STDOUT MLOG_INFO NONE, Get_mlogger True MLOG_STDERR MLOG_ERROR UTC, Shutdown_all]
      mlog_init = ret (rs, s) \<and> ms_heap s = Map.empty \<and> g_handle s = -1"
proof -
  let ?cs = "[Get_mlogger True MLOG_STDOUT MLOG_INFO NONE, Get_mlogger True MLOG_STDERR MLOG_ERROR UTC, Shutdown_all]"
  have e: "spec_run (\<lambda>fmt utc. fmt) (\<lambda>p. True) ?cs spec_init =
      Inr ([Handle 0, Handle 1, Done], \<lparr>sp_loggers = [], sp_next = 2, sp_out = []\<rparr>)"
    by (simp add: spec_eval)
  obtain s where s: "log_run (\<lambda>fmt utc. fmt) (\<lambda>p. True) next_address ?cs mlog_init = ret ([Handle 0, Handle 1, Done], s)"
      "mlog_rel s \<lparr>sp_loggers = [], sp_next = 2, sp_out = []\<rparr>"
    by (rule log_run_Inr [OF mlog_rel_init fresh_next_address e])
  then have "\<exists>as. represents as s \<lparr>sp_loggers = [], sp_next = 2, sp_out = []\<rparr> \<and> as = []"
    using represents_length by (fastforce simp: mlog_rel_def)
  then have "unat (nloggers s) = 0" by (auto simp: rep_defs)
  with mlog_registry_memory [OF fresh_next_address s(1)] s(1) show ?thesis by auto
qed

text \<open>What \<open>mlogf\<close> does with a message for a live logger: below the logger's severity
  nothing; with a callback, one call that passes the \emph{logger's} severity, not the message's,
  and at most 4095 characters; else the line on the logger's stream.\<close>

theorem mlogf_message:
  assumes "mlog_rel s sp" "0 \<le> h" "mlogger_settings h s = Some l"
  shows "(severity < lg_severity l \<longrightarrow> mlogf strftime h severity msg s = ret s) \<and>
    (lg_severity l \<le> severity \<longrightarrow> (\<forall>cb. lg_callback l = Some cb \<longrightarrow>
       mlogf strftime h severity msg s =
         ret (emit [Callback cb (lg_severity l) (take 4095 msg) (lg_cb_data l)] s))) \<and>
    (lg_severity l \<le> severity \<longrightarrow> lg_callback l = None \<longrightarrow>
       lg_type l \<in> {MLOG_STDOUT, MLOG_STDERR, MLOG_FILE} \<longrightarrow> (\<forall>f. lg_logfile l = Some f \<longrightarrow>
       mlogf strftime h severity msg s = ret (emit
         (map (Print f) ((if lg_logtime l = NONE then []
            else [strftime (time_format (lg_logtime l)) (lg_logtime l = UTC) @ '' '']) @
           (if lg_logtime l = UTC then [''UTC ''] else []) @ [severity_label severity, msg, newline])) s)))"
proof -
  from assms(1) obtain as where r: "represents as s sp" and w: "spec_wf sp"
    by (auto simp: mlog_rel_def)
  from assms(3) obtain a m where a: "find_mlogger h s = ret (Some a)" "ms_heap s a = Some m" "l = set_lg_next None m"
    by (cases rule: find_mlogger_cases [OF represents_registry [OF r] w, of h]) (auto simp: mlogger_settings_def)
  have "mlogf strftime h severity msg s = Some (rbind (message_events strftime l severity msg) (\<lambda>es. Inr (emit es s)))"
    using assms(2) a by (simp add: mlogf_def vmlogf_message)
  then show ?thesis
    by (cases "lg_logtime l")
      (auto simp: message_events_def line_events_def MAX_LOG_def not_less [symmetric])
qed

theorem mlogf_message_witness:
  "\<exists>s. mlogf (\<lambda>fmt utc. fmt) 0 MLOG_CRITICAL ''fire'' s = ret (emit [Callback 7 MLOG_INFO ''fire'' None] s)"
proof -
  let ?l = "\<lparr>lg_type = MLOG_STDOUT, lg_severity = MLOG_INFO, lg_logtime = NONE, lg_handle = 0, lg_path = None,
    lg_logfile = Some Stdout, lg_callback = Some 7, lg_cb_data = None, lg_next = None\<rparr>"
  let ?s = "mlog_init\<lparr>ms_heap := [3 \<mapsto> ?l], mloggers := Some 3, next_handle := 1, nloggers := 1, g_handle := 0\<rparr>"
  let ?sp = "spec_init\<lparr>sp_loggers := [?l], sp_next := 1\<rparr>"
  have "represents [3] ?s ?sp"
    by (auto simp: rep_defs spec_init_def mlog_init_def spec_default_def erase_def set_lg_next_def)
  then have r: "mlog_rel ?s ?sp"
    by (auto simp: mlog_rel_def spec_wf_def spec_init_def INT_MAX_def)
  have l: "mlogger_settings 0 ?s = Some ?l"
    unfolding mlogger_settings_find [OF r] by (simp add: spec_find_def mlogger_check_def)
  have "MLOG_INFO \<le> MLOG_CRITICAL" by (simp add: severity_defs less_eq_logseverity_def)
  then have "mlogf (\<lambda>fmt utc. fmt) 0 MLOG_CRITICAL ''fire'' ?s = ret (emit [Callback 7 MLOG_INFO ''fire'' None] ?s)"
    using mlogf_message [OF r order_refl l, of MLOG_CRITICAL "\<lambda>fmt utc. fmt" "''fire''"] by simp
  then show ?thesis by blast
qed

text \<open>Once a logger has existed, shutting all down and creating a new one leaves the default
  handle at \<open>0\<close>, which names no logger: the default macros then only print the bad-handle
  message, whatever the severity.\<close>

theorem mlog_default_after_restart:
  assumes "mlog_rel s sp" "0 < sp_next sp" "sp_next sp < INT_MAX"
  shows "\<exists>s1 h s2. shutdown_all_mloggers s = ret s1 \<and> get_mlogger fopen (Some a) type severity logtime s1 = ret (h, s2) \<and>
    0 < h \<and> nloggers s2 = 1 \<and>
    mdebugf strftime msg s2 = ret (emit [Print_int Stderr ''Bad logging handle: '' 0] s2) \<and>
    mcriticalf strftime msg s2 = ret (emit [Print_int Stderr ''Bad logging handle: '' 0] s2)"
proof -
  let ?sp = "sp\<lparr>sp_loggers := []\<rparr>"
  obtain s1 where s1: "shutdown_all_mloggers s = ret s1" "mlog_rel s1 ?sp"
    using shutdown_all_refines [OF assms(1)] by blast
  have "ms_heap s1 a = None"
    using s1(2) represents_length unfolding mlog_rel_def rep_defs by fastforce
  then obtain h s2 sp2 where s2: "get_mlogger fopen (Some a) type severity logtime s1 = ret (h, s2)" "mlog_rel s2 sp2"
      "h = int (sp_next sp)" "\<exists>l. sp_loggers sp2 = [l] \<and> lg_handle l = int (sp_next sp)"
    using get_mlogger_refines [where new = "Some a" and fopen = fopen and type = type and severity = severity
        and logtime = logtime, OF s1(2)] assms(3) keeps_retype [of fopen type None]
    by (auto simp: spec_get_def spec_emit_def keeps_links_def split: prod.splits)
  from s2(2) obtain as where r: "represents as s2 sp2" "spec_wf sp2" by (auto simp: mlog_rel_def)
  have "spec_find 0 sp2 = None"
    using s2(4) assms(2) by (auto simp: spec_find_def mlogger_check_def)
  then have f: "find_mlogger 0 s2 = ret None"
    by (cases rule: find_mlogger_cases [OF represents_registry [OF r(1)] r(2), of 0]) auto
  have "length as = 1" using s2(4) registry_length [OF represents_registry [OF r(1)]] by auto
  then have n: "nloggers s2 = 1"
    using r(1) word_eq_of_nat [of "nloggers s2" 1] by (simp add: rep_defs)
  have g: "g_handle s2 = 0" using r(1) s2(4) by (auto simp: rep_defs spec_default_def)
  show ?thesis
    using s1(1) s2(1,3) assms(2) f g n by (auto simp: mdebugf_def mcriticalf_def mlogf_def)
qed

theorem mlog_default_after_restart_witness:
  "\<exists>s1 h s2. shutdown_all_mloggers (mlog_init\<lparr>next_handle := 1\<rparr>) = ret s1 \<and>
    get_mlogger (\<lambda>p. True) (Some 5) MLOG_STDOUT MLOG_TRACE NONE s1 = ret (h, s2) \<and> nloggers s2 = 1 \<and>
    mcriticalf (\<lambda>fmt utc. fmt) ''fire'' s2 = ret (emit [Print_int Stderr ''Bad logging handle: '' 0] s2)"
proof -
  have "mlog_rel (mlog_init\<lparr>next_handle := 1\<rparr>) (spec_init\<lparr>sp_next := 1\<rparr>)"
    by (auto simp: mlog_rel_def rep_defs mlog_init_def spec_init_def spec_wf_def spec_default_def INT_MAX_def
        intro!: exI [of _ "[]"])
  from mlog_default_after_restart [OF this, where fopen = "\<lambda>p. True" and a = 5 and type = MLOG_STDOUT
      and severity = MLOG_TRACE and logtime = NONE and strftime = "\<lambda>fmt utc. fmt" and msg = "''fire''"]
  show ?thesis by (simp add: INT_MAX_def) blast
qed

text \<open>A logger created with type \<open>MLOG_FILE\<close> has no stream, and \<open>setloggertype\<close> with a NULL
  path returns 0 but keeps the type: the first message at or above its severity fails the
  assertion and aborts the process.\<close>

theorem mlog_file_logger_aborts:
  assumes "mlog_rel s sp" "ms_heap s a = None" "sp_next sp < INT_MAX" "severity \<le> severity'"
  shows "\<exists>h s1 s2. get_mlogger fopen (Some a) MLOG_FILE severity logtime s = ret (h, s1) \<and>
    setloggertype fopen h MLOG_FILE None s1 = ret (False, s2) \<and>
    mlogf strftime h severity' msg s2 = Some (Inl Assert_failed)"
proof -
  define l where "l = \<lparr>lg_type = MLOG_FILE, lg_severity = severity, lg_logtime = logtime,
    lg_handle = int (sp_next sp), lg_path = None, lg_logfile = None, lg_callback = None, lg_cb_data = None, lg_next = None\<rparr>"
  define es where "es = [Print Stderr (''Warning: Requested file logger, but path is NULL'' @ newline)]"
  let ?sp = "sp\<lparr>sp_loggers := sp_loggers sp @ [l], sp_next := sp_next sp + 1\<rparr>"
  have w: "spec_wf sp" using assms(1) by (simp add: mlog_rel_def)
  have lh: "lg_handle l = int (sp_next sp)" by (simp add: l_def)
  note new = spec_find_new [OF w lh, where n = "sp_next sp + 1"]
  obtain s1 where s1: "get_mlogger fopen (Some a) MLOG_FILE severity logtime s = ret (int (sp_next sp), s1)"
      "mlog_rel s1 (spec_emit es ?sp)"
    using get_mlogger_refines [where new = "Some a" and fopen = fopen and type = MLOG_FILE and severity = severity
        and logtime = logtime, OF assms(1)] assms(2,3)
    by (auto simp: spec_get_def retype_def l_def es_def)
  have set: "spec_set bad (int (sp_next sp)) (retype fopen MLOG_FILE None) (spec_emit es ?sp) =
      (False, spec_emit es (spec_update (int (sp_next sp)) (\<lambda>l. l\<lparr>lg_type := MLOG_FILE\<rparr>) (spec_emit es ?sp)))" for bad
    using new by (simp add: spec_set_def retype_def es_def)
  obtain s2 where s2: "setloggertype fopen (int (sp_next sp)) MLOG_FILE None s1 = ret (False, s2)"
      "mlog_rel s2 (spec_emit es (spec_update (int (sp_next sp)) (\<lambda>l. l\<lparr>lg_type := MLOG_FILE\<rparr>) (spec_emit es ?sp)))"
    using setloggertype_refines [OF s1(2), of fopen "int (sp_next sp)" MLOG_FILE None] set by auto
  have u: "spec_update k f (spec_emit es q) = spec_emit es (spec_update k f q)" for k f q
    by (simp add: spec_update_def spec_emit_def)
  have "l\<lparr>lg_type := MLOG_FILE\<rparr> = l" by (simp add: l_def)
  then have "spec_find (int (sp_next sp))
      (spec_emit es (spec_update (int (sp_next sp)) (\<lambda>l. l\<lparr>lg_type := MLOG_FILE\<rparr>) (spec_emit es ?sp))) = Some l"
    using new by (simp add: u)
  moreover have "\<not> severity' < lg_severity l" using assms(4) by (simp add: l_def)
  then have "message_events strftime l severity' msg = Inl Assert_failed"
    by (simp add: message_events_def line_events_def l_def)
  ultimately have "mlogf strftime (int (sp_next sp)) severity' msg s2 = Some (Inl Assert_failed)"
    using mlogf_refines [OF s2(2), of strftime "int (sp_next sp)" severity' msg]
    by (simp add: spec_mlogf_def)
  then show ?thesis using s1(1) s2(1) by blast
qed

theorem mlog_file_logger_aborts_witness:
  "\<exists>h s1 s2. get_mlogger (\<lambda>p. True) (Some 4) MLOG_FILE MLOG_INFO UTC mlog_init = ret (h, s1) \<and>
    setloggertype (\<lambda>p. True) h MLOG_FILE None s1 = ret (False, s2) \<and>
    mlogf (\<lambda>fmt utc. fmt) h MLOG_ERROR ''hello'' s2 = Some (Inl Assert_failed)"
  by (rule mlog_file_logger_aborts [OF mlog_rel_init])
    (simp_all add: mlog_init_def spec_init_def INT_MAX_def severity_defs less_eq_logseverity_def)

end
