(* ===== verification/Mlog_Threads.thy ===== *)
theory Mlog_Threads
  imports Mlog_Spec Mutex
begin

section \<open>Loggers between threads (\<open>MIKELIBC_THREADS\<close>)\<close>

text \<open>
  The build with \<open>MIKELIBC_THREADS\<close> has one mutex, \<open>logging_mutex\<close>, which \<open>mlogf\<close>, \<open>get_mlogger\<close> and
  the two shutdown functions take; it is not recursive. The model is a step relation over any number of
  threads. What a call does between \<open>pthread_mutex_lock\<close> and \<open>pthread_mutex_unlock\<close> is one step, the
  operation of theory Mlog; what \<open>shutdown_mlogger\<close> does after it has released the mutex (freeing the
  record, decrementing \<open>nloggers\<close>, testing it and resetting the default handle) are steps of their own,
  one for each access to the shared variables. \<open>malloc\<close> runs before the mutex is taken, and a block belongs to
  the thread from then on until the record is in the list. A callback runs inside the mutex and may
  itself log. The functions that set up a logger take no mutex; mlog.h leaves them to the main thread
  (theory Mlog_Setters has them beside a message), and the machine starts after that, in any registry such calls leave.

  The ghost field \<open>log_hist\<close> records the calls in the order in which they took effect, with their results.
\<close>

subsection \<open>Threads and their steps\<close>

datatype log_pc =
    Out                                                \<comment> \<open>not inside a logger function\<close>
  | Get_lock addr loggertype logseverity logtime       \<comment> \<open>block allocated, about to take the mutex\<close>
  | Get_held addr loggertype logseverity logtime
  | Get_unlock handle
  | Shut_lock handle
  | Shut_held handle
  | Shut_unlock ptr                                    \<comment> \<open>\<open>freenode\<close> is out of the list\<close>
  | Shut_free addr                                     \<comment> \<open>mutex released, about to \<open>free\<close>\<close>
  | Shut_load                                          \<comment> \<open>\<open>nloggers--\<close>: about to read it\<close>
  | Shut_store u32                                     \<comment> \<open>and to write it back\<close>
  | Shut_test                                          \<comment> \<open>about to test \<open>nloggers\<close>\<close>
  | Shut_reset                                         \<comment> \<open>about to set \<open>g_handle\<close> to \<open>-1\<close>\<close>
  | All_lock
  | All_held
  | All_unlock
  | Logf_lock handle logseverity string
  | Logf_held handle logseverity string
  | In_callback callback                               \<comment> \<open>holds the mutex, runs the callback\<close>
  | Logf_unlock

record log_machine =
  shared :: mlog_state
  lock :: "nat option"
  log_pcs :: "log_pc list"
  failed :: "fault option"
  log_hist :: "(log_op \<times> log_result) list"

text \<open>What the threads run with: libc's time format and \<open>fopen\<close>, the message a callback logs (if
  it logs one) and which calls each thread makes.\<close>

record log_env =
  le_strftime :: strftime_fun
  le_fopen :: "string \<Rightarrow> bool"
  le_inner :: "callback \<Rightarrow> (handle \<times> logseverity \<times> string) option"
  le_may :: "nat \<Rightarrow> log_op \<Rightarrow> bool"

fun log_holds :: "log_pc \<Rightarrow> bool" where
  "log_holds (Get_held a t v z) = True"
| "log_holds (Get_unlock h) = True"
| "log_holds (Shut_held h) = True"
| "log_holds (Shut_unlock f) = True"
| "log_holds All_held = True"
| "log_holds All_unlock = True"
| "log_holds (Logf_held h v msg) = True"
| "log_holds (In_callback cb) = True"
| "log_holds Logf_unlock = True"
| "log_holds _ = False"

text \<open>The block a thread has for itself: a new one, or a record it took out of the list.\<close>

fun own_block :: "log_pc \<Rightarrow> ptr" where
  "own_block (Get_lock a t v z) = Some a"
| "own_block (Get_held a t v z) = Some a"
| "own_block (Shut_unlock f) = f"
| "own_block (Shut_free a) = Some a"
| "own_block _ = None"

definition at_log :: "log_machine \<Rightarrow> nat \<Rightarrow> log_pc \<Rightarrow> bool" where
  "at_log s i p \<longleftrightarrow> i < length (log_pcs s) \<and> log_pcs s ! i = p"

definition goto_log :: "nat \<Rightarrow> log_pc \<Rightarrow> log_machine \<Rightarrow> log_machine" where
  "goto_log i p s = s\<lparr>log_pcs := (log_pcs s)[i := p]\<rparr>"

text \<open>A call takes effect on the shared state.\<close>

definition effect :: "mlog_state \<Rightarrow> log_op \<Rightarrow> log_result \<Rightarrow> log_machine \<Rightarrow> log_machine" where
  "effect m c r s = s\<lparr>shared := m, log_hist := log_hist s @ [(c, r)]\<rparr>"

inductive get_step :: "log_env \<Rightarrow> nat \<Rightarrow> log_machine \<Rightarrow> log_machine \<Rightarrow> bool" for E i where
  get_lock: "at_log s i (Get_lock a t v z) \<Longrightarrow> lock s = None \<Longrightarrow>
     get_step E i s (goto_log i (Get_held a t v z) (s\<lparr>lock := Some i\<rparr>))"
| get_body: "at_log s i (Get_held a t v z) \<Longrightarrow> get_mlogger (le_fopen E) (Some a) t v z (shared s) = ret (h, m) \<Longrightarrow>
     get_step E i s (goto_log i (Get_unlock h) (effect m (Get_mlogger True t v z) (Handle h) s))"
| get_fail: "at_log s i (Get_held a t v z) \<Longrightarrow> get_mlogger (le_fopen E) (Some a) t v z (shared s) = Some (Inl e) \<Longrightarrow>
     get_step E i s (s\<lparr>failed := Some e\<rparr>)"
| get_return: "at_log s i (Get_unlock h) \<Longrightarrow> get_step E i s (goto_log i Out (s\<lparr>lock := None\<rparr>))"

inductive shut_step :: "nat \<Rightarrow> log_machine \<Rightarrow> log_machine \<Rightarrow> bool" for i where
  shut_lock: "at_log s i (Shut_lock h) \<Longrightarrow> lock s = None \<Longrightarrow>
     shut_step i s (goto_log i (Shut_held h) (s\<lparr>lock := Some i\<rparr>))"
| shut_body: "at_log s i (Shut_held h) \<Longrightarrow> shutdown_unlink h (shared s) = ret (f, m) \<Longrightarrow>
     shut_step i s (goto_log i (Shut_unlock f) (effect m (Shutdown h) (Flag (f \<noteq> None)) s))"
| shut_fail: "at_log s i (Shut_held h) \<Longrightarrow> shutdown_unlink h (shared s) = Some (Inl e) \<Longrightarrow>
     shut_step i s (s\<lparr>failed := Some e\<rparr>)"
| shut_none: "at_log s i (Shut_unlock None) \<Longrightarrow> shut_step i s (goto_log i Out (s\<lparr>lock := None\<rparr>))"
| shut_unlock: "at_log s i (Shut_unlock (Some a)) \<Longrightarrow>
     shut_step i s (goto_log i (Shut_free a) (s\<lparr>lock := None\<rparr>))"
| shut_free: "at_log s i (Shut_free a) \<Longrightarrow> ms_heap (shared s) a \<noteq> None \<Longrightarrow>
     shut_step i s (goto_log i Shut_load (s\<lparr>shared := (shared s)\<lparr>ms_heap := (ms_heap (shared s))(a := None)\<rparr>\<rparr>))"
| shut_free_twice: "at_log s i (Shut_free a) \<Longrightarrow> ms_heap (shared s) a = None \<Longrightarrow>
     shut_step i s (s\<lparr>failed := Some Double_free\<rparr>)"
| shut_load: "at_log s i Shut_load \<Longrightarrow> shut_step i s (goto_log i (Shut_store (nloggers (shared s))) s)"
| shut_store: "at_log s i (Shut_store k) \<Longrightarrow>
     shut_step i s (goto_log i Shut_test (s\<lparr>shared := (shared s)\<lparr>nloggers := k - 1\<rparr>\<rparr>))"
| shut_test: "at_log s i Shut_test \<Longrightarrow>
     shut_step i s (goto_log i (if nloggers (shared s) = 0 then Shut_reset else Out) s)"
| shut_reset: "at_log s i Shut_reset \<Longrightarrow>
     shut_step i s (goto_log i Out (s\<lparr>shared := (shared s)\<lparr>g_handle := -1\<rparr>\<rparr>))"

inductive all_step :: "nat \<Rightarrow> log_machine \<Rightarrow> log_machine \<Rightarrow> bool" for i where
  all_lock: "at_log s i All_lock \<Longrightarrow> lock s = None \<Longrightarrow>
     all_step i s (goto_log i All_held (s\<lparr>lock := Some i\<rparr>))"
| all_body: "at_log s i All_held \<Longrightarrow> shutdown_all_mloggers (shared s) = ret m \<Longrightarrow>
     all_step i s (goto_log i All_unlock (effect m Shutdown_all Done s))"
| all_fail: "at_log s i All_held \<Longrightarrow> shutdown_all_mloggers (shared s) = Some (Inl e) \<Longrightarrow>
     all_step i s (s\<lparr>failed := Some e\<rparr>)"
| all_return: "at_log s i All_unlock \<Longrightarrow> all_step i s (goto_log i Out (s\<lparr>lock := None\<rparr>))"

text \<open>The callback \<open>mlogf\<close> runs, if it runs one: the event is the call.\<close>

definition callback_of :: "mlog_state \<Rightarrow> mlog_state \<Rightarrow> callback option" where
  "callback_of m m' = (case drop (length (ms_out m)) (ms_out m') of
     Callback cb v msg d # es \<Rightarrow> Some cb | _ \<Rightarrow> None)"

text \<open>A callback that logs calls \<open>mlogf\<close> and thereby \<open>pthread_mutex_lock\<close> again, which waits for a
  mutex that is free. (The rest of the outer call is left out of \<open>cb_lock\<close>: that the mutex is never
  free there is proved below.)\<close>

inductive logf_step :: "log_env \<Rightarrow> nat \<Rightarrow> log_machine \<Rightarrow> log_machine \<Rightarrow> bool" for E i where
  logf_lock: "at_log s i (Logf_lock h v msg) \<Longrightarrow> lock s = None \<Longrightarrow>
     logf_step E i s (goto_log i (Logf_held h v msg) (s\<lparr>lock := Some i\<rparr>))"
| logf_body: "at_log s i (Logf_held h v msg) \<Longrightarrow> mlogf (le_strftime E) h v msg (shared s) = ret m \<Longrightarrow>
     callback_of (shared s) m = None \<Longrightarrow>
     logf_step E i s (goto_log i Logf_unlock (effect m (Mlogf h v msg) Done s))"
| logf_callback: "at_log s i (Logf_held h v msg) \<Longrightarrow> mlogf (le_strftime E) h v msg (shared s) = ret m \<Longrightarrow>
     callback_of (shared s) m = Some cb \<Longrightarrow>
     logf_step E i s (goto_log i (In_callback cb) (effect m (Mlogf h v msg) Done s))"
| logf_fail: "at_log s i (Logf_held h v msg) \<Longrightarrow> mlogf (le_strftime E) h v msg (shared s) = Some (Inl e) \<Longrightarrow>
     logf_step E i s (s\<lparr>failed := Some e\<rparr>)"
| cb_return: "at_log s i (In_callback cb) \<Longrightarrow> le_inner E cb = None \<Longrightarrow>
     logf_step E i s (goto_log i Logf_unlock s)"
| cb_unset: "at_log s i (In_callback cb) \<Longrightarrow> le_inner E cb = Some (h, v, msg) \<Longrightarrow> h < 0 \<Longrightarrow>
     logf_step E i s (goto_log i Logf_unlock s)"
| cb_lock: "at_log s i (In_callback cb) \<Longrightarrow> le_inner E cb = Some (h, v, msg) \<Longrightarrow> 0 \<le> h \<Longrightarrow> lock s = None \<Longrightarrow>
     logf_step E i s (goto_log i (Logf_held h v msg) (s\<lparr>lock := Some i\<rparr>))"
| logf_return: "at_log s i Logf_unlock \<Longrightarrow> logf_step E i s (goto_log i Out (s\<lparr>lock := None\<rparr>))"

definition log_thread_step :: "log_env \<Rightarrow> nat \<Rightarrow> log_machine \<Rightarrow> log_machine \<Rightarrow> bool" where
  "log_thread_step E i s s' \<longleftrightarrow> failed s = None \<and>
     (get_step E i s s' \<or> shut_step i s s' \<or> all_step i s s' \<or> logf_step E i s s')"

text \<open>A thread calls a function, up to the point where it needs the mutex. \<open>malloc\<close> gives a block that
  is not live and that no other thread was given, or fails; \<open>mlogf\<close> on a negative handle returns at
  once. The macros read the default handle when they call \<open>mlogf\<close>, so any handle may come.\<close>

inductive log_call :: "log_env \<Rightarrow> nat \<Rightarrow> log_machine \<Rightarrow> log_machine \<Rightarrow> bool" for E i where
  call_get: "at_log s i Out \<Longrightarrow> le_may E i (Get_mlogger True t v z) \<Longrightarrow> ms_heap (shared s) a = None \<Longrightarrow>
     \<forall>p \<in> set (log_pcs s). own_block p \<noteq> Some a \<Longrightarrow>
     log_call E i s (goto_log i (Get_lock a t v z) s)"
| call_get_null: "at_log s i Out \<Longrightarrow> le_may E i (Get_mlogger False t v z) \<Longrightarrow>
     get_mlogger (le_fopen E) None t v z (shared s) = ret (h, m) \<Longrightarrow>
     log_call E i s (effect m (Get_mlogger False t v z) (Handle h) s)"
| call_shutdown: "at_log s i Out \<Longrightarrow> le_may E i (Shutdown h) \<Longrightarrow> log_call E i s (goto_log i (Shut_lock h) s)"
| call_all: "at_log s i Out \<Longrightarrow> le_may E i Shutdown_all \<Longrightarrow> log_call E i s (goto_log i All_lock s)"
| call_logf: "at_log s i Out \<Longrightarrow> le_may E i (Mlogf h v msg) \<Longrightarrow> 0 \<le> h \<Longrightarrow>
     log_call E i s (goto_log i (Logf_lock h v msg) s)"
| call_logf_unset: "at_log s i Out \<Longrightarrow> le_may E i (Mlogf h v msg) \<Longrightarrow> h < 0 \<Longrightarrow>
     log_call E i s (effect (shared s) (Mlogf h v msg) Done s)"

definition log_start :: "nat \<Rightarrow> mlog_state \<Rightarrow> log_machine" where
  "log_start n m = \<lparr>shared = m, lock = None, log_pcs = replicate n Out, failed = None, log_hist = []\<rparr>"

definition log_any_step :: "log_env \<Rightarrow> log_machine \<Rightarrow> log_machine \<Rightarrow> bool" where
  "log_any_step E s s' \<longleftrightarrow> (\<exists>i. log_thread_step E i s s' \<or> failed s = None \<and> log_call E i s s')"

definition log_reach :: "log_env \<Rightarrow> log_machine \<Rightarrow> log_machine \<Rightarrow> bool" where
  "log_reach E = (log_any_step E)\<^sup>*\<^sup>*"

inductive_cases get_stepE: "get_step E i s s'"
inductive_cases shut_stepE: "shut_step i s s'"
inductive_cases all_stepE: "all_step i s s'"
inductive_cases logf_stepE: "logf_step E i s s'"
inductive_cases log_callE: "log_call E i s s'"

lemma machine_fields [simp]:
  "shared (goto_log i p s) = shared s" "lock (goto_log i p s) = lock s" "failed (goto_log i p s) = failed s"
  "log_hist (goto_log i p s) = log_hist s" "log_pcs (goto_log i p s) = (log_pcs s)[i := p]"
  "shared (effect m c r s) = m" "lock (effect m c r s) = lock s" "failed (effect m c r s) = failed s"
  "log_hist (effect m c r s) = log_hist s @ [(c, r)]" "log_pcs (effect m c r s) = log_pcs s"
  by (simp_all add: goto_log_def effect_def)

subsection \<open>The mutex\<close>

lemma lock_thread:
  "log_thread_step E i s s' \<Longrightarrow> owner_ok log_holds (lock s) (log_pcs s) \<Longrightarrow>
     owner_ok log_holds (lock s') (log_pcs s')"
  unfolding log_thread_step_def
  by (elim conjE disjE get_stepE shut_stepE all_stepE logf_stepE) (simp_all add: at_log_def owner_steps)

lemma lock_call:
  "log_call E i s s' \<Longrightarrow> owner_ok log_holds (lock s) (log_pcs s) \<Longrightarrow>
     owner_ok log_holds (lock s') (log_pcs s')"
  by (erule log_callE) (simp_all add: at_log_def owner_steps)

lemma any_step_length: "log_any_step E s s' \<Longrightarrow> length (log_pcs s') = length (log_pcs s)"
  unfolding log_any_step_def log_thread_step_def
  by (elim exE conjE disjE get_stepE shut_stepE all_stepE logf_stepE log_callE) simp_all

lemma reach_length: "log_reach E s s' \<Longrightarrow> length (log_pcs s') = length (log_pcs s)"
  unfolding log_reach_def by (induction rule: rtranclp.induct) (simp_all add: any_step_length)

subsection \<open>Memory\<close>

text \<open>The record is in the heap: it came out of the list and is not freed yet.\<close>

fun removed :: "log_pc \<Rightarrow> bool" where
  "removed (Shut_unlock f) = (f \<noteq> None)"
| "removed (Shut_free a) = True"
| "removed _ = False"

definition owns :: "log_pc list \<Rightarrow> nat \<Rightarrow> ptr" where
  "owns ps i = (if i < length ps then own_block (ps ! i) else None)"

definition took :: "log_pc list \<Rightarrow> nat \<Rightarrow> bool" where
  "took ps i \<longleftrightarrow> i < length ps \<and> removed (ps ! i)"

lemma owns_update [simp]:
  "i < length ps \<Longrightarrow> owns (ps[i := p]) = (owns ps)(i := own_block p)"
  "i < length ps \<Longrightarrow> took (ps[i := p]) = (took ps)(i := removed p)"
  by (auto simp: owns_def took_def fun_eq_iff nth_list_update)

text \<open>\<open>L\<close> are the addresses of the list, \<open>D\<close> the live ones: no block has two owners, and what is live
  is in the list or will be freed.\<close>

definition mem_inv :: "addr set \<Rightarrow> addr set \<Rightarrow> (nat \<Rightarrow> ptr) \<Rightarrow> (nat \<Rightarrow> bool) \<Rightarrow> bool" where
  "mem_inv L D ow tk \<longleftrightarrow>
     (\<forall>i a. ow i = Some a \<longrightarrow> a \<notin> L \<and> (a \<in> D \<longleftrightarrow> tk i)) \<and>
     (\<forall>i j a. ow i = Some a \<longrightarrow> ow j = Some a \<longrightarrow> i = j) \<and>
     L \<subseteq> D \<and> (\<forall>a. a \<in> D \<longrightarrow> a \<notin> L \<longrightarrow> (\<exists>i. ow i = Some a))"

lemma mem_keep:
  "mem_inv L D ow tk \<Longrightarrow> ow i = r \<Longrightarrow> tk i = b \<Longrightarrow> mem_inv L D (ow(i := r)) (tk(i := b))"
  by (simp add: fun_upd_idem)

lemma mem_alloc:
  "mem_inv L D ow tk \<Longrightarrow> ow i = None \<Longrightarrow> a \<notin> D \<Longrightarrow> \<forall>j. ow j \<noteq> Some a \<Longrightarrow>
     mem_inv L D (ow(i := Some a)) (tk(i := False))"
  unfolding mem_inv_def by (auto split: if_splits) (metis option.distinct(1) option.inject)+

lemma mem_publish:
  "mem_inv L D ow tk \<Longrightarrow> ow i = Some a \<Longrightarrow> \<not> tk i \<Longrightarrow>
     mem_inv (insert a L) (insert a D) (ow(i := None)) (tk(i := False))"
  unfolding mem_inv_def by (auto split: if_splits) (metis option.distinct(1) option.inject)+

lemma mem_take:
  "mem_inv L D ow tk \<Longrightarrow> ow i = None \<Longrightarrow> a \<in> L \<Longrightarrow>
     mem_inv (L - {a}) D (ow(i := Some a)) (tk(i := True))"
  unfolding mem_inv_def by (auto split: if_splits) (metis option.distinct(1) option.inject)+

lemma mem_free:
  "mem_inv L D ow tk \<Longrightarrow> ow i = Some a \<Longrightarrow> mem_inv L (D - {a}) (ow(i := None)) (tk(i := False))"
  unfolding mem_inv_def by (auto split: if_splits) (metis option.distinct(1) option.inject)+

lemma mem_all:
  "mem_inv L D ow tk \<Longrightarrow> ow i = None \<Longrightarrow> mem_inv {} (D - L) (ow(i := None)) (tk(i := False))"
  unfolding mem_inv_def by (auto split: if_splits) (metis option.distinct(1) option.inject)+

subsection \<open>The calls take effect one after the other\<close>

definition in_order :: "log_env \<Rightarrow> log_spec \<Rightarrow> (log_op \<times> log_result) list \<Rightarrow> log_spec \<Rightarrow> bool" where
  "in_order E sp hist sp' \<longleftrightarrow> spec_run (le_strftime E) (le_fopen E) (map fst hist) sp = Inr (map snd hist, sp')"

lemma spec_run_append:
  "spec_run strftime fopen cs sp = Inr (rs, sp1) \<Longrightarrow> spec_run strftime fopen (cs @ ds) sp =
     rbind (spec_run strftime fopen ds sp1) (\<lambda>(qs, sp2). Inr (rs @ qs, sp2))"
proof (induction cs arbitrary: sp rs)
  case Nil
  then show ?case by (cases "spec_run strftime fopen ds sp1") auto
next
  case (Cons c cs)
  then show ?case
    by (cases "spec_run strftime fopen ds sp1") (fastforce simp: res_simps)+
qed

lemma in_order_nil: "in_order E sp [] sp' \<longleftrightarrow> sp' = sp"
  by (auto simp: in_order_def)

lemma in_order_snoc:
  "in_order E sp hist sp1 \<Longrightarrow> spec_step (le_strftime E) (le_fopen E) c sp1 = Inr (r, sp2) \<Longrightarrow>
     in_order E sp (hist @ [(c, r)]) sp2"
  by (simp add: in_order_def spec_run_append)

lemma in_order_fault:
  "in_order E sp hist sp1 \<Longrightarrow> spec_step (le_strftime E) (le_fopen E) c sp1 = Inl e \<Longrightarrow>
     spec_run (le_strftime E) (le_fopen E) (map fst hist @ [c]) sp = Inl e"
  by (simp add: in_order_def spec_run_append)

text \<open>The state of the machine without its mutex and its counters: the registry represents what the
  calls so far give one after the other, and all memory is accounted for.\<close>

definition machine_as :: "log_env \<Rightarrow> log_spec \<Rightarrow> addr list \<Rightarrow> log_spec \<Rightarrow> log_machine \<Rightarrow> bool" where
  "machine_as E sp0 as sp s \<longleftrightarrow>
     registry as (shared s) sp \<and> spec_wf sp \<and> in_order E sp0 (log_hist s) sp \<and>
     mem_inv (set as) (dom (ms_heap (shared s))) (owns (log_pcs s)) (took (log_pcs s))"

lemma machine_as_failed [simp]: "machine_as E sp0 as sp (s\<lparr>failed := e\<rparr>) = machine_as E sp0 as sp s"
  by (simp add: machine_as_def)

lemma machine_as_goto:
  "machine_as E sp0 as sp s \<Longrightarrow> at_log s i q \<Longrightarrow> own_block p = own_block q \<Longrightarrow> removed p = removed q \<Longrightarrow>
     machine_as E sp0 as sp (goto_log i p s)"
  by (simp add: machine_as_def at_log_def owns_def took_def mem_keep)

lemma machine_as_shared:
  "machine_as E sp0 as sp s \<Longrightarrow> machine_as E sp0 as sp (s\<lparr>shared := (shared s)\<lparr>nloggers := k\<rparr>\<rparr>)"
  "machine_as E sp0 as sp s \<Longrightarrow> machine_as E sp0 as sp (s\<lparr>shared := (shared s)\<lparr>g_handle := h\<rparr>\<rparr>)"
  "machine_as E sp0 as sp s \<Longrightarrow> machine_as E sp0 as sp (s\<lparr>lock := l\<rparr>)"
  by (simp_all add: machine_as_def registry_counters)

lemma at_log_fields [simp]:
  "at_log (s\<lparr>lock := l\<rparr>) i p = at_log s i p" "at_log (s\<lparr>shared := m\<rparr>) i p = at_log s i p"
  "at_log (effect m c r s) i p = at_log s i p"
  by (simp_all add: at_log_def effect_def)

lemma at_log_owns: "at_log s i p \<Longrightarrow> owns (log_pcs s) i = own_block p \<and> took (log_pcs s) i = removed p"
  by (simp add: at_log_def owns_def took_def)

lemmas machine_as_moves = machine_as_goto machine_as_shared

text \<open>An operation that takes effect.\<close>

lemma machine_as_effect:
  assumes "machine_as E sp0 as sp s" "at_log s i q"
    "spec_step (le_strftime E) (le_fopen E) c sp = Inr (r, sp')" "registry bs m sp'" "spec_wf sp'"
    "mem_inv (set bs) (dom (ms_heap m)) ((owns (log_pcs s))(i := own_block p)) ((took (log_pcs s))(i := removed p))"
  shows "machine_as E sp0 bs sp' (goto_log i p (effect m c r s))"
  using assms in_order_snoc [OF _ assms(3)] by (simp add: machine_as_def at_log_def)

lemma get_body_as:
  assumes m: "machine_as E sp0 as sp s" and at: "at_log s i (Get_held a t v z)"
  shows "if sp_next sp < INT_MAX
    then \<exists>h m sp'. get_mlogger (le_fopen E) (Some a) t v z (shared s) = ret (h, m) \<and>
      machine_as E sp0 (as @ [a]) sp' (goto_log i (Get_unlock h) (effect m (Get_mlogger True t v z) (Handle h) s)) \<and>
      nloggers m = nloggers (shared s) + 1 \<and> g_handle m = (if g_handle (shared s) < 0 then 0 else g_handle (shared s))
    else get_mlogger (le_fopen E) (Some a) t v z (shared s) = Some (Inl Signed_overflow) \<and>
      spec_step (le_strftime E) (le_fopen E) (Get_mlogger True t v z) sp = Inl Signed_overflow"
proof (cases "sp_next sp < INT_MAX")
  case True
  have r: "registry as (shared s) sp" and w: "spec_wf sp"
    and mem: "mem_inv (set as) (dom (ms_heap (shared s))) (owns (log_pcs s)) (took (log_pcs s))"
    using m by (auto simp: machine_as_def)
  have o: "owns (log_pcs s) i = Some a" "\<not> took (log_pcs s) i" using at_log_owns [OF at] by auto
  then have "a \<notin> set as" using mem by (auto simp: mem_inv_def)
  from get_mlogger_registry [OF r w this True, of "le_fopen E" t v z] obtain m' sp' where
    g: "get_mlogger (le_fopen E) (Some a) t v z (shared s) = ret (int (sp_next sp), m')"
      "spec_get (le_fopen E) True t v z sp = Inr (int (sp_next sp), sp')"
      "registry (as @ [a]) m' sp'" "spec_wf sp'" "dom (ms_heap m') = insert a (dom (ms_heap (shared s)))"
      "nloggers m' = nloggers (shared s) + 1" "g_handle m' = (if g_handle (shared s) < 0 then 0 else g_handle (shared s))"
    by blast
  have "machine_as E sp0 (as @ [a]) sp'
      (goto_log i (Get_unlock (int (sp_next sp))) (effect m' (Get_mlogger True t v z) (Handle (int (sp_next sp))) s))"
    using m at g mem_publish [OF mem o] by (intro machine_as_effect) auto
  with g True show ?thesis by auto
next
  case False
  then show ?thesis using get_mlogger_full [of as "shared s" sp] m by (simp add: machine_as_def)
qed

lemma logf_body_as:
  assumes m: "machine_as E sp0 as sp s"
  shows "case spec_step (le_strftime E) (le_fopen E) (Mlogf h v msg) sp of
      Inl e \<Rightarrow> mlogf (le_strftime E) h v msg (shared s) = Some (Inl e) \<and> e = Assert_failed
    | Inr (r, sp') \<Rightarrow> \<exists>es. mlogf (le_strftime E) h v msg (shared s) = ret (emit es (shared s)) \<and> r = Done \<and>
        sp_loggers sp' = sp_loggers sp \<and> (\<forall>i q p. at_log s i q \<longrightarrow> own_block q = None \<longrightarrow> own_block p = None \<longrightarrow>
          \<not> removed p \<longrightarrow> machine_as E sp0 as sp' (goto_log i p (effect (emit es (shared s)) (Mlogf h v msg) Done s)))"
proof -
  have r: "registry as (shared s) sp" and w: "spec_wf sp"
    and mem: "mem_inv (set as) (dom (ms_heap (shared s))) (owns (log_pcs s)) (took (log_pcs s))"
    using m by (auto simp: machine_as_def)
  note f = mlogf_registry [OF r w, of "le_strftime E" h v msg]
  show ?thesis
  proof (cases "spec_mlogf (le_strftime E) h v msg sp")
    case (Inl e)
    moreover from this have "e = Assert_failed"
      by (auto simp: spec_mlogf_def message_events_def line_events_def res_simps
          split: if_splits option.splits loggertype.splits)
    ultimately show ?thesis using f by simp
  next
    case (Inr sp')
    with f obtain es where e: "mlogf (le_strftime E) h v msg (shared s) = ret (emit es (shared s))" "sp' = spec_emit es sp"
      by auto
    have "machine_as E sp0 as sp' (goto_log i p (effect (emit es (shared s)) (Mlogf h v msg) Done s))"
      if "at_log s i q" "own_block q = None" "own_block p = None" "\<not> removed p" for i p q
    proof -
      have "\<not> removed q" using that(2) by (cases q) auto
      then have "mem_inv (set as) (dom (ms_heap (shared s))) ((owns (log_pcs s))(i := own_block p))
          ((took (log_pcs s))(i := removed p))"
        using mem at_log_owns [OF that(1)] that by (intro mem_keep) auto
      then show ?thesis
        using m that(1) Inr w registry_emit [OF r, of es] e(2) by (intro machine_as_effect) auto
    qed
    then show ?thesis using Inr e by (auto simp: spec_emit_def)
  qed
qed

lemma shut_body_as:
  assumes m: "machine_as E sp0 as sp s" and at: "at_log s i (Shut_held h)"
  shows "\<exists>f m bs sp'. shutdown_unlink h (shared s) = ret (f, m) \<and>
    spec_step (le_strftime E) (le_fopen E) (Shutdown h) sp = Inr (Flag (f \<noteq> None), sp') \<and>
    machine_as E sp0 bs sp' (goto_log i (Shut_unlock f) (effect m (Shutdown h) (Flag (f \<noteq> None)) s)) \<and>
    nloggers m = nloggers (shared s) \<and> g_handle m = g_handle (shared s) \<and>
    length as = length bs + of_bool (f \<noteq> None) \<and> (f = None \<longrightarrow> bs = as)"
proof -
  have r: "registry as (shared s) sp" and w: "spec_wf sp"
    and mem: "mem_inv (set as) (dom (ms_heap (shared s))) (owns (log_pcs s)) (took (log_pcs s))"
    using m by (auto simp: machine_as_def)
  obtain m' f bs where u: "shutdown_unlink h (shared s) = ret (f, m')" "registry bs m' (snd (spec_shutdown h sp))"
      "spec_wf (snd (spec_shutdown h sp))" "(f \<noteq> None) = fst (spec_shutdown h sp)"
      "dom (ms_heap m') = dom (ms_heap (shared s))" "nloggers m' = nloggers (shared s)"
      "g_handle m' = g_handle (shared s)"
      "case f of None \<Rightarrow> bs = as \<and> snd (spec_shutdown h sp) = sp
       | Some a \<Rightarrow> a \<in> set as \<and> set bs = set as - {a} \<and> length as = Suc (length bs)"
    using shutdown_unlink_registry [OF r w, of h] by blast
  have st: "spec_step (le_strftime E) (le_fopen E) (Shutdown h) sp = Inr (Flag (f \<noteq> None), snd (spec_shutdown h sp))"
    by (simp add: apfst_def map_prod_def case_prod_beta u(4) [symmetric])
  have o: "owns (log_pcs s) i = None" "\<not> took (log_pcs s) i" using at_log_owns [OF at] by auto
  have "mem_inv (set bs) (dom (ms_heap m')) ((owns (log_pcs s))(i := f)) ((took (log_pcs s))(i := f \<noteq> None))"
  proof (cases f)
    case None
    then show ?thesis using mem_keep [OF mem o(1), of False] o(2) u(5,8) by simp
  next
    case (Some a)
    then show ?thesis using mem_take [OF mem o(1), of a] u(5,8) by simp
  qed
  then have "machine_as E sp0 bs (snd (spec_shutdown h sp))
      (goto_log i (Shut_unlock f) (effect m' (Shutdown h) (Flag (f \<noteq> None)) s))"
    using m at st u(2,3) by (intro machine_as_effect) auto
  with u st show ?thesis by (auto simp: of_bool_def split: option.splits)
qed

lemma all_body_as:
  assumes m: "machine_as E sp0 as sp s" and at: "at_log s i All_held"
  shows "if nloggers (shared s) = of_nat (length as)
    then \<exists>m. shutdown_all_mloggers (shared s) = ret m \<and>
      machine_as E sp0 [] (sp\<lparr>sp_loggers := []\<rparr>) (goto_log i All_unlock (effect m Shutdown_all Done s)) \<and>
      nloggers m = 0 \<and> g_handle m = -1
    else shutdown_all_mloggers (shared s) = Some (Inl Assert_failed)"
proof -
  have r: "registry as (shared s) sp" and w: "spec_wf sp"
    and mem: "mem_inv (set as) (dom (ms_heap (shared s))) (owns (log_pcs s)) (took (log_pcs s))"
    using m by (auto simp: machine_as_def)
  have l: "lst lg_next (ms_heap (shared s)) (mloggers (shared s)) as" using r by (simp add: registry_def)
  let ?m = "(shared s)\<lparr>ms_heap := ms_heap (shared s) |` (- set as), nloggers := 0, g_handle := -1, mloggers := None\<rparr>"
  have all: "shutdown_all_mloggers (shared s) =
      (if nloggers (shared s) = of_nat (length as) then ret ?m else Some (Inl Assert_failed))"
    by (simp add: shutdown_all_mloggers_def shutdown_all_loop_ok [OF l])
  have o: "owns (log_pcs s) i = None" using at_log_owns [OF at] by auto
  have d: "dom (ms_heap ?m) = dom (ms_heap (shared s)) - set as" by auto
  have "registry [] ?m (sp\<lparr>sp_loggers := []\<rparr>)" using r by (simp add: registry_def)
  moreover have "spec_wf (sp\<lparr>sp_loggers := []\<rparr>)" using w by (simp add: spec_wf_def)
  ultimately have "machine_as E sp0 [] (sp\<lparr>sp_loggers := []\<rparr>) (goto_log i All_unlock (effect ?m Shutdown_all Done s))"
    using mem_all [OF mem o] d m at by (intro machine_as_effect) auto
  with all show ?thesis by simp
qed

text \<open>The two counters, seen from the program point of a thread that shuts a logger down and is not
  disturbed: \<open>k\<close> is the length of the list.\<close>

fun counters :: "log_pc \<Rightarrow> u32 \<Rightarrow> handle \<Rightarrow> nat \<Rightarrow> bool" where
  "counters (Shut_unlock (Some a)) n g k \<longleftrightarrow> unat n = k + 1 \<and> g = 0"
| "counters (Shut_free a) n g k \<longleftrightarrow> unat n = k + 1 \<and> g = 0"
| "counters Shut_load n g k \<longleftrightarrow> unat n = k + 1 \<and> g = 0"
| "counters (Shut_store c) n g k \<longleftrightarrow> unat n = k + 1 \<and> g = 0 \<and> c = n"
| "counters Shut_test n g k \<longleftrightarrow> unat n = k \<and> g = 0"
| "counters Shut_reset n g k \<longleftrightarrow> unat n = 0 \<and> k = 0"
| "counters _ n g k \<longleftrightarrow> unat n = k \<and> g = (if k = 0 then -1 else 0)"

lemma counters_waiting [simp]:
  "counters (Get_lock a t v z) = counters Out" "counters (Shut_lock h) = counters Out"
  "counters All_lock = counters Out" "counters (Logf_lock h v msg) = counters Out"
  by (simp_all add: fun_eq_iff)

definition counts :: "log_machine \<Rightarrow> nat \<Rightarrow> addr list \<Rightarrow> bool" where
  "counts s i as \<longleftrightarrow> counters (log_pcs s ! i) (nloggers (shared s)) (g_handle (shared s)) (length as)"

lemma counts_at [simp]:
  "at_log s i q \<Longrightarrow> counts s i as = counters q (nloggers (shared s)) (g_handle (shared s)) (length as)"
  "at_log s i q \<Longrightarrow> counts (goto_log i p s) i as = counters p (nloggers (shared s)) (g_handle (shared s)) (length as)"
  by (simp_all add: counts_def at_log_def)

lemma counts_failed [simp]: "counts (s\<lparr>failed := e\<rparr>) i as = counts s i as"
  by (simp add: counts_def)

lemma machine_as_short: "machine_as E sp0 as sp s \<Longrightarrow> length as \<le> INT_MAX"
  using registry_length [of as "shared s" sp] card_handles [of sp] by (simp add: machine_as_def spec_wf_def)

text \<open>What a step of thread \<open>i\<close> keeps. A step that faults does so where the sequential run does, if the
  counters were right.\<close>

definition step_post :: "log_env \<Rightarrow> log_spec \<Rightarrow> nat \<Rightarrow> addr list \<Rightarrow> log_spec \<Rightarrow> log_machine \<Rightarrow> log_machine \<Rightarrow> bool" where
  "step_post E sp0 i as sp s s' \<longleftrightarrow>
     (\<exists>as' sp'. machine_as E sp0 as' sp' s' \<and> (counts s i as \<longrightarrow> counts s' i as')) \<and>
     (\<forall>e. failed s' = Some e \<longrightarrow> (e = Assert_failed \<or> e = Signed_overflow) \<and>
        (counts s i as \<longrightarrow> (\<exists>c. spec_step (le_strftime E) (le_fopen E) c sp = Inl e)))"

lemma step_postI:
  "machine_as E sp0 as' sp' s' \<Longrightarrow> failed s' = None \<Longrightarrow> (counts s i as \<Longrightarrow> counts s' i as') \<Longrightarrow>
     step_post E sp0 i as sp s s'"
  by (auto simp: step_post_def)

lemma step_post_fault:
  "machine_as E sp0 as sp s \<Longrightarrow> e = Assert_failed \<or> e = Signed_overflow \<Longrightarrow>
     (counts s i as \<Longrightarrow> spec_step (le_strftime E) (le_fopen E) c sp = Inl e) \<Longrightarrow>
     step_post E sp0 i as sp s (s\<lparr>failed := Some e\<rparr>)"
  by (auto simp: step_post_def)

text \<open>A step that does not touch the registry.\<close>

lemma step_post_move:
  "machine_as E sp0 as sp s \<Longrightarrow> failed s = None \<Longrightarrow> at_log s i q \<Longrightarrow> own_block p = own_block q \<Longrightarrow>
     removed p = removed q \<Longrightarrow> (\<And>n g k. counters q n g k \<Longrightarrow> counters p n g k) \<Longrightarrow>
     step_post E sp0 i as sp s (goto_log i p s)"
  "machine_as E sp0 as sp s \<Longrightarrow> failed s = None \<Longrightarrow> at_log s i q \<Longrightarrow> own_block p = own_block q \<Longrightarrow>
     removed p = removed q \<Longrightarrow> (\<And>n g k. counters q n g k \<Longrightarrow> counters p n g k) \<Longrightarrow>
     step_post E sp0 i as sp s (goto_log i p (s\<lparr>lock := l\<rparr>))"
  by (rule step_postI [of E sp0 as sp]; simp add: machine_as_moves)+

lemma get_step_as:
  assumes "get_step E i s s'" "machine_as E sp0 as sp s" "failed s = None"
  shows "step_post E sp0 i as sp s s'"
  using assms(1)
proof (rule get_stepE)
  fix a t v z h m
  assume s': "s' = goto_log i (Get_unlock h) (effect m (Get_mlogger True t v z) (Handle h) s)"
    and at: "at_log s i (Get_held a t v z)" and g: "get_mlogger (le_fopen E) (Some a) t v z (shared s) = ret (h, m)"
  from get_body_as [OF assms(2) at] g obtain sp' where m: "machine_as E sp0 (as @ [a]) sp' s'"
      "nloggers m = nloggers (shared s) + 1"
      "g_handle m = (if g_handle (shared s) < 0 then 0 else g_handle (shared s))"
    by (auto simp: s' split: if_splits)
  show ?thesis
  proof (rule step_postI [OF m(1)])
    show "failed s' = None" using s' assms(3) by simp
    assume "counts s i as"
    moreover have "length as \<le> INT_MAX" by (rule machine_as_short [OF assms(2)])
    ultimately show "counts s' i (as @ [a])"
      using at m(2,3) by (auto simp: s' unat_word_ariths INT_MAX_def split: if_splits)
  qed
next
  fix a t v z e
  assume "s' = s\<lparr>failed := Some e\<rparr>" "at_log s i (Get_held a t v z)"
    "get_mlogger (le_fopen E) (Some a) t v z (shared s) = Some (Inl e)"
  then show ?thesis
    using get_body_as [OF assms(2)] assms(2)
    by (fastforce split: if_splits intro: step_post_fault [where c = "Get_mlogger True t v z"])
qed (use assms(2,3) in \<open>auto intro: step_post_move\<close>)

lemma free_step_as:
  assumes m: "machine_as E sp0 as sp s" and at: "at_log s i (Shut_free a)"
  shows "ms_heap (shared s) a \<noteq> None"
    "machine_as E sp0 as sp (goto_log i Shut_load
       (s\<lparr>shared := (shared s)\<lparr>ms_heap := (ms_heap (shared s))(a := None)\<rparr>\<rparr>))"
proof -
  let ?m = "(shared s)\<lparr>ms_heap := (ms_heap (shared s))(a := None)\<rparr>"
  have o: "owns (log_pcs s) i = Some a" "took (log_pcs s) i" using at_log_owns [OF at] by auto
  have r: "registry as (shared s) sp"
    and mem: "mem_inv (set as) (dom (ms_heap (shared s))) (owns (log_pcs s)) (took (log_pcs s))"
    using m by (auto simp: machine_as_def)
  have "a \<notin> set as" "a \<in> dom (ms_heap (shared s))" using mem o by (auto simp: mem_inv_def)
  then show "ms_heap (shared s) a \<noteq> None" by blast
  have "registry as ?m sp"
    using registry_free [OF r \<open>a \<notin> set as\<close>, where k = "nloggers (shared s)" and g = "g_handle (shared s)"] by simp
  then show "machine_as E sp0 as sp (goto_log i Shut_load (s\<lparr>shared := ?m\<rparr>))"
    using m at mem_free [OF mem o(1)] by (simp add: machine_as_def at_log_def)
qed

lemma shut_step_as:
  assumes "shut_step i s s'" "machine_as E sp0 as sp s" "failed s = None"
  shows "step_post E sp0 i as sp s s'"
  using assms(1)
proof (rule shut_stepE)
  fix h f m
  assume a: "s' = goto_log i (Shut_unlock f) (effect m (Shutdown h) (Flag (\<exists>y. f = Some y)) s)"
    "at_log s i (Shut_held h)" "shutdown_unlink h (shared s) = ret (f, m)"
  from shut_body_as [OF assms(2) a(2)] a(1,3) obtain bs sp' where m: "machine_as E sp0 bs sp' s'"
      "nloggers m = nloggers (shared s)" "g_handle m = g_handle (shared s)"
      "length as = length bs + of_bool (f \<noteq> None)" "f = None \<longrightarrow> bs = as"
    by auto
  show ?thesis
  proof (rule step_postI [OF m(1)])
    show "failed s' = None" using a(1) assms(3) by simp
    show "counts s' i bs" if "counts s i as"
    proof -
      have "counts s' i bs = counters (Shut_unlock f) (nloggers (shared s)) (g_handle (shared s)) (length bs)"
        unfolding a(1) using a(2) m(2,3) by simp
      with that a(2) m(4) show ?thesis by (cases f) (simp_all split: if_splits)
    qed
  qed
next
  fix h e
  assume "at_log s i (Shut_held h)" "shutdown_unlink h (shared s) = Some (Inl e)"
  then show ?thesis using shut_body_as [OF assms(2)] by fastforce
next
  fix a
  assume "at_log s i (Shut_free a)"
    "s' = goto_log i Shut_load (s\<lparr>shared := (shared s)\<lparr>ms_heap := (ms_heap (shared s))(a := None)\<rparr>\<rparr>)"
  then show ?thesis using free_step_as(2) [OF assms(2)] assms(3) by (auto intro!: step_postI)
next
  fix a
  assume "at_log s i (Shut_free a)" "ms_heap (shared s) a = None"
  then show ?thesis using free_step_as(1) [OF assms(2)] by auto
next
  fix k
  assume at: "at_log s i (Shut_store k)"
    and s': "s' = goto_log i Shut_test (s\<lparr>shared := (shared s)\<lparr>nloggers := k - 1\<rparr>\<rparr>)"
  have "machine_as E sp0 as sp s'" using assms(2) at by (auto simp: s' intro!: machine_as_moves)
  then show ?thesis
    by (rule step_postI) (use at s' assms(3) in \<open>auto simp: unat_sub_1\<close>)
next
  assume at: "at_log s i Shut_reset"
    and s': "s' = goto_log i Out (s\<lparr>shared := (shared s)\<lparr>g_handle := - 1\<rparr>\<rparr>)"
  have "machine_as E sp0 as sp s'" using assms(2) at by (auto simp: s' intro!: machine_as_moves)
  then show ?thesis by (rule step_postI) (use at s' assms(3) in auto)
next
  assume at: "at_log s i Shut_test"
    and s': "s' = goto_log i (if nloggers (shared s) = 0 then Shut_reset else Out) s"
  have "machine_as E sp0 as sp s'" using assms(2) at by (auto simp: s' intro!: machine_as_moves)
  then show ?thesis by (rule step_postI) (use at s' assms(3) in \<open>auto simp: unat_eq_zero split: if_splits\<close>)
next
  assume at: "at_log s i Shut_load" and s': "s' = goto_log i (Shut_store (nloggers (shared s))) s"
  have "machine_as E sp0 as sp s'" using assms(2) at by (auto simp: s' intro!: machine_as_moves)
  then show ?thesis by (rule step_postI) (use at s' assms(3) in auto)
qed (use assms(2,3) in \<open>auto intro: step_post_move\<close>)

lemma all_step_as:
  assumes "all_step i s s'" "machine_as E sp0 as sp s" "failed s = None"
  shows "step_post E sp0 i as sp s s'"
  using assms(1)
proof (rule all_stepE)
  fix m
  assume a: "s' = goto_log i All_unlock (effect m Shutdown_all Done s)"
    "at_log s i All_held" "shutdown_all_mloggers (shared s) = ret m"
  from all_body_as [OF assms(2) a(2)] a(1,3)
  have "machine_as E sp0 [] (sp\<lparr>sp_loggers := []\<rparr>) s'" "nloggers m = 0" "g_handle m = -1"
    by (auto split: if_splits)
  then show ?thesis using a assms(3) by (intro step_postI) auto
next
  fix e
  assume a: "s' = s\<lparr>failed := Some e\<rparr>" "at_log s i All_held" "shutdown_all_mloggers (shared s) = Some (Inl e)"
  from all_body_as [OF assms(2) a(2)] a(3) have "nloggers (shared s) \<noteq> of_nat (length as)" "e = Assert_failed"
    by (auto split: if_splits)
  then show ?thesis
    using a(1,2) assms(2) word_eq_of_nat [of "nloggers (shared s)" "length as"]
    by (auto intro: step_post_fault)
qed (use assms(2,3) in \<open>auto intro: step_post_move\<close>)

text \<open>Logging changes nothing but the output.\<close>

lemma logf_effect_as:
  assumes "machine_as E sp0 as sp s" "at_log s i q" "own_block q = None" "own_block p = None" "\<not> removed p"
    "mlogf (le_strftime E) h v msg (shared s) = ret m"
  obtains sp' es where "machine_as E sp0 as sp' (goto_log i p (effect m (Mlogf h v msg) Done s))"
    "m = emit es (shared s)"
proof (cases "spec_step (le_strftime E) (le_fopen E) (Mlogf h v msg) sp")
  case (Inl e)
  with logf_body_as [OF assms(1), of h v msg] assms(6) show thesis by simp
next
  case (Inr r)
  obtain es where "mlogf (le_strftime E) h v msg (shared s) = ret (emit es (shared s))"
    "machine_as E sp0 as (snd r) (goto_log i p (effect (emit es (shared s)) (Mlogf h v msg) Done s))"
    using logf_body_as [OF assms(1), of h v msg] assms(2-5) unfolding Inr by (auto split: prod.splits)
  with assms(6) that show thesis by auto
qed

lemma logf_fault_as:
  assumes "machine_as E sp0 as sp s" "mlogf (le_strftime E) h v msg (shared s) = Some (Inl e)"
  shows "e = Assert_failed" "spec_step (le_strftime E) (le_fopen E) (Mlogf h v msg) sp = Inl e"
  using logf_body_as [OF assms(1), of h v msg] assms(2)
  by (cases "spec_step (le_strftime E) (le_fopen E) (Mlogf h v msg) sp"; auto)+

lemma logf_step_as:
  assumes "logf_step E i s s'" "machine_as E sp0 as sp s" "failed s = None"
  shows "(\<exists>sp'. machine_as E sp0 as sp' s') \<and> nloggers (shared s') = nloggers (shared s) \<and>
    g_handle (shared s') = g_handle (shared s) \<and>
    (\<forall>e. failed s' = Some e \<longrightarrow> e = Assert_failed \<and> (\<exists>c. spec_step (le_strftime E) (le_fopen E) c sp = Inl e))"
  using assms(1)
proof (rule logf_stepE)
  fix h v msg m
  assume a: "s' = goto_log i Logf_unlock (effect m (Mlogf h v msg) Done s)"
    "at_log s i (Logf_held h v msg)" "mlogf (le_strftime E) h v msg (shared s) = ret m"
  show ?thesis
    by (rule logf_effect_as [OF assms(2) a(2) _ _ _ a(3), of Logf_unlock]) (use a(1) assms(3) in auto)
next
  fix h v msg m cb
  assume a: "s' = goto_log i (In_callback cb) (effect m (Mlogf h v msg) Done s)"
    "at_log s i (Logf_held h v msg)" "mlogf (le_strftime E) h v msg (shared s) = ret m"
  show ?thesis
    by (rule logf_effect_as [OF assms(2) a(2) _ _ _ a(3), of "In_callback cb"]) (use a(1) assms(3) in auto)
next
  fix h v msg e
  assume "s' = s\<lparr>failed := Some e\<rparr>" "mlogf (le_strftime E) h v msg (shared s) = Some (Inl e)"
  then show ?thesis using logf_fault_as [OF assms(2), of h v msg e] assms(2)
    by (auto simp del: spec_step.simps)
qed (use assms(2,3) in \<open>auto intro!: exI [of _ sp] machine_as_moves\<close>)

lemma logf_step_counts:
  "logf_step E i s s' \<Longrightarrow> counters (log_pcs s' ! i) n g k = counters (log_pcs s ! i) n g k"
  by (erule logf_stepE) (auto simp: at_log_def)

subsection \<open>Reachable states\<close>

lemma machine_as_start:
  assumes "mlog_rel m sp0"
  obtains as where "machine_as E sp0 as sp0 (log_start n m)" "represents as m sp0"
proof -
  from assms obtain as where r: "represents as m sp0" "spec_wf sp0" by (auto simp: mlog_rel_def)
  have "owns (replicate n Out) = (\<lambda>i. None)" by (auto simp: owns_def fun_eq_iff)
  then have "machine_as E sp0 as sp0 (log_start n m)"
    using r by (simp add: machine_as_def log_start_def represents_def in_order_nil mem_inv_def)
  with r(1) that show thesis by blast
qed

lemma goto_log_same: "at_log s i p \<Longrightarrow> goto_log i p s = s"
  by (simp add: at_log_def goto_log_def) (metis list_update_id log_machine.surjective log_machine.update_convs(3))

lemma machine_as_alloc:
  assumes m: "machine_as E sp0 as sp s" and at: "at_log s i Out" and a: "ms_heap (shared s) a = None"
    "\<forall>p \<in> set (log_pcs s). own_block p \<noteq> Some a"
  shows "machine_as E sp0 as sp (goto_log i (Get_lock a t v z) s)"
proof -
  have o: "owns (log_pcs s) i = None" using at_log_owns [OF at] by simp
  have "\<forall>j. owns (log_pcs s) j \<noteq> Some a" using a(2) by (auto simp: owns_def)
  then show ?thesis
    using m at a(1) o
      mem_alloc [of "set as" "dom (ms_heap (shared s))" "owns (log_pcs s)" "took (log_pcs s)" i a]
    by (auto simp: machine_as_def at_log_def)
qed

lemma log_call_as:
  assumes "log_call E i s s'" "machine_as E sp0 as sp s"
  shows "(\<exists>sp'. machine_as E sp0 as sp' s') \<and> failed s' = failed s \<and>
    nloggers (shared s') = nloggers (shared s) \<and> g_handle (shared s') = g_handle (shared s) \<and>
    counters (log_pcs s' ! i) = counters (log_pcs s ! i)"
  using assms(1)
proof (rule log_callE)
  fix a t v z
  assume a: "s' = goto_log i (Get_lock a t v z) s" "at_log s i Out" "ms_heap (shared s) a = None"
    "\<forall>p \<in> set (log_pcs s). own_block p \<noteq> Some a"
  have "machine_as E sp0 as sp s'"
    unfolding a(1) by (rule machine_as_alloc [OF assms(2) a(2-4)])
  then show ?thesis using a(1,2) by (auto simp: at_log_def)
next
  fix t v z h m
  assume a: "s' = effect m (Get_mlogger False t v z) (Handle h) s" "at_log s i Out"
    "get_mlogger (le_fopen E) None t v z (shared s) = ret (h, m)"
  let ?es = "[Print Stderr (''FATAL: malloc returned NULL'' @ newline)]"
  have m: "m = emit ?es (shared s)" "h = -1" using a(3) by (simp_all add: get_mlogger_def)
  have at: "at_log s' i Out" using a(1,2) by (simp add: at_log_def)
  have "machine_as E sp0 as (spec_emit ?es sp) (goto_log i Out s')"
    unfolding a(1) using assms(2) a(2) m registry_emit [of as "shared s" sp ?es]
      mem_keep [of "set as" "dom (ms_heap (shared s))" "owns (log_pcs s)" "took (log_pcs s)" i]
      at_log_owns [OF a(2)]
    by (intro machine_as_effect [OF assms(2) a(2)]) (auto simp: machine_as_def spec_get_def)
  then show ?thesis using a(1,2) m unfolding goto_log_same [OF at] by (auto simp: emit_def)
next
  fix h v msg
  assume a: "s' = effect (shared s) (Mlogf h v msg) Done s" "at_log s i Out" "h < 0"
  have at: "at_log s' i Out" using a(1,2) by (simp add: at_log_def)
  have "machine_as E sp0 as sp (goto_log i Out s')"
    unfolding a(1) using assms(2) a(2,3)
      mem_keep [of "set as" "dom (ms_heap (shared s))" "owns (log_pcs s)" "took (log_pcs s)" i]
      at_log_owns [OF a(2)]
    by (intro machine_as_effect [OF assms(2) a(2)]) (auto simp: machine_as_def spec_mlogf_def)
  then show ?thesis using a(1) unfolding goto_log_same [OF at] by auto
qed (use assms(2) in \<open>auto simp: at_log_def intro!: exI [of _ sp] machine_as_moves\<close>)

text \<open>No step of any thread leaves this, and no step faults but for a failed assertion or a full
  handle counter.\<close>

definition machine_ok :: "log_env \<Rightarrow> log_spec \<Rightarrow> log_machine \<Rightarrow> bool" where
  "machine_ok E sp0 s \<longleftrightarrow> owner_ok log_holds (lock s) (log_pcs s) \<and>
     (\<exists>as sp. machine_as E sp0 as sp s) \<and>
     (failed s = None \<or> failed s = Some Assert_failed \<or> failed s = Some Signed_overflow)"

lemma machine_ok_step:
  assumes "log_any_step E s s'" "machine_ok E sp0 s"
  shows "machine_ok E sp0 s'"
proof -
  obtain as sp where m: "machine_as E sp0 as sp s" and o: "owner_ok log_holds (lock s) (log_pcs s)"
    using assms(2) by (auto simp: machine_ok_def)
  obtain i where i: "log_thread_step E i s s' \<or> failed s = None \<and> log_call E i s s'"
    using assms(1) by (auto simp: log_any_step_def)
  then have "failed s = None" by (auto simp: log_thread_step_def)
  moreover have "owner_ok log_holds (lock s') (log_pcs s')"
    using i o lock_thread lock_call by blast
  moreover have "step_post E sp0 i as sp s s' \<or>
      (\<exists>sp'. machine_as E sp0 as sp' s') \<and> (failed s' = None \<or> failed s' = Some Assert_failed)"
    using i \<open>failed s = None\<close> get_step_as [OF _ m] shut_step_as [OF _ m] all_step_as [OF _ m] logf_step_as [OF _ m]
      log_call_as [OF _ m] unfolding log_thread_step_def by (metis not_Some_eq)
  ultimately show ?thesis by (fastforce simp: machine_ok_def step_post_def)
qed

lemma reach_ok:
  assumes "log_reach E s s'" "machine_ok E sp0 s"
  shows "machine_ok E sp0 s'"
  using assms unfolding log_reach_def
  by (induction rule: rtranclp.induct) (auto intro: machine_ok_step)

lemma machine_ok_start: "mlog_rel m sp0 \<Longrightarrow> machine_ok E sp0 (log_start n m)"
proof -
  assume "mlog_rel m sp0"
  then obtain as where "machine_as E sp0 as sp0 (log_start n m)" by (rule machine_as_start)
  then show ?thesis by (auto simp: machine_ok_def log_start_def intro: owner_idle)
qed

lemma machine_as_idle:
  assumes "machine_as E sp0 as sp s" "\<forall>p \<in> set (log_pcs s). own_block p = None"
  shows "dom (ms_heap (shared s)) = set as"
proof -
  have "owns (log_pcs s) = (\<lambda>i. None)" using assms(2) by (auto simp: owns_def fun_eq_iff)
  then show ?thesis using assms(1) by (auto simp: machine_as_def mem_inv_def)
qed

subsection \<open>Calls of the main thread only\<close>

text \<open>The use mlog.h describes: the other threads only log.\<close>

definition main_thread_only :: "log_env \<Rightarrow> bool" where
  "main_thread_only E \<longleftrightarrow> (\<forall>i c. le_may E i c \<longrightarrow> i = 0 \<or> (\<exists>h v msg. c = Mlogf h v msg))"

fun only_logs :: "log_pc \<Rightarrow> bool" where
  "only_logs Out = True" | "only_logs (Logf_lock h v msg) = True" | "only_logs (Logf_held h v msg) = True"
| "only_logs (In_callback cb) = True" | "only_logs Logf_unlock = True" | "only_logs _ = False"

definition main_inv :: "log_env \<Rightarrow> log_spec \<Rightarrow> log_machine \<Rightarrow> bool" where
  "main_inv E sp0 s \<longleftrightarrow>
     (\<forall>j. 0 < j \<longrightarrow> j < length (log_pcs s) \<longrightarrow> only_logs (log_pcs s ! j)) \<and>
     (\<exists>as sp. machine_as E sp0 as sp s \<and> counts s 0 as \<and>
       (\<forall>e. failed s = Some e \<longrightarrow> (\<exists>c. spec_run (le_strftime E) (le_fopen E) (map fst (log_hist s) @ [c]) sp0 = Inl e)))"

text \<open>Steps of a thread that only logs, and what a step does to the program points of the others.\<close>

lemma other_steps:
  assumes "log_thread_step E j s s'" "only_logs (log_pcs s ! j)"
  shows "logf_step E j s s'" "only_logs (log_pcs s' ! j)"
proof -
  show l: "logf_step E j s s'"
    using assms unfolding log_thread_step_def
    by (elim conjE disjE get_stepE shut_stepE all_stepE) (auto simp: at_log_def)
  then show "only_logs (log_pcs s' ! j)"
    using assms(2) by (elim logf_stepE) (auto simp: at_log_def)
qed

lemma thread_step_frame:
  "log_thread_step E j s s' \<Longrightarrow> i \<noteq> j \<Longrightarrow> log_pcs s' ! i = log_pcs s ! i"
  unfolding log_thread_step_def
  by (elim conjE disjE get_stepE shut_stepE all_stepE logf_stepE) simp_all

lemma call_frame: "log_call E j s s' \<Longrightarrow> i \<noteq> j \<Longrightarrow> log_pcs s' ! i = log_pcs s ! i"
  by (erule log_callE) simp_all

lemma other_call:
  assumes "log_call E j s s'" "main_thread_only E" "j \<noteq> 0"
  shows "only_logs (log_pcs s' ! j)"
  using assms(1)
  by (rule log_callE) (use assms(2,3) in \<open>auto simp: main_thread_only_def at_log_def\<close>)

lemma fault_hist:
  assumes "log_thread_step E i s s'" "failed s' = Some e"
  shows "log_hist s' = log_hist s"
  using assms unfolding log_thread_step_def
  by (elim conjE disjE get_stepE shut_stepE all_stepE logf_stepE) auto

lemma only_logs_step:
  assumes "log_any_step E s s'" "main_thread_only E" "main_inv E sp0 s" "0 < j" "j < length (log_pcs s')"
  shows "only_logs (log_pcs s' ! j)"
proof -
  obtain i where i: "log_thread_step E i s s' \<or> failed s = None \<and> log_call E i s s'"
    using assms(1) by (auto simp: log_any_step_def)
  have "only_logs (log_pcs s ! j)"
    using assms(3-5) any_step_length [OF assms(1)] by (simp add: main_inv_def)
  then show ?thesis
    using i assms(2,4,5) any_step_length [OF assms(1)] other_steps(2) [of E j s s'] other_call [of E j s s']
      thread_step_frame [of E i s s' j] call_frame [of E i s s' j] by (cases "i = j") auto
qed

lemma fault_in_order:
  assumes "machine_as E sp0 as sp s" "log_thread_step E i s s'" "failed s' = Some e"
    and "spec_step (le_strftime E) (le_fopen E) d sp = Inl e"
  shows "\<exists>c. spec_run (le_strftime E) (le_fopen E) (map fst (log_hist s') @ [c]) sp0 = Inl e"
  using in_order_fault [OF _ assms(4)] assms(1) fault_hist [OF assms(2,3)] by (auto simp: machine_as_def)

lemma main_thread_acts:
  assumes "log_thread_step E i s s'" "\<not> logf_step E i s s'" "main_inv E sp0 s"
  shows "i = 0"
proof -
  have "\<not> only_logs (log_pcs s ! i)" using other_steps(1) [OF assms(1)] assms(2) by blast
  moreover have "i < length (log_pcs s)"
    using assms(1) unfolding log_thread_step_def
    by (elim conjE disjE get_stepE shut_stepE all_stepE logf_stepE) (simp_all add: at_log_def)
  ultimately show ?thesis using assms(3) by (auto simp: main_inv_def)
qed

lemma main_inv_step:
  assumes step: "log_any_step E s s'" and inv: "main_inv E sp0 s" and E: "main_thread_only E"
  shows "main_inv E sp0 s'"
proof -
  obtain as sp where m: "machine_as E sp0 as sp s" and c: "counts s 0 as"
    using inv by (auto simp: main_inv_def)
  obtain i where i: "log_thread_step E i s s' \<or> failed s = None \<and> log_call E i s s'"
    using step by (auto simp: log_any_step_def)
  then have f: "failed s = None" by (auto simp: log_thread_step_def)
  have len: "length (log_pcs s') = length (log_pcs s)" by (rule any_step_length [OF step])
  note others = only_logs_step [OF step E inv]
  note fault = fault_in_order [OF m]
  from i show ?thesis
  proof
    assume t: "log_thread_step E i s s'"
    show ?thesis
    proof (cases "logf_step E i s s'")
      case True
      from logf_step_as [OF True m f] obtain sp' where l: "machine_as E sp0 as sp' s'"
          "nloggers (shared s') = nloggers (shared s)" "g_handle (shared s') = g_handle (shared s)"
          "\<forall>e. failed s' = Some e \<longrightarrow> (\<exists>c. spec_step (le_strftime E) (le_fopen E) c sp = Inl e)"
        by blast
      have "counts s' 0 as"
        using c l(2,3) logf_step_counts [OF True] thread_step_frame [OF t, of 0]
        by (cases "i = 0") (auto simp: counts_def)
      then show ?thesis using others l fault [OF t] unfolding main_inv_def by blast
    next
      case False
      then have i0: "i = 0" by (rule main_thread_acts [OF t _ inv])
      have "step_post E sp0 i as sp s s'"
        using t False unfolding log_thread_step_def
        by (elim conjE disjE) (simp_all add: get_step_as [OF _ m f] shut_step_as [OF _ m f] all_step_as [OF _ m f])
      with c obtain as' sp' where p: "machine_as E sp0 as' sp' s'" "counts s' 0 as'"
          "\<forall>e. failed s' = Some e \<longrightarrow> (\<exists>c. spec_step (le_strftime E) (le_fopen E) c sp = Inl e)"
        unfolding step_post_def i0 by blast
      then show ?thesis using others fault [OF t] unfolding main_inv_def by blast
    qed
  next
    assume t: "failed s = None \<and> log_call E i s s'"
    then have t: "log_call E i s s'" ..
    from log_call_as [OF t m] obtain sp' where l: "machine_as E sp0 as sp' s'" "failed s' = failed s"
        "nloggers (shared s') = nloggers (shared s)" "g_handle (shared s') = g_handle (shared s)"
        "counters (log_pcs s' ! i) = counters (log_pcs s ! i)"
      by blast
    have "counts s' 0 as"
      using c l call_frame [OF t, of 0] by (cases "i = 0") (auto simp: counts_def)
    moreover have "failed s' = None" using l(2) f by simp
    ultimately show ?thesis
      unfolding main_inv_def using others l(1) by (intro conjI exI [of _ as] exI [of _ sp']) simp_all
  qed
qed

lemma main_inv_reach:
  assumes "log_reach E s s'" "main_inv E sp0 s" "main_thread_only E"
  shows "main_inv E sp0 s'"
  using assms unfolding log_reach_def
  by (induction rule: rtranclp.induct) (auto intro: main_inv_step)

lemma main_inv_start:
  assumes "mlog_rel m sp0" "0 < n"
  shows "main_inv E sp0 (log_start n m)"
proof -
  obtain as where a: "machine_as E sp0 as sp0 (log_start n m)" "represents as m sp0"
    by (rule machine_as_start [OF assms(1)])
  then have "counts (log_start n m) 0 as"
    using assms(2) registry_length [OF represents_registry [OF a(2)]]
    by (auto simp: counts_def log_start_def represents_def spec_default_def)
  then show ?thesis using a(1) by (auto simp: main_inv_def log_start_def)
qed

end
