(* ===== verification/Mlog_Threads_Spec.thy ===== *)
theory Mlog_Threads_Spec
  imports Mlog_Threads
begin

section \<open>Loggers between threads: what holds and what does not\<close>

text \<open>
  Over the machine of Mlog_Threads: the calls are sequential in effect, with the main thread alone creating and
  shutting down the counters are right too, and every call returns; without that discipline two races on
  the counters, and with a callback that logs a deadlock, each shown by a run.
\<close>

subsection \<open>Runs\<close>

lemma reach_refl: "log_reach E s s"
  by (simp add: log_reach_def)

lemma reach_thread: "log_reach E s s' \<Longrightarrow> failed s' = None \<Longrightarrow>
    get_step E i s' s'' \<or> shut_step i s' s'' \<or> all_step i s' s'' \<or> logf_step E i s' s'' \<Longrightarrow> log_reach E s s''"
  unfolding log_reach_def
  by (rule rtranclp.rtrancl_into_rtrancl) (auto simp: log_any_step_def log_thread_step_def)

lemma reach_call: "log_reach E s s' \<Longrightarrow> failed s' = None \<Longrightarrow> log_call E i s' s'' \<Longrightarrow> log_reach E s s''"
  unfolding log_reach_def
  by (rule rtranclp.rtrancl_into_rtrancl) (auto simp: log_any_step_def)

lemma reach_trans: "log_reach E s t \<Longrightarrow> log_reach E t u \<Longrightarrow> log_reach E s u"
  unfolding log_reach_def by (rule rtranclp_trans)

text \<open>A state with the mutex free and no fault.\<close>

definition resting :: "log_env \<Rightarrow> log_spec \<Rightarrow> addr list \<Rightarrow> log_spec \<Rightarrow> log_pc list \<Rightarrow> log_machine \<Rightarrow> bool" where
  "resting E sp0 as sp ps s \<longleftrightarrow> machine_as E sp0 as sp s \<and> log_pcs s = ps \<and> lock s = None \<and> failed s = None"

text \<open>\<open>malloc\<close> always has a block to give.\<close>

lemma fresh_block:
  assumes m: "machine_as E sp0 as sp s"
  shows "\<exists>a. ms_heap (shared s) a = None \<and> (\<forall>p \<in> set (log_pcs s). own_block p \<noteq> Some a)"
proof -
  let ?B = "\<Union>p \<in> set (log_pcs s). set_option (own_block p)"
  have "D \<subseteq> L \<union> ?B" if "mem_inv L D (owns (log_pcs s)) (took (log_pcs s))" for L D
  proof
    fix a assume "a \<in> D"
    with that have "a \<in> L \<or> (\<exists>i. owns (log_pcs s) i = Some a)" by (auto simp: mem_inv_def)
    then show "a \<in> L \<union> ?B" by (fastforce simp: owns_def split: if_splits)
  qed
  then have "dom (ms_heap (shared s)) \<subseteq> set as \<union> ?B" using m by (simp add: machine_as_def)
  moreover have "finite (set as \<union> ?B)" by simp
  ultimately obtain a where "a \<notin> set as \<union> ?B"
    using ex_new_if_finite [OF infinite_UNIV_nat] by blast
  with \<open>dom (ms_heap (shared s)) \<subseteq> set as \<union> ?B\<close> have "a \<notin> dom (ms_heap (shared s))" "a \<notin> ?B" by blast+
  then show ?thesis by (intro exI [of _ a]) (auto simp: domIff)
qed

text \<open>One thread runs \<open>get_mlogger\<close> from its call to its return.\<close>

lemma get_runs:
  assumes r: "resting E sp0 as sp ps s" and i: "i < length ps" "ps ! i = Out" and n: "sp_next sp < INT_MAX"
    and may: "le_may E i (Get_mlogger True t v z)"
  obtains s' a sp' where "log_reach E s s'" "resting E sp0 (as @ [a]) sp' ps s'"
    "nloggers (shared s') = nloggers (shared s) + 1"
    "g_handle (shared s') = (if g_handle (shared s) < 0 then 0 else g_handle (shared s))"
proof -
  have m: "machine_as E sp0 as sp s" and s: "log_pcs s = ps" "lock s = None" "failed s = None"
    using r by (auto simp: resting_def)
  obtain a where a: "ms_heap (shared s) a = None" "\<forall>p \<in> set ps. own_block p \<noteq> Some a"
    using fresh_block [OF m] s(1) by auto
  have at: "at_log s i Out" using i s(1) by (simp add: at_log_def)
  define s1 where "s1 = goto_log i (Get_lock a t v z) s"
  define s2 where "s2 = goto_log i (Get_held a t v z) (s1\<lparr>lock := Some i\<rparr>)"
  have c1: "log_call E i s s1" unfolding s1_def using at may a s(1) by (auto intro: log_call.call_get)
  have at1: "at_log s1 i (Get_lock a t v z)" "lock s1 = None" "failed s1 = None"
    using i s by (simp_all add: s1_def at_log_def)
  from at1(1,2) have c2: "get_step E i s1 s2" unfolding s2_def by (rule get_step.get_lock)
  have "machine_as E sp0 as sp s1"
    using machine_as_alloc [OF m at a(1)] a(2) s(1) by (simp add: s1_def)
  then have m2: "machine_as E sp0 as sp s2"
    using at1(1) unfolding s2_def by (intro machine_as_goto [of _ _ _ _ _ _ "Get_lock a t v z"] machine_as_shared) auto
  have at2: "at_log s2 i (Get_held a t v z)" "failed s2 = None"
    using i s by (simp_all add: s2_def s1_def at_log_def)
  from get_body_as [OF m2 at2(1)] n obtain h m' sp' where
    g: "get_mlogger (le_fopen E) (Some a) t v z (shared s2) = ret (h, m')"
      "machine_as E sp0 (as @ [a]) sp' (goto_log i (Get_unlock h) (effect m' (Get_mlogger True t v z) (Handle h) s2))"
      "nloggers m' = nloggers (shared s2) + 1"
      "g_handle m' = (if g_handle (shared s2) < 0 then 0 else g_handle (shared s2))"
    by (auto split: if_splits)
  define s3 where "s3 = goto_log i (Get_unlock h) (effect m' (Get_mlogger True t v z) (Handle h) s2)"
  define s4 where "s4 = goto_log i Out (s3\<lparr>lock := None\<rparr>)"
  have c3: "get_step E i s2 s3" unfolding s3_def using at2(1) g(1) by (rule get_step.get_body)
  have at3: "at_log s3 i (Get_unlock h)" "failed s3 = None" using at2 by (simp_all add: s3_def at_log_def)
  have c4: "get_step E i s3 s4" unfolding s4_def using at3(1) by (rule get_step.get_return)
  have "log_reach E s s4"
    using reach_call [OF reach_refl s(3) c1] reach_thread [of E s s1 i s2] reach_thread [of E s s2 i s3]
      reach_thread [of E s s3 i s4] c2 c3 c4 at1(3) at2(2) at3(2) by blast
  moreover have "machine_as E sp0 (as @ [a]) sp' s4"
    using g(2) at3(1) unfolding s3_def [symmetric] s4_def
    by (intro machine_as_goto [of _ _ _ _ _ _ "Get_unlock h"] machine_as_shared) auto
  then have "resting E sp0 (as @ [a]) sp' ps s4"
    using s i by (simp add: resting_def s4_def s3_def s2_def s1_def list_update_same_conv)
  moreover have "nloggers (shared s4) = nloggers (shared s) + 1"
      "g_handle (shared s4) = (if g_handle (shared s) < 0 then 0 else g_handle (shared s))"
    using g(3,4) by (simp_all add: s4_def s3_def s2_def s1_def)
  ultimately show thesis using that by blast
qed

text \<open>One thread runs \<open>shutdown_mlogger\<close> up to the release of the mutex.\<close>

lemma shutdown_runs:
  assumes r: "resting E sp0 as sp ps s" and i: "i < length ps" "ps ! i = Out"
    and h: "spec_find h sp \<noteq> None" and may: "le_may E i (Shutdown h)"
  obtains s' a bs where "log_reach E s s'" "resting E sp0 bs (snd (spec_shutdown h sp)) (ps[i := Shut_free a]) s'"
    "nloggers (shared s') = nloggers (shared s)" "g_handle (shared s') = g_handle (shared s)"
    "length as = length bs + 1"
proof -
  have m: "machine_as E sp0 as sp s" and s: "log_pcs s = ps" "lock s = None" "failed s = None"
    using r by (auto simp: resting_def)
  have at: "at_log s i Out" using i s(1) by (simp add: at_log_def)
  define s1 where "s1 = goto_log i (Shut_lock h) s"
  define s2 where "s2 = goto_log i (Shut_held h) (s1\<lparr>lock := Some i\<rparr>)"
  have c1: "log_call E i s s1" unfolding s1_def using at may by (auto intro: log_call.call_shutdown)
  have at1: "at_log s1 i (Shut_lock h)" "lock s1 = None" "failed s1 = None"
    using i s by (simp_all add: s1_def at_log_def)
  from at1(1,2) have c2: "shut_step i s1 s2" unfolding s2_def by (rule shut_step.shut_lock)
  have "machine_as E sp0 as sp s1" using m at unfolding s1_def by (rule machine_as_goto) auto
  then have m2: "machine_as E sp0 as sp s2"
    using at1(1) unfolding s2_def by (intro machine_as_goto [of _ _ _ _ _ _ "Shut_lock h"] machine_as_shared) auto
  have at2: "at_log s2 i (Shut_held h)" "failed s2 = None"
    using i s by (simp_all add: s2_def s1_def at_log_def)
  from shut_body_as [OF m2 at2(1)] obtain f m' bs sp' where
    u: "shutdown_unlink h (shared s2) = ret (f, m')"
      "spec_step (le_strftime E) (le_fopen E) (Shutdown h) sp = Inr (Flag (f \<noteq> None), sp')"
      "machine_as E sp0 bs sp' (goto_log i (Shut_unlock f) (effect m' (Shutdown h) (Flag (f \<noteq> None)) s2))"
      "nloggers m' = nloggers (shared s2)" "g_handle m' = g_handle (shared s2)"
      "length as = length bs + of_bool (f \<noteq> None)"
    by blast
  have sp': "sp' = snd (spec_shutdown h sp)" and "f \<noteq> None"
    using u(2) h by (auto simp: spec_shutdown_def)
  then obtain a where f: "f = Some a" by auto
  define s3 where "s3 = goto_log i (Shut_unlock f) (effect m' (Shutdown h) (Flag (f \<noteq> None)) s2)"
  define s4 where "s4 = goto_log i (Shut_free a) (s3\<lparr>lock := None\<rparr>)"
  have c3: "shut_step i s2 s3" unfolding s3_def using at2(1) u(1) by (rule shut_step.shut_body)
  have at3: "at_log s3 i (Shut_unlock (Some a))" "failed s3 = None" using at2 f by (simp_all add: s3_def at_log_def)
  have c4: "shut_step i s3 s4" unfolding s4_def using at3(1) by (rule shut_step.shut_unlock)
  have "log_reach E s s4"
    using reach_call [OF reach_refl s(3) c1] reach_thread [of E s s1 i s2] reach_thread [of E s s2 i s3]
      reach_thread [of E s s3 i s4] c2 c3 c4 at1(3) at2(2) at3(2) by blast
  moreover have "machine_as E sp0 bs sp' s4"
    using u(3) at3(1) unfolding s3_def [symmetric] s4_def
    by (intro machine_as_goto [of _ _ _ _ _ _ "Shut_unlock (Some a)"] machine_as_shared) auto
  then have "resting E sp0 bs (snd (spec_shutdown h sp)) (ps[i := Shut_free a]) s4"
    using s sp' by (simp add: resting_def s4_def s3_def s2_def s1_def)
  moreover have "nloggers (shared s4) = nloggers (shared s)" "g_handle (shared s4) = g_handle (shared s)"
    using u(4,5) by (simp_all add: s4_def s3_def s2_def s1_def)
  moreover have "length as = length bs + 1" using u(6) f by simp
  ultimately show thesis using that by blast
qed

text \<open>It frees the record, decrements \<open>nloggers\<close> and tests it.\<close>

lemma shutdown_tail_runs:
  assumes r: "resting E sp0 as sp ps s" and i: "i < length ps" "ps ! i = Shut_free a"
  obtains s' where "log_reach E s s'"
    "resting E sp0 as sp (ps[i := if nloggers (shared s) = 1 then Shut_reset else Out]) s'"
    "nloggers (shared s') = nloggers (shared s) - 1" "g_handle (shared s') = g_handle (shared s)"
proof -
  have m: "machine_as E sp0 as sp s" and s: "log_pcs s = ps" "lock s = None" "failed s = None"
    using r by (auto simp: resting_def)
  have at: "at_log s i (Shut_free a)" using i s(1) by (simp add: at_log_def)
  note fr = free_step_as [OF m at]
  define s1 where "s1 = goto_log i Shut_load
    (s\<lparr>shared := (shared s)\<lparr>ms_heap := (ms_heap (shared s))(a := None)\<rparr>\<rparr>)"
  define s2 where "s2 = goto_log i (Shut_store (nloggers (shared s1))) s1"
  define s3 where "s3 = goto_log i Shut_test (s2\<lparr>shared := (shared s2)\<lparr>nloggers := nloggers (shared s1) - 1\<rparr>\<rparr>)"
  define s4 where "s4 = goto_log i (if nloggers (shared s3) = 0 then Shut_reset else Out) s3"
  have at1: "at_log s1 i Shut_load" "at_log s2 i (Shut_store (nloggers (shared s1)))" "at_log s3 i Shut_test"
    using i s by (simp_all add: s1_def s2_def s3_def at_log_def)
  have f: "failed s1 = None" "failed s2 = None" "failed s3 = None"
    using s by (simp_all add: s1_def s2_def s3_def)
  have c: "shut_step i s s1" "shut_step i s1 s2" "shut_step i s2 s3" "shut_step i s3 s4"
    unfolding s1_def s2_def s3_def s4_def
    using shut_step.shut_free [OF at fr(1)] shut_step.shut_load [OF at1(1)] shut_step.shut_store [OF at1(2)]
      shut_step.shut_test [OF at1(3)] by (simp_all only: s1_def s2_def s3_def)
  have "log_reach E s s4"
    using reach_thread [OF reach_refl s(3), of E i s1] reach_thread [of E s s1 i s2] reach_thread [of E s s2 i s3]
      reach_thread [of E s s3 i s4] c f by blast
  moreover have "machine_as E sp0 as sp s1" using fr(2) by (simp only: s1_def)
  then have "machine_as E sp0 as sp s2"
    using at1(1) unfolding s2_def by (rule machine_as_goto) auto
  then have "machine_as E sp0 as sp s3"
    using at1(2) unfolding s3_def
    by (intro machine_as_goto [of _ _ _ _ _ _ "Shut_store (nloggers (shared s1))"] machine_as_shared) auto
  then have "machine_as E sp0 as sp s4"
    using at1(3) unfolding s4_def by (rule machine_as_goto) auto
  moreover have n: "nloggers (shared s4) = nloggers (shared s) - 1" "g_handle (shared s4) = g_handle (shared s)"
      "nloggers (shared s3) = nloggers (shared s) - 1"
    by (simp_all add: s4_def s3_def s2_def s1_def)
  moreover have "log_pcs s4 = ps[i := if nloggers (shared s3) = 0 then Shut_reset else Out]"
    using s by (simp add: s4_def s3_def s2_def s1_def)
  ultimately have "log_reach E s s4 \<and> resting E sp0 as sp (ps[i := if nloggers (shared s) = 1 then Shut_reset else Out]) s4"
    using s by (simp add: resting_def s4_def s3_def s2_def s1_def)
  with n that show thesis by blast
qed

subsection \<open>Progress\<close>

fun log_weight :: "log_pc \<Rightarrow> int" where
  "log_weight Out = 0"
| "log_weight (Get_lock a t v z) = 3" | "log_weight (Get_held a t v z) = 2" | "log_weight (Get_unlock h) = 1"
| "log_weight (Shut_lock h) = 8" | "log_weight (Shut_held h) = 7" | "log_weight (Shut_unlock f) = 6"
| "log_weight (Shut_free a) = 5" | "log_weight Shut_load = 4" | "log_weight (Shut_store k) = 3"
| "log_weight Shut_test = 2" | "log_weight Shut_reset = 1"
| "log_weight All_lock = 3" | "log_weight All_held = 2" | "log_weight All_unlock = 1"
| "log_weight (Logf_lock h v msg) = 4" | "log_weight (Logf_held h v msg) = 3"
| "log_weight (In_callback cb) = 2" | "log_weight Logf_unlock = 1"

lemma log_weight_work: "0 \<le> work log_weight ps" "work log_weight ps \<le> 8 * int (length ps)"
proof -
  have "0 \<le> log_weight p \<and> log_weight p \<le> 8" for p by (cases p) auto
  then show "0 \<le> work log_weight ps" "work log_weight ps \<le> 8 * int (length ps)"
    by (blast intro: work_nonneg work_bound)+
qed

definition quiet_callbacks :: "log_env \<Rightarrow> bool" where
  "quiet_callbacks E \<longleftrightarrow> (\<forall>cb h v msg. le_inner E cb = Some (h, v, msg) \<longrightarrow> h < 0)"

definition log_work :: "log_machine \<Rightarrow> int" where
  "log_work s = work log_weight (log_pcs s) + of_bool (failed s = None)"

lemma quiet_callbacksD: "le_inner E cb = Some (h, v, msg) \<Longrightarrow> quiet_callbacks E \<Longrightarrow> h < 0"
  by (auto simp: quiet_callbacks_def)

lemma log_step_work:
  assumes "log_thread_step E i s s'" "quiet_callbacks E"
  shows "log_work s' < log_work s"
  using assms unfolding log_thread_step_def log_work_def
  by (elim conjE disjE get_stepE shut_stepE all_stepE logf_stepE)
    (auto simp: at_log_def work_update dest: quiet_callbacksD)

text \<open>The thread that holds the mutex can go on, and so can one outside it when it is free.\<close>

lemma log_holder_steps:
  assumes m: "machine_as E sp0 as sp s" and f: "failed s = None" and i: "i < length (log_pcs s)"
    "log_holds (log_pcs s ! i)" and q: "quiet_callbacks E"
  shows "\<exists>s'. log_thread_step E i s s'"
proof (cases "log_pcs s ! i")
  case (Get_held a t v z)
  then have at: "at_log s i (Get_held a t v z)" using i by (simp add: at_log_def)
  then show ?thesis
    using get_body_as [OF m at] at f unfolding log_thread_step_def
    by (auto split: if_splits intro: get_step.get_body get_step.get_fail)
next
  case (Shut_held h)
  then have at: "at_log s i (Shut_held h)" using i by (simp add: at_log_def)
  then show ?thesis
    using shut_body_as [OF m at] at f unfolding log_thread_step_def by (blast intro: shut_step.shut_body)
next
  case All_held
  then have at: "at_log s i All_held" using i by (simp add: at_log_def)
  then show ?thesis
    using all_body_as [OF m at] at f unfolding log_thread_step_def
    by (auto split: if_splits intro: all_step.all_body all_step.all_fail)
next
  case (Logf_held h v msg)
  then have at: "at_log s i (Logf_held h v msg)" using i by (simp add: at_log_def)
  obtain r where "mlogf (le_strftime E) h v msg (shared s) = Some r"
    using logf_body_as [OF m, of h v msg]
    by (cases "spec_step (le_strftime E) (le_fopen E) (Mlogf h v msg) sp") (auto split: prod.splits)
  then show ?thesis
    using at f logf_step.logf_fail [OF at] logf_step.logf_body [OF at] logf_step.logf_callback [OF at]
    unfolding log_thread_step_def by (cases r; cases "callback_of (shared s) (projr r)") fastforce+
next
  case (In_callback cb)
  then have at: "at_log s i (In_callback cb)" using i by (simp add: at_log_def)
  then show ?thesis
    using at f logf_step.cb_return [OF at, of E] logf_step.cb_unset [OF at, of E] quiet_callbacksD [OF _ q]
    unfolding log_thread_step_def by (cases "le_inner E cb") fastforce+
next
  case (Shut_unlock fn)
  then show ?thesis
    using f i shut_step.shut_none [of s i] shut_step.shut_unlock [of s i]
    unfolding log_thread_step_def by (cases fn) (auto simp: at_log_def)
qed (use f i get_step.get_return [of s i _ E] all_step.all_return [of s i] logf_step.logf_return [of s i E]
    in \<open>auto simp: log_thread_step_def at_log_def\<close>)

lemma log_waiting_steps:
  assumes f: "failed s = None" "lock s = None" and i: "i < length (log_pcs s)" "log_pcs s ! i \<noteq> Out"
    "\<not> log_holds (log_pcs s ! i)"
  shows "\<exists>s'. log_thread_step E i s s'"
proof -
  have at: "at_log s i (log_pcs s ! i)" using i by (simp add: at_log_def)
  show ?thesis
    unfolding log_thread_step_def using f at i(2,3)
    by (cases "log_pcs s ! i")
      (simp_all, (blast intro: get_step.get_lock shut_step.intros all_step.all_lock logf_step.logf_lock)+)
qed

lemma some_log_thread_steps:
  assumes ok: "machine_ok E sp0 s" and f: "failed s = None" and q: "quiet_callbacks E"
    and i: "i < length (log_pcs s)" "log_pcs s ! i \<noteq> Out"
  shows "\<exists>j s'. log_thread_step E j s s'"
proof -
  obtain as sp where m: "machine_as E sp0 as sp s" and o: "owner_ok log_holds (lock s) (log_pcs s)"
    using ok by (auto simp: machine_ok_def)
  show ?thesis
  proof (cases "lock s")
    case None
    then have "\<not> log_holds (log_pcs s ! i)"
      using owner_free [of log_holds "log_pcs s" i] o i by simp
    from log_waiting_steps [OF f None i this] show ?thesis by blast
  next
    case (Some j)
    with o owner_taken [of log_holds j "log_pcs s"] have "j < length (log_pcs s)" "log_holds (log_pcs s ! j)" by auto
    from log_holder_steps [OF m f this q] show ?thesis by blast
  qed
qed

subsection \<open>Properties\<close>

text \<open>For the witnesses: two threads on a registry with one logger, no callback. Thread 0 shuts it down,
  thread 1 creates another.\<close>

definition free_env :: log_env where
  "free_env = \<lparr>le_strftime = \<lambda>fmt utc. fmt, le_fopen = \<lambda>p. True, le_inner = \<lambda>cb. None, le_may = \<lambda>i c. True\<rparr>"

definition one_logger :: log_spec where
  "one_logger = \<lparr>sp_loggers = [\<lparr>lg_type = MLOG_STDOUT, lg_severity = MLOG_INFO, lg_logtime = NONE, lg_handle = 0,
     lg_path = None, lg_logfile = Some Stdout, lg_callback = None, lg_cb_data = None, lg_next = None\<rparr>],
     sp_next = 1, sp_out = []\<rparr>"

lemma one_logger_state: "\<exists>m. mlog_rel m one_logger"
proof -
  have "spec_run (\<lambda>fmt utc. fmt) (\<lambda>p. True) [Get_mlogger True MLOG_STDOUT MLOG_INFO NONE] spec_init =
      Inr ([Handle 0], one_logger)"
    by (simp add: spec_eval one_logger_def)
  from log_run_Inr [OF mlog_rel_init fresh_next_address this] show ?thesis by blast
qed

lemma resting_start:
  assumes "mlog_rel m sp0"
  obtains as where "resting E sp0 as sp0 (replicate n Out) (log_start n m)" "represents as m sp0"
  using machine_as_start [OF assms, of E n] by (auto simp: resting_def log_start_def)

text \<open>C6: whatever the number of threads and however their calls of \<open>mlogf\<close>, \<open>get_mlogger\<close>,
  \<open>shutdown_mlogger\<close> and \<open>shutdown_all_mloggers\<close> interleave: the loggers, the output and the result of
  every call are those of the same calls made one after the other in the order in which they took
  effect; at most one thread is inside the mutex; no record is used or freed after it was freed (the only
  faults are a failed assertion and a full handle counter); and when every thread is back, the live
  records are exactly those of the list.\<close>

theorem log_threads_sequential:
  assumes "mlog_rel m sp0" "log_reach E (log_start n m) s"
  shows "\<exists>as sp. spec_run (le_strftime E) (le_fopen E) (map fst (log_hist s)) sp0 = Inr (map snd (log_hist s), sp) \<and>
    registry as (shared s) sp \<and>
    (failed s = None \<or> failed s = Some Assert_failed \<or> failed s = Some Signed_overflow) \<and>
    (set (log_pcs s) \<subseteq> {Out} \<longrightarrow> dom (ms_heap (shared s)) = set as) \<and>
    (i < length (log_pcs s) \<and> log_holds (log_pcs s ! i) \<and> j < length (log_pcs s) \<and> log_holds (log_pcs s ! j) \<longrightarrow> i = j)"
proof -
  have ok: "machine_ok E sp0 s" by (rule reach_ok [OF assms(2) machine_ok_start [OF assms(1)]])
  then obtain as sp where m: "machine_as E sp0 as sp s" and o: "owner_ok log_holds (lock s) (log_pcs s)"
    by (auto simp: machine_ok_def)
  have "dom (ms_heap (shared s)) = set as" if "set (log_pcs s) \<subseteq> {Out}"
    using that by (intro machine_as_idle [OF m]) auto
  moreover have "i = j" if "i < length (log_pcs s)" "log_holds (log_pcs s ! i)" "j < length (log_pcs s)"
    "log_holds (log_pcs s ! j)"
    using owner_holds [OF o that(1)] owner_holds [OF o that(3)] that by simp
  ultimately show ?thesis
    using m ok unfolding machine_as_def in_order_def machine_ok_def by blast
qed

theorem log_threads_sequential_witness:
  "\<exists>m s as sp. log_reach free_env (log_start 2 m) s \<and> log_pcs s = [Out, Out] \<and> registry as (shared s) sp \<and>
     dom (ms_heap (shared s)) = set as \<and> length as = 2"
proof -
  obtain m where m: "mlog_rel m one_logger" using one_logger_state by blast
  obtain as where r: "resting free_env one_logger as one_logger [Out, Out] (log_start 2 m)" "represents as m one_logger"
    using resting_start [OF m, of free_env 2] by (auto simp: numeral_2_eq_2)
  obtain s a sp' where s: "log_reach free_env (log_start 2 m) s" "resting free_env one_logger (as @ [a]) sp' [Out, Out] s"
    by (rule get_runs [OF r(1), of 0 MLOG_STDOUT MLOG_INFO NONE]) (simp_all add: free_env_def one_logger_def INT_MAX_def)
  obtain bs sp where b: "registry bs (shared s) sp" "dom (ms_heap (shared s)) = set bs"
    using log_threads_sequential [OF m s(1), of 0 0] s(2) by (auto simp: resting_def)
  have "registry (as @ [a]) (shared s) sp'" using s(2) by (simp add: resting_def machine_as_def)
  then have "bs = as @ [a]" using b(1) lst_unique by (auto simp: registry_def)
  moreover have "length as = 1" using represents_length [OF r(2)] by (simp add: one_logger_def)
  ultimately have "length bs = 2" by simp
  moreover have "log_pcs s = [Out, Out]" using s(2) by (simp add: resting_def)
  ultimately show ?thesis using b s(1) by blast
qed

text \<open>C11: used as mlog.h describes (the other threads only log, the main thread also creates loggers and
  shuts them down), the build with threads is as good as sequential: whenever the main thread is not inside
  a call, the whole state is what the calls made so far leave one after the other, counters and default
  handle included, and a fault happens only where the sequential calls fault.\<close>

theorem log_threads_main_thread:
  assumes "mlog_rel m sp0" "main_thread_only E" "0 < n" "log_reach E (log_start n m) s"
  shows "(case failed s of
      None \<Rightarrow> \<exists>sp. spec_run (le_strftime E) (le_fopen E) (map fst (log_hist s)) sp0 = Inr (map snd (log_hist s), sp) \<and>
        (log_pcs s ! 0 = Out \<longrightarrow> mlog_rel (shared s) sp)
    | Some e \<Rightarrow> \<exists>c. spec_run (le_strftime E) (le_fopen E) (map fst (log_hist s) @ [c]) sp0 = Inl e)"
proof -
  have inv: "main_inv E sp0 s"
    by (rule main_inv_reach [OF assms(4) main_inv_start [OF assms(1,3)] assms(2)])
  then obtain as sp where m: "machine_as E sp0 as sp s" and c: "counts s 0 as"
    by (auto simp: main_inv_def)
  have "mlog_rel (shared s) sp" if "log_pcs s ! 0 = Out"
  proof -
    have "only_logs (log_pcs s ! j)" if "j < length (log_pcs s)" for j
      using inv that \<open>log_pcs s ! 0 = Out\<close> by (cases j) (auto simp: main_inv_def)
    moreover have "only_logs p \<Longrightarrow> own_block p = None" for p by (cases p) auto
    ultimately have "\<forall>p \<in> set (log_pcs s). own_block p = None" by (metis in_set_conv_nth)
    then have "dom (ms_heap (shared s)) = set as" by (rule machine_as_idle [OF m])
    moreover have "registry as (shared s) sp" "spec_wf sp" using m by (auto simp: machine_as_def)
    moreover from this have "sp_loggers sp = [] \<longleftrightarrow> as = []" using registry_length [of as "shared s" sp] by auto
    ultimately show ?thesis
      using c that by (auto simp: mlog_rel_def represents_def counts_def spec_default_def)
  qed
  moreover have "spec_run (le_strftime E) (le_fopen E) (map fst (log_hist s)) sp0 = Inr (map snd (log_hist s), sp)"
    using m by (simp add: machine_as_def in_order_def)
  moreover have "\<exists>c. spec_run (le_strftime E) (le_fopen E) (map fst (log_hist s) @ [c]) sp0 = Inl e"
    if "failed s = Some e" for e using inv that unfolding main_inv_def by blast
  ultimately show ?thesis by (simp split: option.split)
qed

lemma one_counted:
  assumes "represents as m sp" "length (sp_loggers sp) = 1"
  shows "nloggers m = 1" "g_handle m = 0" "length as = 1"
proof -
  show "length as = 1" using represents_length [OF assms(1)] assms(2) by simp
  then have "unat (nloggers m) = 1" using assms(1) by (simp add: represents_def)
  then show "nloggers m = 1" by (metis of_nat_1 word_eq_of_nat)
  show "g_handle m = 0" using assms by (auto simp: represents_def spec_default_def)
qed

definition main_env :: log_env where
  "main_env = free_env\<lparr>le_may := \<lambda>i c. case c of Mlogf h v msg \<Rightarrow> True | _ \<Rightarrow> i = 0\<rparr>"

theorem log_threads_main_thread_witness:
  "\<exists>m s sp. log_reach main_env (log_start 2 m) s \<and> mlog_rel (shared s) sp \<and> nloggers (shared s) = 2"
proof -
  obtain m where m: "mlog_rel m one_logger" using one_logger_state by blast
  obtain as where r: "resting main_env one_logger as one_logger [Out, Out] (log_start 2 m)" "represents as m one_logger"
    using resting_start [OF m, of main_env 2] by (auto simp: numeral_2_eq_2)
  obtain s a sp' where s: "log_reach main_env (log_start 2 m) s" "resting main_env one_logger (as @ [a]) sp' [Out, Out] s"
      "nloggers (shared s) = nloggers (shared (log_start 2 m)) + 1"
    by (rule get_runs [OF r(1), of 0 MLOG_STDOUT MLOG_INFO NONE]) (simp_all add: main_env_def one_logger_def INT_MAX_def)
  have "main_thread_only main_env"
    by (auto simp: main_thread_only_def main_env_def split: log_op.splits)
  from log_threads_main_thread [OF m this _ s(1)] s(2) obtain sp where "mlog_rel (shared s) sp"
    by (auto simp: resting_def)
  moreover have "nloggers m = 1" using one_counted [OF r(2)] by (simp add: one_logger_def)
  then have "nloggers (shared s) = 2" using s(3) by (simp add: log_start_def)
  ultimately show ?thesis using s(1) by blast
qed

text \<open>Thread 0 shuts the only logger down and has just released the mutex.\<close>

lemma race_unlinked:
  assumes m: "mlog_rel m sp0" and l: "sp_loggers sp0 = [l]" and may: "le_may E 0 (Shutdown (lg_handle l))"
  obtains s a where "log_reach E (log_start 2 m) s"
    "resting E sp0 [] (snd (spec_shutdown (lg_handle l) sp0)) [Shut_free a, Out] s"
    "nloggers (shared s) = 1" "g_handle (shared s) = 0"
proof -
  obtain as where r: "resting E sp0 as sp0 [Out, Out] (log_start 2 m)" "represents as m sp0"
    using resting_start [OF m, of E 2] by (auto simp: numeral_2_eq_2)
  have n: "nloggers m = 1" "g_handle m = 0" "length as = 1"
    using one_counted [OF r(2)] l by simp_all
  have find: "spec_find (lg_handle l) sp0 \<noteq> None" using l by (simp add: spec_find_def mlogger_check_def)
  show thesis
    by (rule shutdown_runs [OF r(1) _ _ find may]) (use n that in \<open>auto simp: log_start_def\<close>)
qed

lemma race_default:
  assumes m: "mlog_rel m sp0" and l: "sp_loggers sp0 = [l]" "sp_next sp0 < INT_MAX"
    and may: "le_may E 0 (Shutdown (lg_handle l))" "le_may E 1 (Get_mlogger True t v z)"
  shows "\<exists>s. log_reach E (log_start 2 m) s \<and> log_pcs s = [Out, Out] \<and> failed s = None \<and> mloggers (shared s) \<noteq> None \<and>
      g_handle (shared s) = -1"
proof -
  obtain s1 a where s1: "log_reach E (log_start 2 m) s1"
      "resting E sp0 [] (snd (spec_shutdown (lg_handle l) sp0)) [Shut_free a, Out] s1"
      "nloggers (shared s1) = 1" "g_handle (shared s1) = 0"
    by (rule race_unlinked [OF m l(1) may(1)])
  obtain s2 where s2: "log_reach E s1 s2"
      "resting E sp0 [] (snd (spec_shutdown (lg_handle l) sp0)) [Shut_reset, Out] s2"
      "nloggers (shared s2) = 0" "g_handle (shared s2) = 0"
    by (rule shutdown_tail_runs [OF s1(2)]) (use s1 in auto)
  obtain s3 b sp where s3: "log_reach E s2 s3" "resting E sp0 [b] sp [Shut_reset, Out] s3"
    by (rule get_runs [OF s2(2), of 1 t v z]) (use l may in \<open>auto simp: spec_shutdown_def\<close>)
  define s4 where "s4 = goto_log 0 Out (s3\<lparr>shared := (shared s3)\<lparr>g_handle := -1\<rparr>\<rparr>)"
  have f3: "failed s3 = None" "log_pcs s3 = [Shut_reset, Out]" using s3(2) by (simp_all add: resting_def)
  then have "shut_step 0 s3 s4" unfolding s4_def by (intro shut_step.shut_reset) (simp add: at_log_def)
  then have "log_reach E (log_start 2 m) s4"
    using reach_thread [of E s2 s3 0 s4] reach_trans s1(1) s2(1) s3(1) f3(1) by blast
  moreover have "lst lg_next (ms_heap (shared s3)) (mloggers (shared s3)) [b]"
    using s3(2) by (simp add: resting_def machine_as_def registry_def)
  then have "mloggers (shared s4) \<noteq> None" by (auto simp: s4_def)
  ultimately show ?thesis using f3 by (intro exI [of _ s4]) (simp add: s4_def)
qed

lemma race_abort:
  assumes m: "mlog_rel m sp0" and l: "sp_loggers sp0 = [l]"
    and may: "le_may E 0 (Shutdown (lg_handle l))" "le_may E 1 Shutdown_all"
  shows "\<exists>s. log_reach E (log_start 2 m) s \<and> failed s = Some Assert_failed"
proof -
  obtain s1 a where s1: "log_reach E (log_start 2 m) s1"
      "resting E sp0 [] (snd (spec_shutdown (lg_handle l) sp0)) [Shut_free a, Out] s1" "nloggers (shared s1) = 1"
    by (rule race_unlinked [OF m l may(1)])
  have at1: "at_log s1 1 Out" "failed s1 = None" "lock s1 = None" using s1(2) by (simp_all add: resting_def at_log_def)
  define t1 where "t1 = goto_log 1 All_lock s1"
  define t2 where "t2 = goto_log 1 All_held (t1\<lparr>lock := Some 1\<rparr>)"
  have t: "log_call E 1 s1 t1" "all_step 1 t1 t2" "failed t1 = None" "failed t2 = None" "at_log t2 1 All_held"
    using at1 may(2) unfolding t2_def t1_def
    by (auto intro!: log_call.call_all all_step.all_lock simp: at_log_def)
  have "machine_as E sp0 [] (snd (spec_shutdown (lg_handle l) sp0)) t1"
    using s1(2) at1(1) unfolding t1_def by (intro machine_as_goto [of _ _ _ _ _ _ Out]) (auto simp: resting_def)
  then have "machine_as E sp0 [] (snd (spec_shutdown (lg_handle l) sp0)) t2"
    using at1(1) unfolding t2_def
    by (intro machine_as_goto [of _ _ _ _ _ _ All_lock] machine_as_shared) (auto simp: t1_def at_log_def)
  from all_body_as [OF this t(5)] have "all_step 1 t2 (t2\<lparr>failed := Some Assert_failed\<rparr>)"
    using t(5) s1(3) by (auto simp: t2_def t1_def intro: all_step.all_fail)
  then have "log_reach E s1 (t2\<lparr>failed := Some Assert_failed\<rparr>)"
    using reach_call [OF reach_refl at1(2) t(1)] reach_thread [of E s1 t1 1 t2]
      reach_thread [of E s1 t2 1 "t2\<lparr>failed := Some Assert_failed\<rparr>"] t by blast
  then show ?thesis
    using reach_trans [OF s1(1)] by (intro exI [of _ "t2\<lparr>failed := Some Assert_failed\<rparr>"]) simp
qed

text \<open>C21: used otherwise, it is not. On a registry with one logger, one thread shuts it down while another
  creates a new one: both calls succeed, one after the other as far as the list is concerned, but the
  unlocked rest of the shutdown then sets the default handle to \<open>-1\<close>, and although there is a logger every
  message through the macros is dropped. And when the other thread calls \<open>shutdown_all_mloggers\<close> instead, its
  assertion can fail and abort the program.\<close>

theorem log_threads_race:
  assumes "mlog_rel m sp0" "sp_loggers sp0 = [l]" "sp_next sp0 < INT_MAX"
    and "le_may E 0 (Shutdown (lg_handle l))" "le_may E 1 (Get_mlogger True t v z)" "le_may E 1 Shutdown_all"
  shows "(\<exists>s. log_reach E (log_start 2 m) s \<and> log_pcs s = [Out, Out] \<and> failed s = None \<and> mloggers (shared s) \<noteq> None \<and>
      (\<forall>strftime msg. mcriticalf strftime msg (shared s) = ret (shared s))) \<and>
    (\<exists>s. log_reach E (log_start 2 m) s \<and> failed s = Some Assert_failed)"
proof (intro conjI)
  have "mcriticalf strftime msg n = ret n" if "g_handle n = -1" for strftime msg n
    using that by (simp add: mcriticalf_def mlogf_def)
  then show "\<exists>s. log_reach E (log_start 2 m) s \<and> log_pcs s = [Out, Out] \<and> failed s = None \<and> mloggers (shared s) \<noteq> None \<and>
      (\<forall>strftime msg. mcriticalf strftime msg (shared s) = ret (shared s))"
    using race_default [OF assms(1-5)] by metis
  show "\<exists>s. log_reach E (log_start 2 m) s \<and> failed s = Some Assert_failed"
    by (rule race_abort [OF assms(1,2,4,6)])
qed

theorem log_threads_race_witness:
  "\<exists>m s. mlog_rel m one_logger \<and> log_reach free_env (log_start 2 m) s \<and> mloggers (shared s) \<noteq> None \<and>
    mcriticalf (\<lambda>fmt utc. fmt) ''lost'' (shared s) = ret (shared s)"
proof -
  obtain m where m: "mlog_rel m one_logger" using one_logger_state by blast
  obtain l where l: "sp_loggers one_logger = [l]" "sp_next one_logger < INT_MAX"
    by (simp add: one_logger_def INT_MAX_def)
  have may: "le_may free_env i c" for i c by (simp add: free_env_def)
  show ?thesis using log_threads_race [OF m l may may may] m by blast
qed

text \<open>A thread stuck in a callback, and what no step changes then.\<close>

fun needs_mutex :: "log_pc \<Rightarrow> bool" where
  "needs_mutex (Get_lock a t v z) = True" | "needs_mutex (Shut_lock h) = True" | "needs_mutex All_lock = True"
| "needs_mutex (Logf_lock h v msg) = True" | "needs_mutex _ = False"

definition stuck :: "nat \<Rightarrow> callback \<Rightarrow> log_machine \<Rightarrow> bool" where
  "stuck i cb s \<longleftrightarrow> at_log s i (In_callback cb) \<and> lock s = Some i \<and> owner_ok log_holds (lock s) (log_pcs s)"

lemma stuck_step:
  assumes step: "log_any_step E s s'" and st: "stuck i cb s" and cb: "le_inner E cb = Some (h, v, msg)" "0 \<le> h"
  shows "stuck i cb s' \<and> (\<forall>j < length (log_pcs s). needs_mutex (log_pcs s ! j) \<longrightarrow> log_pcs s' ! j = log_pcs s ! j)"
proof -
  obtain j where j: "log_thread_step E j s s' \<or> log_call E j s s'" using step by (auto simp: log_any_step_def)
  have o: "owner_ok log_holds (Some i) (log_pcs s)" and at: "at_log s i (In_callback cb)" and l: "lock s = Some i"
    using st by (auto simp: stuck_def)
  have free: "\<not> log_holds (log_pcs s ! k)" if "k < length (log_pcs s)" "k \<noteq> i" for k
    using owner_holds [OF o that(1)] that(2) by simp
  have lock: "lock s' = Some i \<and> log_pcs s' ! i = In_callback cb \<and>
      (\<forall>k < length (log_pcs s). needs_mutex (log_pcs s ! k) \<longrightarrow> log_pcs s' ! k = log_pcs s ! k)"
    using j
  proof
    assume t: "log_thread_step E j s s'"
    have "j \<noteq> i"
    proof
      assume "j = i"
      with t at have "logf_step E i s s'" using other_steps(1) [of E i s s'] by (simp add: at_log_def)
      then show False by (rule logf_stepE) (use at l cb in \<open>auto simp: at_log_def\<close>)
    qed
    then have n: "\<not> log_holds (log_pcs s ! j)" if "j < length (log_pcs s)" using free that by simp
    have "log_pcs s' ! k = log_pcs s ! k" if "k < length (log_pcs s)" "needs_mutex (log_pcs s ! k) \<or> k = i" for k
      using t that n l \<open>j \<noteq> i\<close> unfolding log_thread_step_def
      by (cases "k = j") (elim conjE disjE get_stepE shut_stepE all_stepE logf_stepE; simp add: at_log_def)+
    moreover have "lock s' = Some i"
      using t n l unfolding log_thread_step_def
      by (elim conjE disjE get_stepE shut_stepE all_stepE logf_stepE; simp add: at_log_def)
    ultimately show ?thesis using at by (simp add: at_log_def)
  next
    assume "log_call E j s s'"
    then show ?thesis
      by (rule log_callE) (use at l in \<open>auto simp: at_log_def nth_list_update\<close>)
  qed
  moreover have "length (log_pcs s') = length (log_pcs s)" by (rule any_step_length [OF step])
  moreover have "owner_ok log_holds (lock s') (log_pcs s')"
    using j lock_thread lock_call o l by metis
  ultimately show ?thesis using at by (simp add: stuck_def at_log_def)
qed

lemma stuck_reach:
  assumes "log_reach E s s'" "stuck i cb s" "le_inner E cb = Some (h, v, msg)" "0 \<le> h"
  shows "stuck i cb s' \<and> (\<forall>j < length (log_pcs s). needs_mutex (log_pcs s ! j) \<longrightarrow> log_pcs s' ! j = log_pcs s ! j)"
  using assms(1) unfolding log_reach_def
proof (induction rule: rtranclp_induct)
  case base
  then show ?case using assms(2) by simp
next
  case (step t u)
  then have "length (log_pcs t) = length (log_pcs s)" using reach_length [of E s t] by (simp add: log_reach_def)
  then show ?case using step stuck_step [OF step(2) _ assms(3,4)] by auto
qed

text \<open>One logger whose callback logs to it.\<close>

definition echo_env :: log_env where
  "echo_env = free_env\<lparr>le_inner := \<lambda>cb. Some (0, MLOG_ERROR, ''again'')\<rparr>"

definition echo_logger :: log_spec where
  "echo_logger = \<lparr>sp_loggers = [\<lparr>lg_type = MLOG_STDOUT, lg_severity = MLOG_INFO, lg_logtime = NONE, lg_handle = 0,
     lg_path = None, lg_logfile = Some Stdout, lg_callback = Some 7, lg_cb_data = None, lg_next = None\<rparr>],
     sp_next = 1, sp_out = []\<rparr>"

lemma echo_logger_state: "\<exists>m. mlog_rel m echo_logger"
proof -
  have "spec_run (\<lambda>fmt utc. fmt) (\<lambda>p. True) [Get_mlogger True MLOG_STDOUT MLOG_INFO NONE, Register 0 (Some 7) None]
      spec_init = Inr ([Handle 0, Done], echo_logger)"
    by (simp add: spec_eval echo_logger_def)
  from log_run_Inr [OF mlog_rel_init fresh_next_address this] show ?thesis by blast
qed

lemma echo_message:
  assumes "mlog_rel m echo_logger"
  shows "\<exists>m'. mlogf (\<lambda>fmt utc. fmt) 0 MLOG_ERROR ''hello'' m = ret m' \<and> callback_of m m' = Some 7"
proof -
  from assms obtain as where r: "registry as m echo_logger" "spec_wf echo_logger"
    by (auto simp: mlog_rel_def represents_def)
  have e: "spec_mlogf (\<lambda>fmt utc. fmt) 0 MLOG_ERROR ''hello'' echo_logger =
      Inr (spec_emit [Callback 7 MLOG_INFO ''hello'' None] echo_logger)"
    by (simp add: spec_eval echo_logger_def MAX_LOG_def)
  then obtain es where es: "mlogf (\<lambda>fmt utc. fmt) 0 MLOG_ERROR ''hello'' m = ret (emit es m)"
      "spec_emit [Callback 7 MLOG_INFO ''hello'' None] echo_logger = spec_emit es echo_logger"
    using mlogf_registry [OF r, of "\<lambda>fmt utc. fmt" 0 MLOG_ERROR "''hello''"] by auto
  then have "es = [Callback 7 MLOG_INFO ''hello'' None]" by (simp add: spec_emit_def echo_logger_def)
  then have "callback_of m (emit es m) = Some 7" by (simp add: callback_of_def emit_def)
  with es(1) show ?thesis by blast
qed

text \<open>C19: a callback that logs deadlocks. \<open>mlogf\<close> runs the callback inside the mutex, and the message it
  logs needs the mutex again, which its own thread holds: from then on, whatever the other threads
  do, that thread never leaves the callback, and no thread that waits for the mutex ever gets it.\<close>

theorem log_callback_deadlock:
  assumes "mlog_rel m sp0" "log_reach E (log_start n m) s"
    and "at_log s i (In_callback cb)" "le_inner E cb = Some (h, v, msg)" "0 \<le> h"
    and "log_reach E s s'"
  shows "at_log s' i (In_callback cb) \<and> lock s' = Some i \<and>
    (\<forall>j < length (log_pcs s). needs_mutex (log_pcs s ! j) \<longrightarrow> log_pcs s' ! j = log_pcs s ! j)"
proof -
  have "machine_ok E sp0 s" by (rule reach_ok [OF assms(2) machine_ok_start [OF assms(1)]])
  then have "stuck i cb s"
    using assms(3) owner_holds [of log_holds "lock s" "log_pcs s" i]
    by (auto simp: machine_ok_def at_log_def stuck_def)
  from stuck_reach [OF assms(6) this assms(4,5)] show ?thesis by (simp add: stuck_def)
qed

theorem log_callback_deadlock_witness:
  "\<exists>m s s'. log_reach echo_env (log_start 2 m) s \<and> log_pcs s = [In_callback 7, Out] \<and> log_reach echo_env s s' \<and>
    log_pcs s' = [In_callback 7, All_lock] \<and> lock s' = Some 0"
proof -
  obtain m where m: "mlog_rel m echo_logger" using echo_logger_state by blast
  obtain m' where m': "mlogf (\<lambda>fmt utc. fmt) 0 MLOG_ERROR ''hello'' m = ret m'" "callback_of m m' = Some 7"
    using echo_message [OF m] by blast
  let ?s1 = "goto_log 0 (Logf_lock 0 MLOG_ERROR ''hello'') (log_start 2 m)"
  let ?s2 = "goto_log 0 (Logf_held 0 MLOG_ERROR ''hello'') (?s1\<lparr>lock := Some 0\<rparr>)"
  let ?s3 = "goto_log 0 (In_callback 7) (effect m' (Mlogf 0 MLOG_ERROR ''hello'') Done ?s2)"
  let ?s4 = "goto_log 1 All_lock ?s3"
  have "log_call echo_env 0 (log_start 2 m) ?s1"
    by (rule log_call.call_logf) (simp_all add: at_log_def log_start_def echo_env_def free_env_def)
  then have r1: "log_reach echo_env (log_start 2 m) ?s1"
    by (rule reach_call [OF reach_refl, rotated]) (simp add: log_start_def)
  have "logf_step echo_env 0 ?s1 ?s2"
    by (rule logf_step.logf_lock) (simp_all add: at_log_def log_start_def)
  then have r2: "log_reach echo_env (log_start 2 m) ?s2"
    by (intro reach_thread [OF r1, of 0]) (simp_all add: log_start_def)
  have "logf_step echo_env 0 ?s2 ?s3"
    using m' by (intro logf_step.logf_callback) (simp_all add: at_log_def log_start_def echo_env_def free_env_def)
  then have r3: "log_reach echo_env (log_start 2 m) ?s3"
    by (intro reach_thread [OF r2, of 0]) (simp_all add: log_start_def)
  have "log_call echo_env 1 ?s3 ?s4"
    by (rule log_call.call_all) (simp_all add: at_log_def log_start_def echo_env_def free_env_def)
  then have r4: "log_reach echo_env ?s3 ?s4"
    by (rule reach_call [OF reach_refl, rotated]) (simp add: log_start_def)
  have at: "at_log ?s3 0 (In_callback 7)" by (simp add: at_log_def log_start_def)
  have cb: "le_inner echo_env 7 = Some (0, MLOG_ERROR, ''again'')" by (simp add: echo_env_def)
  have p: "log_pcs ?s3 = [In_callback 7, Out]" "log_pcs ?s4 = [In_callback 7, All_lock]"
    by (simp_all add: log_start_def numeral_2_eq_2)
  have "lock ?s4 = Some 0"
    using log_callback_deadlock [OF m r3 at cb _ r4] by blast
  with r3 r4 p show ?thesis by blast
qed

lemma log_run_work:
  "((\<lambda>t u. \<exists>i. log_thread_step E i t u) ^^ l) s s' \<Longrightarrow> quiet_callbacks E \<Longrightarrow>
     int l + log_work s' \<le> log_work s \<and> log_reach E s s'"
proof (induction l arbitrary: s')
  case 0
  then show ?case by (simp add: reach_refl)
next
  case (Suc l)
  then obtain u i where u: "int l + log_work u \<le> log_work s" "log_reach E s u" "log_thread_step E i u s'" by auto
  from log_step_work [OF u(3) Suc.prems(2)] u(1) have "int (Suc l) + log_work s' \<le> log_work s" by simp
  moreover have "log_reach E s s'"
    using reach_thread [OF u(2)] u(3) unfolding log_thread_step_def by blast
  ultimately show ?case ..
qed

text \<open>C24: with no such callback there is no deadlock, and every call returns: from any reachable state
  with \<open>n\<close> threads, without new calls, every sequence of thread steps has at most \<open>8 * n + 1\<close> steps, and
  one that cannot be continued ends in a fault or with every thread back from its call.\<close>

theorem log_threads_come_to_rest:
  assumes "mlog_rel m sp0" "log_reach E (log_start n m) s" "quiet_callbacks E"
    and run: "((\<lambda>t u. \<exists>i. log_thread_step E i t u) ^^ l) s s'"
  shows "l \<le> 8 * n + 1 \<and>
    ((\<forall>i s''. \<not> log_thread_step E i s' s'') \<longrightarrow> failed s' \<noteq> None \<or> set (log_pcs s') \<subseteq> {Out})"
proof -
  have ok: "machine_ok E sp0 s" by (rule reach_ok [OF assms(2) machine_ok_start [OF assms(1)]])
  note r = log_run_work [OF run assms(3)]
  have "length (log_pcs s) = n" using reach_length [OF assms(2)] by (simp add: log_start_def)
  then have "log_work s \<le> 8 * int n + 1" "0 \<le> log_work s'"
    using log_weight_work(2) [of "log_pcs s"] log_weight_work(1) [of "log_pcs s'"] by (simp_all add: log_work_def)
  then have "l \<le> 8 * n + 1" using r by linarith
  moreover have "set (log_pcs s') \<subseteq> {Out}" if "\<forall>i s''. \<not> log_thread_step E i s' s''" "failed s' = None"
    using some_log_thread_steps [OF reach_ok [OF reach_trans [OF reach_refl conjunct2 [OF r]] ok] that(2) assms(3)] that(1)
    by (auto simp: in_set_conv_nth, blast)
  ultimately show ?thesis by blast
qed

theorem log_threads_come_to_rest_witness:
  "\<exists>m s i s'. log_reach free_env (log_start 2 m) s \<and> log_pcs s = [All_held, Out] \<and> log_thread_step free_env i s s'"
proof -
  obtain m where m: "mlog_rel m one_logger" using one_logger_state by blast
  let ?s = "goto_log 0 All_lock (log_start 2 m)"
  let ?t = "goto_log 0 All_held (?s\<lparr>lock := Some 0\<rparr>)"
  have "log_call free_env 0 (log_start 2 m) ?s"
    by (rule log_call.call_all) (simp_all add: at_log_def log_start_def free_env_def)
  then have s: "log_reach free_env (log_start 2 m) ?s"
    by (rule reach_call [OF reach_refl, rotated]) (simp add: log_start_def)
  have "all_step 0 ?s ?t" by (rule all_step.all_lock) (simp_all add: at_log_def log_start_def)
  then have t: "log_thread_step free_env 0 ?s ?t" by (simp add: log_thread_step_def log_start_def)
  then have run: "((\<lambda>t u. \<exists>i. log_thread_step free_env i t u) ^^ 1) ?s ?t" by auto
  have q: "quiet_callbacks free_env" by (simp add: quiet_callbacks_def free_env_def)
  have p: "log_pcs ?t = [All_held, Out]" "failed ?t = None" by (simp_all add: log_start_def numeral_2_eq_2)
  with log_threads_come_to_rest [OF m s q run] obtain i u where "log_thread_step free_env i ?t u" by auto
  moreover have "log_reach free_env (log_start 2 m) ?t"
    using reach_thread [OF s] t unfolding log_thread_step_def by blast
  ultimately show ?thesis using p by blast
qed

end
