(* ===== verification/Mlog_Setters.thy ===== *)
theory Mlog_Setters
  imports Mlog_Spec
begin

section \<open>Setters beside \<open>mlogf\<close> (mlog.c with \<open>MIKELIBC_THREADS\<close>)\<close>

text \<open>
  mlog.h calls \<open>mlogf\<close> thread-safe and leaves the other functions to the main thread. The setters
  take no mutex, so the main thread may change a logger while another thread is writing a message to
  it. Here \<open>vmlogf\<close> is cut into its single reads of the logger and its writes to the outside, and the
  setters into their single stores. \<open>logging_mutex\<close> keeps other calls of \<open>mlogf\<close> and the removal of
  loggers away, so one message and the stores of the main thread are all there is.
\<close>

subsection \<open>A message, read by read\<close>

text \<open>What is left of a call: \<open>Load\<close> reads the logger as it is now and goes on with what it read.\<close>

datatype reads =
    Return
  | Fault fault
  | Emit event reads
  | Load "mlog \<Rightarrow> reads"

text \<open>\<open>fprintf(logger->logfile, ...)\<close>; the text is \<open>None\<close> when it was never written.\<close>

definition print_log :: "string option \<Rightarrow> reads \<Rightarrow> reads" where
  "print_log text k = Load (\<lambda>l. case lg_logfile l of
     None \<Rightarrow> Fault Null_deref
   | Some f \<Rightarrow> (case text of None \<Rightarrow> Fault Uninit_read | Some t \<Rightarrow> Emit (Print f t) k))"

definition line_reads :: "string option \<Rightarrow> logseverity \<Rightarrow> string \<Rightarrow> reads" where
  "line_reads timebuf severity msg =
     (let text = print_log (Some (severity_label severity)) (print_log (Some msg) (print_log (Some newline) Return));
          utc = Load (\<lambda>l. if lg_logtime l = UTC then print_log (Some ''UTC '') text else text)
      in Load (\<lambda>l. if lg_logfile l = None then Fault Assert_failed
         else Load (\<lambda>l. if lg_logtime l \<noteq> NONE then print_log (map_option (\<lambda>t. t @ '' '') timebuf) utc else utc)))"

fun type_value :: "loggertype \<Rightarrow> int" where
  "type_value MLOG_NONE = -1"
| "type_value MLOG_STDOUT = 0"
| "type_value MLOG_SYSLOG = 1"
| "type_value MLOG_FILE = 2"
| "type_value MLOG_STDERR = 3"
| "type_value (Other_type t) = t"

definition type_reads :: "string option \<Rightarrow> logseverity \<Rightarrow> string \<Rightarrow> reads" where
  "type_reads timebuf severity msg = Load (\<lambda>l. case lg_type l of
     MLOG_NONE \<Rightarrow> Return
   | MLOG_SYSLOG \<Rightarrow> Emit (Print Stderr (''Warning: syslog support not implemented.'' @ newline))
       (line_reads timebuf severity msg)
   | Other_type t \<Rightarrow> Load (\<lambda>l. Emit (Print_int Stderr ''Unsupported logger type: '' (type_value (lg_type l))) Return)
   | _ \<Rightarrow> line_reads timebuf severity msg)"

text \<open>The call of the callback: the function, then its arguments from left to right (C leaves the order
  open). The test before it has read the pointer once already.\<close>

definition callback_reads :: "string \<Rightarrow> reads" where
  "callback_reads msg = Load (\<lambda>f. Load (\<lambda>v. Load (\<lambda>d. case lg_callback f of
     None \<Rightarrow> Fault Null_deref
   | Some cb \<Rightarrow> Emit (Callback cb (lg_severity v) (take (MAX_LOG - 1) msg) (lg_cb_data d)) Return)))"

definition vmlogf_reads :: "strftime_fun \<Rightarrow> logseverity \<Rightarrow> string \<Rightarrow> reads" where
  "vmlogf_reads strftime severity msg =
     Load (\<lambda>l. if severity < lg_severity l then Return
     else Load (\<lambda>l. if lg_callback l \<noteq> None then callback_reads msg
     else Load (\<lambda>l. let tf = time_format (lg_logtime l) in
     Load (\<lambda>l. if lg_logtime l \<noteq> NONE
       then Load (\<lambda>l. type_reads (Some (strftime tf (lg_logtime l = UTC))) severity msg)
       else type_reads None severity msg))))"

subsection \<open>The setters, store by store\<close>

text \<open>Each acts on a logger its search has found; only the main thread changes the list.\<close>

datatype setter =
    Time logtime
  | Type loggertype "string option"
  | Sev logseverity
  | Cb "callback option" ptr

datatype access = Store "mlog \<Rightarrow> mlog" | Say event

fun accesses :: "(string \<Rightarrow> bool) \<Rightarrow> setter \<Rightarrow> access list" where
  "accesses fopen (Time tstype) = [Store (\<lambda>l. l\<lparr>lg_logtime := tstype\<rparr>)]"
| "accesses fopen (Sev severity) = [Store (\<lambda>l. l\<lparr>lg_severity := severity\<rparr>)]"
| "accesses fopen (Cb cb_fn_ptr cb_ptr) =
     [Store (\<lambda>l. l\<lparr>lg_callback := cb_fn_ptr\<rparr>), Store (\<lambda>l. l\<lparr>lg_cb_data := cb_ptr\<rparr>)]"
| "accesses fopen (Type type path) = Store (\<lambda>l. l\<lparr>lg_type := type\<rparr>) #
     (if type = MLOG_FILE then
        (case path of
           Some p \<Rightarrow> Say (Fopen p) #
             (if fopen p then [Store (\<lambda>l. l\<lparr>lg_logfile := Some (Opened p)\<rparr>)]
              else [Store (\<lambda>l. l\<lparr>lg_logfile := None\<rparr>), Say (Perror ''logfile''),
                Store (\<lambda>l. l\<lparr>lg_type := MLOG_NONE\<rparr>)])
         | None \<Rightarrow> [Say (Print Stderr (''Warning: Requested file logger, but path is NULL'' @ newline))])
      else if type = MLOG_STDERR then [Store (\<lambda>l. l\<lparr>lg_logfile := Some Stderr\<rparr>)]
      else [Store (\<lambda>l. l\<lparr>lg_logfile := Some Stdout\<rparr>)])"

subsection \<open>Both at once\<close>

text \<open>The thread in \<open>mlogf\<close>, the main thread, the logger, and what each of the two has put out.\<close>

record race =
  rc_reads :: reads
  rc_stores :: "access list"
  rc_logger :: mlog
  rc_out :: "event list"
  rc_said :: "event list"

inductive race_step :: "race \<Rightarrow> race \<Rightarrow> bool" where
  step_load: "rc_reads s = Load k \<Longrightarrow> race_step s (s\<lparr>rc_reads := k (rc_logger s)\<rparr>)"
| step_emit: "rc_reads s = Emit e k \<Longrightarrow> race_step s (s\<lparr>rc_reads := k, rc_out := rc_out s @ [e]\<rparr>)"
| step_store: "rc_stores s = Store f # ws \<Longrightarrow>
     race_step s (s\<lparr>rc_stores := ws, rc_logger := f (rc_logger s)\<rparr>)"
| step_say: "rc_stores s = Say e # ws \<Longrightarrow> race_step s (s\<lparr>rc_stores := ws, rc_said := rc_said s @ [e]\<rparr>)"

definition race_start :: "reads \<Rightarrow> access list \<Rightarrow> mlog \<Rightarrow> race" where
  "race_start v ws l = \<lparr>rc_reads = v, rc_stores = ws, rc_logger = l, rc_out = [], rc_said = []\<rparr>"

definition race_reach :: "race \<Rightarrow> race \<Rightarrow> bool" where
  "race_reach = race_step\<^sup>*\<^sup>*"

inductive_cases race_stepE: "race_step s s'"

lemma race_reach_rules:
  "race_reach s s" "race_step s t \<Longrightarrow> race_reach t u \<Longrightarrow> race_reach s u"
  "race_reach s t \<Longrightarrow> race_reach t u \<Longrightarrow> race_reach s u"
  unfolding race_reach_def by (auto intro: converse_rtranclp_into_rtranclp)

text \<open>A message and some setters: \<open>logs_with\<close> is what the message can put out, and \<open>None\<close> or the fault it
  ends in.\<close>

definition logs_with ::
  "strftime_fun \<Rightarrow> (string \<Rightarrow> bool) \<Rightarrow> logseverity \<Rightarrow> string \<Rightarrow> setter list \<Rightarrow> mlog \<Rightarrow> event list \<Rightarrow> fault option \<Rightarrow> bool" where
  "logs_with strftime fopen severity msg cs l out r \<longleftrightarrow>
     (\<exists>s. race_reach (race_start (vmlogf_reads strftime severity msg) (concat (map (accesses fopen) cs)) l) s \<and>
        rc_out s = out \<and> rc_reads s = (case r of None \<Rightarrow> Return | Some e \<Rightarrow> Fault e))"

subsection \<open>One at a time, they are the functions of Mlog\<close>

primrec reads_alone :: "reads \<Rightarrow> mlog \<Rightarrow> event list res" where
  "reads_alone Return l = Inr []"
| "reads_alone (Fault e) l = Inl e"
| "reads_alone (Emit e k) l = rbind (reads_alone k l) (\<lambda>es. Inr (e # es))"
| "reads_alone (Load k) l = reads_alone (k l) l"

fun stores_alone :: "access list \<Rightarrow> mlog \<Rightarrow> mlog \<times> event list" where
  "stores_alone [] l = (l, [])"
| "stores_alone (Store f # ws) l = stores_alone ws (f l)"
| "stores_alone (Say e # ws) l = apsnd (Cons e) (stores_alone ws l)"

lemma line_reads_alone:
  "reads_alone (line_reads (if lg_logtime l = NONE then None
     else Some (strftime (time_format (lg_logtime l)) (lg_logtime l = UTC))) severity msg) l =
   line_events strftime l severity msg"
  by (cases "lg_logfile l"; cases "lg_logtime l")
    (simp_all add: line_reads_def print_log_def line_events_def Let_def)

lemma vmlogf_reads_alone:
  "reads_alone (vmlogf_reads strftime severity msg) l = message_events strftime l severity msg"
proof -
  note line = line_reads_alone [of l strftime severity msg]
  show ?thesis
    by (cases "lg_callback l"; cases "lg_logtime l = NONE"; cases "lg_type l"; use line in simp)
      (simp_all add: vmlogf_reads_def callback_reads_def type_reads_def message_events_def Let_def)
qed

text \<open>The setters as changes of a logger, all stores at once.\<close>

lemma accesses_alone:
  "stores_alone (accesses fopen (Time tstype)) l = (l\<lparr>lg_logtime := tstype\<rparr>, [])"
  "stores_alone (accesses fopen (Sev severity)) l = (l\<lparr>lg_severity := severity\<rparr>, [])"
  "stores_alone (accesses fopen (Cb cb d)) l = (l\<lparr>lg_callback := cb, lg_cb_data := d\<rparr>, [])"
  by simp_all

lemma set_type_alone:
  assumes "find_mlogger h s = ret (Some a)" "ms_heap s a = Some l"
  shows "setloggertype fopen h type path s = ret (snd (snd (retype fopen type path)), case stores_alone (accesses fopen (Type type path)) l of
    (l', es) \<Rightarrow> emit es (set_logger a (\<lambda>_. l') s))"
  using assms
  by (cases path; cases "type = MLOG_FILE"; cases "fopen (the path)"; cases "type = MLOG_STDERR")
    (simp_all add: setloggertype_def retype_def set_logger_def emit_def Let_def)

subsection \<open>All the ways a race can go\<close>

text \<open>The loggers the main thread leaves one after the other; a read sees the current one or, after some
  stores, a later one.\<close>

fun versions :: "access list \<Rightarrow> mlog \<Rightarrow> mlog list" where
  "versions [] l = [l]"
| "versions (Store f # ws) l = l # versions ws (f l)"
| "versions (Say e # ws) l = versions ws l"

fun tails :: "'a list \<Rightarrow> 'a list list" where
  "tails [] = []"
| "tails (x # xs) = (x # xs) # tails xs"

primrec outcomes :: "reads \<Rightarrow> mlog list \<Rightarrow> (event list \<times> fault option) list" where
  "outcomes Return ls = [([], None)]"
| "outcomes (Fault e) ls = [([], Some e)]"
| "outcomes (Emit e k) ls = map (apfst (Cons e)) (outcomes k ls)"
| "outcomes (Load k) ls = concat (map (\<lambda>ls'. outcomes (k (hd ls')) ls') (tails ls))"

lemma versions_not_Nil [simp]: "versions ws l \<noteq> []"
  by (induction ws l rule: versions.induct) auto

lemma hd_versions [simp]: "hd (versions ws l) = l"
  by (induction ws l rule: versions.induct) auto

lemma tails_self: "ls \<noteq> [] \<Longrightarrow> ls \<in> set (tails ls)"
  by (cases ls) auto

lemma tails_trans: "ls' \<in> set (tails ls) \<Longrightarrow> ls'' \<in> set (tails ls') \<Longrightarrow> ls'' \<in> set (tails ls)"
  by (induction ls) auto

lemma outcomes_later: "ls' \<in> set (tails ls) \<Longrightarrow> set (outcomes v ls') \<subseteq> set (outcomes v ls)"
proof (induction v)
  case (Load k)
  then show ?case using tails_trans by fastforce
qed auto

text \<open>What a race can still come to.\<close>

definition ends :: "race \<Rightarrow> (event list \<times> fault option) set" where
  "ends s = (\<lambda>(out, r). (rc_out s @ out, r)) ` set (outcomes (rc_reads s) (versions (rc_stores s) (rc_logger s)))"

lemma ends_step:
  assumes "race_step s s'"
  shows "ends s' \<subseteq> ends s"
  using assms
proof (rule race_stepE)
  fix k assume "rc_reads s = Load k" "s' = s\<lparr>rc_reads := k (rc_logger s)\<rparr>"
  then show ?thesis
    using tails_self [of "versions (rc_stores s) (rc_logger s)"] unfolding ends_def by fastforce
next
  fix e k assume "rc_reads s = Emit e k" "s' = s\<lparr>rc_reads := k, rc_out := rc_out s @ [e]\<rparr>"
  then show ?thesis unfolding ends_def by force
next
  fix f ws assume s: "rc_stores s = Store f # ws" "s' = s\<lparr>rc_stores := ws, rc_logger := f (rc_logger s)\<rparr>"
  then have "versions (rc_stores s') (rc_logger s') \<in> set (tails (versions (rc_stores s) (rc_logger s)))"
    by (simp add: tails_self)
  from outcomes_later [OF this, of "rc_reads s"] s show ?thesis unfolding ends_def by auto
next
  fix e ws assume "rc_stores s = Say e # ws" "s' = s\<lparr>rc_stores := ws, rc_said := rc_said s @ [e]\<rparr>"
  then show ?thesis unfolding ends_def by auto
qed

lemma ends_reach: "race_reach s s' \<Longrightarrow> ends s' \<subseteq> ends s"
  unfolding race_reach_def by (induction rule: rtranclp.induct) (use ends_step in blast)+

lemma race_stores:
  "ls' \<in> set (tails (versions (rc_stores s) (rc_logger s))) \<Longrightarrow>
     \<exists>s'. race_reach s s' \<and> versions (rc_stores s') (rc_logger s') = ls' \<and>
       rc_reads s' = rc_reads s \<and> rc_out s' = rc_out s"
proof (induction "rc_stores s" "rc_logger s" arbitrary: s rule: versions.induct)
  case 1
  then show ?case by (auto simp: race_reach_def)
next
  case (2 f ws)
  let ?t = "s\<lparr>rc_stores := ws, rc_logger := f (rc_logger s)\<rparr>"
  have v: "versions (rc_stores s) (rc_logger s) = rc_logger s # versions ws (f (rc_logger s))"
    by (simp flip: 2(2))
  show ?case
  proof (cases "ls' = versions (rc_stores s) (rc_logger s)")
    case True
    then show ?thesis by (auto simp: race_reach_def)
  next
    case False
    have "race_step s ?t" by (rule step_store) (simp flip: 2(2))
    moreover obtain s' where "race_reach ?t s'" "versions (rc_stores s') (rc_logger s') = ls'"
        "rc_reads s' = rc_reads s" "rc_out s' = rc_out s"
      using 2(1) [of ?t] 2(3) False v by auto
    ultimately show ?thesis using race_reach_rules(2) by blast
  qed
next
  case (3 e ws)
  let ?t = "s\<lparr>rc_stores := ws, rc_said := rc_said s @ [e]\<rparr>"
  have "race_step s ?t" by (rule step_say) (simp flip: 3(2))
  moreover obtain s' where "race_reach ?t s'" "versions (rc_stores s') (rc_logger s') = ls'"
      "rc_reads s' = rc_reads s" "rc_out s' = rc_out s"
    using 3(1) [of ?t] 3(3) by (auto simp flip: 3(2))
  ultimately show ?case using race_reach_rules(2) by blast
qed

lemma ends_reachable:
  "(out, r) \<in> set (outcomes v (versions (rc_stores s) (rc_logger s))) \<Longrightarrow> rc_reads s = v \<Longrightarrow>
     \<exists>s'. race_reach s s' \<and> rc_out s' = rc_out s @ out \<and>
       rc_reads s' = (case r of None \<Rightarrow> Return | Some e \<Rightarrow> Fault e)"
proof (induction v arbitrary: s out)
  case Return
  then show ?case by (intro exI [of _ s]) (auto simp: race_reach_def)
next
  case (Fault e)
  then show ?case by (intro exI [of _ s]) (auto simp: race_reach_def)
next
  case (Emit e k)
  let ?t = "s\<lparr>rc_reads := k, rc_out := rc_out s @ [e]\<rparr>"
  obtain es where es: "out = e # es" "(es, r) \<in> set (outcomes k (versions (rc_stores s) (rc_logger s)))"
    using Emit.prems(1) by auto
  have "race_step s ?t" by (rule step_emit) (rule Emit.prems(2))
  moreover obtain s' where "race_reach ?t s'" "rc_out s' = rc_out s @ out"
      "rc_reads s' = (case r of None \<Rightarrow> Return | Some e \<Rightarrow> Fault e)"
    using Emit.IH [of es ?t] es by auto
  ultimately show ?case using race_reach_rules(2) by blast
next
  case (Load k)
  then obtain ls' where ls': "ls' \<in> set (tails (versions (rc_stores s) (rc_logger s)))"
      "(out, r) \<in> set (outcomes (k (hd ls')) ls')"
    by auto
  from race_stores [OF ls'(1)] obtain t where t: "race_reach s t" "versions (rc_stores t) (rc_logger t) = ls'"
      "rc_reads t = rc_reads s" "rc_out t = rc_out s"
    by blast
  let ?t = "t\<lparr>rc_reads := k (rc_logger t)\<rparr>"
  have "race_step t ?t" by (rule step_load) (use t(3) Load.prems(2) in simp)
  moreover have "hd ls' = rc_logger t" using t(2) by auto
  then obtain s' where "race_reach ?t s'" "rc_out s' = rc_out s @ out"
      "rc_reads s' = (case r of None \<Rightarrow> Return | Some e \<Rightarrow> Fault e)"
    using Load.IH [of "k (hd ls')" out ?t] ls'(2) t by auto
  ultimately show ?case using race_reach_rules(2,3) [OF _ _] t(1) by meson
qed

text \<open>The step relation and the list of outcomes agree.\<close>

lemma race_outcomes:
  "(\<exists>s. race_reach (race_start v ws l) s \<and> rc_out s = out \<and>
      rc_reads s = (case r of None \<Rightarrow> Return | Some e \<Rightarrow> Fault e)) \<longleftrightarrow>
   (out, r) \<in> set (outcomes v (versions ws l))"
proof
  assume "\<exists>s. race_reach (race_start v ws l) s \<and> rc_out s = out \<and>
      rc_reads s = (case r of None \<Rightarrow> Return | Some e \<Rightarrow> Fault e)"
  then obtain s where s: "race_reach (race_start v ws l) s" "rc_out s = out"
      "rc_reads s = (case r of None \<Rightarrow> Return | Some e \<Rightarrow> Fault e)"
    by blast
  have "(out, r) \<in> ends s" unfolding ends_def using s(2,3) by (cases r) auto
  with ends_reach [OF s(1)] show "(out, r) \<in> set (outcomes v (versions ws l))"
    by (auto simp: ends_def race_start_def)
next
  assume "(out, r) \<in> set (outcomes v (versions ws l))"
  then show "\<exists>s. race_reach (race_start v ws l) s \<and> rc_out s = out \<and>
      rc_reads s = (case r of None \<Rightarrow> Return | Some e \<Rightarrow> Fault e)"
    using ends_reachable [where s = "race_start v ws l"] by (simp add: race_start_def)
qed

lemma logs_with_outcomes:
  "logs_with strftime fopen severity msg cs l out r \<longleftrightarrow>
     (out, r) \<in> set (outcomes (vmlogf_reads strftime severity msg) (versions (concat (map (accesses fopen) cs)) l))"
  unfolding logs_with_def by (rule race_outcomes)

subsection \<open>Reads that do not see the stores\<close>

text \<open>On the loggers \<open>L\<close> every read gives the same.\<close>

primrec steady :: "mlog set \<Rightarrow> reads \<Rightarrow> bool" where
  "steady L Return = True"
| "steady L (Fault e) = True"
| "steady L (Emit e k) = steady L k"
| "steady L (Load k) = ((\<forall>x \<in> L. \<forall>y \<in> L. k x = k y) \<and> (\<forall>x \<in> L. steady L (k x)))"

definition result_of :: "event list \<times> fault option \<Rightarrow> event list res \<Rightarrow> bool" where
  "result_of p r \<longleftrightarrow> (case snd p of None \<Rightarrow> r = Inr (fst p) | Some e \<Rightarrow> r = Inl e)"

lemma tails_subset: "ls' \<in> set (tails ls) \<Longrightarrow> set ls' \<subseteq> set ls \<and> hd ls' \<in> set ls"
  by (induction ls) auto

lemma steady_outcomes:
  "steady L v \<Longrightarrow> set ls \<subseteq> L \<Longrightarrow> x \<in> L \<Longrightarrow> p \<in> set (outcomes v ls) \<Longrightarrow> result_of p (reads_alone v x)"
proof (induction v arbitrary: ls p)
  case (Emit e k)
  then obtain q where q: "p = apfst (Cons e) q" "result_of q (reads_alone k x)" by auto
  then show ?case by (cases q) (auto simp: result_of_def split: option.splits)
next
  case (Load k)
  then obtain ls' where ls': "ls' \<in> set (tails ls)" "p \<in> set (outcomes (k (hd ls')) ls')" by auto
  note t = tails_subset [OF ls'(1)]
  then have h: "hd ls' \<in> L" "set ls' \<subseteq> L" using Load.prems(2) by auto
  then have k: "k (hd ls') = k x" "steady L (k x)" using Load.prems(1,3) unfolding steady.simps by blast+
  have "result_of p (reads_alone (k x) x)"
    by (rule Load.IH [OF rangeI k(2) h(2) Load.prems(3)]) (rule ls'(2) [unfolded k(1)])
  then show ?case by simp
qed (simp_all add: result_of_def)

text \<open>The loggers that differ from \<open>l\<close> in their severity only.\<close>

definition severities :: "mlog \<Rightarrow> mlog set" where
  "severities l = range (\<lambda>v. l\<lparr>lg_severity := v\<rparr>)"

lemma severities_fields:
  "x \<in> severities l \<Longrightarrow> lg_logfile x = lg_logfile l \<and> lg_logtime x = lg_logtime l \<and> lg_type x = lg_type l \<and>
     lg_callback x = lg_callback l"
  by (auto simp: severities_def)

lemma steady_print: "steady (severities l) k \<Longrightarrow> steady (severities l) (print_log t k)"
  by (cases t) (auto simp: print_log_def severities_fields split: option.splits)

lemma steady_line: "steady (severities l) (line_reads timebuf severity msg)"
  by (auto simp: line_reads_def severities_fields Let_def intro!: steady_print)

lemma steady_type: "steady (severities l) (type_reads timebuf severity msg)"
  by (cases "lg_type l") (auto simp: type_reads_def severities_fields steady_line)

lemma versions_severities:
  "set (versions (concat (map (accesses fopen) (map Sev vs))) l) \<subseteq>
     (\<lambda>v. l\<lparr>lg_severity := v\<rparr>) ` set (lg_severity l # vs)"
proof (induction vs arbitrary: l)
  case (Cons v vs)
  from Cons [of "l\<lparr>lg_severity := v\<rparr>"] show ?case by auto
qed simp

lemma steady_after_severity:
  assumes "lg_callback l = None" "x \<in> severities l" "vmlogf_reads strftime severity msg = Load k"
  shows "steady (severities l) (k x)"
proof -
  have k: "k x = (if severity < lg_severity x then Return
     else Load (\<lambda>l. if lg_callback l \<noteq> None then callback_reads msg
     else Load (\<lambda>l. let tf = time_format (lg_logtime l) in
     Load (\<lambda>l. if lg_logtime l \<noteq> NONE
       then Load (\<lambda>l. type_reads (Some (strftime tf (lg_logtime l = UTC))) severity msg)
       else type_reads None severity msg))))"
    using assms(3) by (auto simp: vmlogf_reads_def)
  show ?thesis
    unfolding k using assms(1) by (auto simp: severities_fields steady_type Let_def)
qed

subsection \<open>Reads that cannot go wrong\<close>

text \<open>No fault on loggers with \<open>Q\<close>; and none on loggers with \<open>P\<close> first and \<open>Q\<close> later.\<close>

primrec no_fault :: "(mlog \<Rightarrow> bool) \<Rightarrow> reads \<Rightarrow> bool" where
  "no_fault Q Return = True"
| "no_fault Q (Fault e) = False"
| "no_fault Q (Emit e k) = no_fault Q k"
| "no_fault Q (Load k) = (\<forall>x. Q x \<longrightarrow> no_fault Q (k x))"

primrec no_fault_then :: "(mlog \<Rightarrow> bool) \<Rightarrow> (mlog \<Rightarrow> bool) \<Rightarrow> reads \<Rightarrow> bool" where
  "no_fault_then P Q Return = True"
| "no_fault_then P Q (Fault e) = False"
| "no_fault_then P Q (Emit e k) = no_fault_then P Q k"
| "no_fault_then P Q (Load k) = ((\<forall>x. P x \<longrightarrow> no_fault_then P Q (k x)) \<and> (\<forall>x. Q x \<longrightarrow> no_fault Q (k x)))"

lemma no_fault_outcomes:
  "no_fault Q v \<Longrightarrow> \<forall>x \<in> set ls. Q x \<Longrightarrow> (out, Some e) \<notin> set (outcomes v ls)"
proof (induction v arbitrary: ls out)
  case (Load k)
  have "(out, Some e) \<notin> set (outcomes (k (hd ls')) ls')" if "ls' \<in> set (tails ls)" for ls'
    by (rule Load.IH [OF rangeI]) (use Load.prems tails_subset [OF that] in auto)
  then show ?case by auto
qed auto

lemma tails_append:
  "zs \<in> set (tails (xs @ ys)) \<Longrightarrow> zs \<in> set (tails ys) \<or> (\<exists>xs'. zs = xs' @ ys \<and> xs' \<noteq> [] \<and> set xs' \<subseteq> set xs)"
proof (induction xs)
  case (Cons x xs)
  then show ?case by (cases "zs = x # xs @ ys") (force intro: exI [of _ "x # xs"])+
qed simp

lemma no_fault_then_outcomes:
  "no_fault_then P Q v \<Longrightarrow> \<forall>x \<in> set xs. P x \<Longrightarrow> \<forall>x \<in> set ys. Q x \<Longrightarrow>
     (out, Some e) \<notin> set (outcomes v (xs @ ys))"
proof (induction v arbitrary: xs out)
  case (Load k)
  have "(out, Some e) \<notin> set (outcomes (k (hd zs)) zs)" if "zs \<in> set (tails (xs @ ys))" for zs
    using tails_append [OF that]
  proof (elim disjE exE conjE)
    assume "zs \<in> set (tails ys)"
    then show ?thesis
      by (intro no_fault_outcomes [of Q]) (use Load.prems tails_subset [of zs ys] in auto)
  next
    fix xs' assume zs: "zs = xs' @ ys" "xs' \<noteq> []" "set xs' \<subseteq> set xs"
    then have "P (hd zs)" using Load.prems(2) by (auto simp: in_mono)
    then show ?thesis
      unfolding zs(1) by (intro Load.IH [OF rangeI]) (use Load.prems zs in auto)
  qed
  then show ?case by auto
qed auto

text \<open>What a line and a message need for that.\<close>

definition has_file :: "mlog \<Rightarrow> bool" where
  "has_file l \<longleftrightarrow> lg_logfile l \<noteq> None"

lemma no_fault_print: "\<forall>x. Q x \<longrightarrow> has_file x \<Longrightarrow> no_fault Q k \<Longrightarrow> no_fault Q (print_log (Some t) k)"
  by (fastforce simp: print_log_def has_file_def split: option.splits)

lemma no_fault_type:
  assumes "\<forall>x. Q x \<longrightarrow> has_file x" "timebuf = None \<Longrightarrow> \<forall>x. Q x \<longrightarrow> lg_logtime x = NONE"
  shows "no_fault Q (type_reads timebuf severity msg)"
proof -
  note p = no_fault_print [OF assms(1)]
  have "no_fault Q (line_reads timebuf severity msg)"
    using assms by (cases timebuf) (auto simp: line_reads_def p has_file_def Let_def)
  then show ?thesis by (auto simp: type_reads_def split: loggertype.splits)
qed

lemma no_fault_callback: "\<forall>x. Q x \<longrightarrow> lg_callback x \<noteq> None \<Longrightarrow> no_fault Q (callback_reads msg)"
  by (fastforce simp: callback_reads_def split: option.splits)

lemma no_fault_message:
  assumes "\<forall>x. Q x \<longrightarrow> has_file x" "\<forall>x. Q x \<longrightarrow> (lg_logtime x = NONE) = b" "\<forall>x. Q x \<longrightarrow> (lg_callback x = None) = c"
  shows "no_fault Q (vmlogf_reads strftime severity msg)"
proof -
  have "no_fault Q (type_reads None severity msg)" if "b" using assms that by (intro no_fault_type) auto
  moreover have "no_fault Q (type_reads (Some t) severity msg)" for t using assms by (intro no_fault_type) auto
  moreover have "no_fault Q (callback_reads msg)" if "\<not> c" using assms that by (intro no_fault_callback) auto
  ultimately show ?thesis using assms(2,3) by (auto simp: vmlogf_reads_def Let_def)
qed

lemma no_fault_weaken: "no_fault R v \<Longrightarrow> \<forall>x. Q x \<longrightarrow> R x \<Longrightarrow> no_fault Q v"
  by (induction v) auto

lemma no_fault_both: "no_fault R v \<Longrightarrow> \<forall>x. P x \<or> Q x \<longrightarrow> R x \<Longrightarrow> no_fault_then P Q v"
  by (induction v) (auto intro: no_fault_weaken [of R])

text \<open>A logger with a stream, with a callback or not, with time stamps or not. A message is safe while
  the callback is not taken away and time stamps are not switched on.\<close>

definition kind :: "bool \<Rightarrow> bool \<Rightarrow> mlog \<Rightarrow> bool" where
  "kind cb stamps l \<longleftrightarrow> has_file l \<and> (lg_callback l \<noteq> None) = cb \<and> (lg_logtime l \<noteq> NONE) = stamps"

lemma no_fault_kinds:
  assumes "cb \<longrightarrow> cb'" "stamps' \<longrightarrow> stamps"
  shows "no_fault_then (kind cb stamps) (kind cb' stamps') (vmlogf_reads strftime severity msg)"
proof -
  define P where "P = kind cb stamps"
  define Q where "Q = kind cb' stamps'"
  note kinds = P_def Q_def kind_def
  have some: "no_fault R (type_reads (Some t) severity msg)" if "R = has_file \<or> R = P \<or> R = Q" for R t
    using that by (intro no_fault_type) (auto simp: kinds)
  have none: "no_fault Q (type_reads None severity msg)" if "\<not> stamps'"
    using that by (intro no_fault_type) (auto simp: kinds)
  have none': "no_fault (\<lambda>x. P x \<or> Q x) (type_reads None severity msg)" if "\<not> stamps"
    using that assms(2) by (intro no_fault_type) (auto simp: kinds)
  have call: "no_fault Q (callback_reads msg)" if "cb'"
    using that by (intro no_fault_callback) (auto simp: kinds)
  have call': "no_fault (\<lambda>x. P x \<or> Q x) (callback_reads msg)" if "cb"
    using that assms(1) by (intro no_fault_callback) (auto simp: kinds)
  have t1: "no_fault_then P Q (type_reads (Some t) severity msg)" for t
    using some [of has_file t] by (rule no_fault_both) (auto simp: kinds)
  have t2: "no_fault_then P Q (type_reads None severity msg)" if "\<not> stamps"
    using none' [OF that] by (rule no_fault_both) simp
  have t3: "no_fault_then P Q (callback_reads msg)" if "cb"
    using call' [OF that] by (rule no_fault_both) simp
  have p: "(lg_callback x = None) = (\<not> cb)" "(lg_logtime x = NONE) = (\<not> stamps)"
    "(\<exists>y. lg_callback x = Some y) = cb" if "P x" for x
    using that by (auto simp: kinds)
  have q: "(lg_callback x = None) = (\<not> cb')" "(lg_logtime x = NONE) = (\<not> stamps')"
    "(\<exists>y. lg_callback x = Some y) = cb'" if "Q x" for x
    using that by (auto simp: kinds)
  have s: "no_fault Q (type_reads (Some t) severity msg)" for t using some [of Q t] by simp
  show ?thesis
    unfolding P_def [symmetric] Q_def [symmetric]
    unfolding vmlogf_reads_def Let_def no_fault_then.simps
    using t1 t2 t3 s none call p q by simp
qed

text \<open>Nor is one that prints no line, or is below the logger's severity.\<close>

fun writes_lines :: "loggertype \<Rightarrow> bool" where
  "writes_lines MLOG_NONE = False"
| "writes_lines (Other_type t) = False"
| "writes_lines _ = True"

lemma no_fault_quiet:
  "no_fault (\<lambda>x. lg_callback x = None \<and> \<not> writes_lines (lg_type x)) (vmlogf_reads strftime severity msg)"
proof -
  have "no_fault (\<lambda>x. lg_callback x = None \<and> \<not> writes_lines (lg_type x)) (type_reads timebuf severity msg)" for timebuf
    by (auto simp: type_reads_def split: loggertype.splits)
  then show ?thesis by (auto simp: vmlogf_reads_def Let_def)
qed

lemma no_fault_called: "no_fault (\<lambda>x. lg_callback x \<noteq> None) (vmlogf_reads strftime severity msg)"
  by (simp add: vmlogf_reads_def no_fault_callback)

lemma no_fault_below: "no_fault (\<lambda>x. severity < lg_severity x) (vmlogf_reads strftime severity msg)"
  by (simp add: vmlogf_reads_def)

subsection \<open>Reads that can go wrong\<close>

definition can_fault :: "reads \<Rightarrow> mlog list \<Rightarrow> bool" where
  "can_fault v ls \<longleftrightarrow> (\<exists>out e. (out, Some e) \<in> set (outcomes v ls))"

lemma can_fault_simps [simp]:
  "\<not> can_fault Return ls" "can_fault (Fault e) ls" "can_fault (Emit ev v) ls = can_fault v ls"
  by (force simp: can_fault_def image_iff)+

lemma can_fault_stay: "can_fault (k x) (x # xs) \<Longrightarrow> can_fault (Load k) (x # xs)"
  by (auto simp: can_fault_def)

lemma can_fault_later: "can_fault v xs \<Longrightarrow> xs \<noteq> [] \<Longrightarrow> can_fault v (x # xs)"
  using outcomes_later [of xs "x # xs" v] by (force simp: can_fault_def tails_self)

lemma can_fault_message:
  assumes "\<not> severity < lg_severity l" "lg_callback l = None"
    and "\<And>t. (t = None) = (lg_logtime l = NONE) \<Longrightarrow> can_fault (type_reads t severity msg) (l # ls)"
  shows "can_fault (vmlogf_reads strftime severity msg) (l # ls)"
  using assms unfolding vmlogf_reads_def
  by (cases "lg_logtime l = NONE") (auto simp: Let_def intro!: can_fault_stay)

lemma can_fault_line:
  "lg_logfile x = None \<or> timebuf = None \<and> lg_logtime x \<noteq> NONE \<Longrightarrow> can_fault (line_reads timebuf severity msg) (x # xs)"
  by (cases "lg_logfile x") (auto simp: line_reads_def print_log_def Let_def intro!: can_fault_stay)

lemma can_fault_type:
  "writes_lines (lg_type x) \<Longrightarrow> can_fault (line_reads timebuf severity msg) (x # xs) \<Longrightarrow>
     can_fault (type_reads timebuf severity msg) (x # xs)"
  unfolding type_reads_def by (rule can_fault_stay) (cases "lg_type x"; simp)

lemma can_fault_callback: "lg_callback x = None \<Longrightarrow> can_fault (callback_reads msg) (x # xs)"
  unfolding callback_reads_def by (intro can_fault_stay) simp

text \<open>The setters that are not safe beside a message to the logger \<open>l\<close>.\<close>

fun races :: "(string \<Rightarrow> bool) \<Rightarrow> setter \<Rightarrow> mlog \<Rightarrow> bool" where
  "races fopen (Time tstype) l \<longleftrightarrow>
     lg_callback l = None \<and> lg_logtime l = NONE \<and> tstype \<noteq> NONE \<and> writes_lines (lg_type l)"
| "races fopen (Type type path) l \<longleftrightarrow>
     lg_callback l = None \<and> type = MLOG_FILE \<and> (\<exists>p. path = Some p \<and> \<not> fopen p)"
| "races fopen (Sev severity) l \<longleftrightarrow> False"
| "races fopen (Cb cb d) l \<longleftrightarrow> lg_callback l \<noteq> None \<and> cb = None"

lemma races_can_fault:
  assumes "races fopen c l" "\<not> severity < lg_severity l"
  shows "can_fault (vmlogf_reads strftime severity msg) (versions (accesses fopen c) l)"
proof (cases c)
  case (Time t)
  let ?l = "l\<lparr>lg_logtime := t\<rparr>"
  have r: "lg_callback l = None" "lg_logtime l = NONE" "t \<noteq> NONE" "writes_lines (lg_type l)"
    using assms(1) Time by simp_all
  have "can_fault (type_reads None severity msg) [?l]"
    using r by (intro can_fault_type can_fault_line) simp_all
  then have "can_fault (type_reads None severity msg) [l, ?l]" by (rule can_fault_later) simp
  then show ?thesis using r assms(2) Time by (auto intro!: can_fault_message)
next
  case (Type type path)
  then obtain p where p: "type = MLOG_FILE" "path = Some p" "\<not> fopen p" "lg_callback l = None"
    using assms(1) by auto
  let ?l1 = "l\<lparr>lg_type := MLOG_FILE\<rparr>"
  let ?l2 = "?l1\<lparr>lg_logfile := None\<rparr>"
  let ?l3 = "?l2\<lparr>lg_type := MLOG_NONE\<rparr>"
  have "can_fault (line_reads t severity msg) [?l1, ?l2, ?l3]" for t
    by (rule can_fault_later, rule can_fault_line) simp_all
  then have "can_fault (type_reads t severity msg) [?l1, ?l2, ?l3]" for t
    by (intro can_fault_type) simp_all
  then have "can_fault (type_reads t severity msg) [l, ?l1, ?l2, ?l3]" for t
    by (rule can_fault_later) simp
  then show ?thesis using p assms(2) Type by (auto intro!: can_fault_message)
next
  case (Cb cb d)
  let ?l1 = "l\<lparr>lg_callback := None\<rparr>"
  let ?l2 = "?l1\<lparr>lg_cb_data := d\<rparr>"
  have "can_fault (callback_reads msg) [?l1, ?l2]" by (rule can_fault_callback) simp
  then have "can_fault (callback_reads msg) [l, ?l1, ?l2]" by (rule can_fault_later) simp
  then show ?thesis
    using assms Cb unfolding vmlogf_reads_def by (auto intro!: can_fault_stay)
qed (use assms(1) in simp)

lemma safe_setter:
  assumes "\<not> races fopen c l \<or> severity < lg_severity l" "has_file l"
  shows "\<not> can_fault (vmlogf_reads strftime severity msg) (versions (accesses fopen c) l)"
proof -
  let ?v = "vmlogf_reads strftime severity msg"
  have none: "\<not> can_fault ?v ls" if "no_fault Q ?v" "\<forall>x \<in> set ls. Q x" for Q ls
    using no_fault_outcomes [OF that] by (simp add: can_fault_def)
  have kinds: "\<not> can_fault ?v (l # ls)"
    if "kind cb st l" "\<forall>x \<in> set ls. kind cb' st' x" "cb \<longrightarrow> cb'" "st' \<longrightarrow> st" for cb st cb' st' ls
    using no_fault_then_outcomes [OF no_fault_kinds [OF that(3,4)], where xs = "[l]" and ys = ls] that(1,2)
    by (simp add: can_fault_def)
  show ?thesis
  proof (cases "severity < lg_severity l \<and> (\<forall>v. c \<noteq> Sev v)")
    case True
    then have "\<forall>x \<in> set (versions (accesses fopen c) l). severity < lg_severity x"
      by (cases c) (auto split: option.splits)
    then show ?thesis by (rule none [OF no_fault_below])
  next
    case False
    then have r: "\<not> races fopen c l" using assms(1) by (cases c) auto
    let ?cb = "lg_callback l \<noteq> None" and ?st = "lg_logtime l \<noteq> NONE"
    show ?thesis
    proof (cases c)
      case (Time t)
      consider ?cb | "\<not> ?cb" "t \<noteq> NONE \<longrightarrow> ?st" | "\<not> ?cb" "\<not> writes_lines (lg_type l)"
        using r Time by auto
      then show ?thesis
      proof cases
        case 1
        then show ?thesis using Time by (intro none [OF no_fault_called]) simp
      next
        case 2
        then show ?thesis
          using kinds [of ?cb ?st "[l\<lparr>lg_logtime := t\<rparr>]" False "t \<noteq> NONE"] assms(2) Time by (simp add: kind_def has_file_def)
      next
        case 3
        then show ?thesis using Time by (intro none [OF no_fault_quiet]) simp
      qed
    next
      case (Type type path)
      show ?thesis
      proof (cases ?cb)
        case True
        then show ?thesis using Type by (intro none [OF no_fault_called]) (auto split: option.splits)
      next
        case False
        then have "\<forall>x \<in> set (tl (versions (accesses fopen c) l)). kind False ?st x"
          using r assms(2) Type by (auto simp: kind_def has_file_def split: option.splits if_splits)
        then show ?thesis
          using kinds [of False ?st "tl (versions (accesses fopen c) l)" False ?st] False assms(2) Type by (simp add: kind_def)
      qed
    next
      case (Sev v)
      then show ?thesis
        using kinds [of ?cb ?st "[l\<lparr>lg_severity := v\<rparr>]" ?cb ?st] assms(2) by (simp add: kind_def has_file_def)
    next
      case (Cb cb d)
      then show ?thesis
        using kinds [of ?cb ?st "[l\<lparr>lg_callback := cb\<rparr>, l\<lparr>lg_callback := cb, lg_cb_data := d\<rparr>]" "cb \<noteq> None" ?st] r assms(2)
        by (auto simp: kind_def has_file_def)
    qed
  qed
qed

subsection \<open>Properties\<close>

text \<open>On a live logger, with nobody else about, the reads make the message \<open>mlogf\<close> makes, its faults
  included, and the stores of each setter are the setter.\<close>

lemma setters_and_message_alone:
  assumes "find_mlogger h s = ret (Some a)" "ms_heap s a = Some l" "0 \<le> h"
  shows "mlogf strftime h severity msg s =
      Some (rbind (reads_alone (vmlogf_reads strftime severity msg) l) (\<lambda>es. Inr (emit es s))) \<and>
    setloggertype fopen h type path s = ret (snd (snd (retype fopen type path)),
      case stores_alone (accesses fopen (Type type path)) l of (l', es) \<Rightarrow> emit es (set_logger a (\<lambda>_. l') s)) \<and>
    setloggertime h tstype s = ret (set_logger a (\<lambda>_. fst (stores_alone (accesses fopen (Time tstype)) l)) s) \<and>
    setloggersev h sev s = ret (set_logger a (\<lambda>_. fst (stores_alone (accesses fopen (Sev sev)) l)) s) \<and>
    register_mlog_callback h cb d s = ret (set_logger a (\<lambda>_. fst (stores_alone (accesses fopen (Cb cb d)) l)) s)"
  using assms set_type_alone [OF assms(1,2), of fopen type path]
  by (simp add: mlogf_def vmlogf_message vmlogf_reads_alone setloggertime_def setloggersev_def
      register_mlog_callback_def set_logger_def)

text \<open>C18: changes of the severity only, on a logger without a callback: whenever they come, the message is
  the one of some moment, before, between or after them.\<close>

theorem severity_setters_atomic:
  assumes "lg_callback l = None" "logs_with strftime fopen severity msg (map Sev vs) l out r"
  shows "\<exists>v \<in> set (lg_severity l # vs).
    message_events strftime (l\<lparr>lg_severity := v\<rparr>) severity msg = (case r of None \<Rightarrow> Inr out | Some e \<Rightarrow> Inl e)"
proof -
  obtain k where k: "vmlogf_reads strftime severity msg = Load k" by (simp add: vmlogf_reads_def)
  let ?ls = "versions (concat (map (accesses fopen) (map Sev vs))) l"
  obtain ls where ls: "ls \<in> set (tails ?ls)" "(out, r) \<in> set (outcomes (k (hd ls)) ls)"
    using assms(2) unfolding logs_with_outcomes k by auto
  have sub: "set ls \<subseteq> severities l" "hd ls \<in> (\<lambda>v. l\<lparr>lg_severity := v\<rparr>) ` set (lg_severity l # vs)"
    using tails_subset [OF ls(1)] versions_severities [of fopen vs l] unfolding severities_def by blast+
  then have h: "hd ls \<in> severities l" unfolding severities_def by blast
  have "result_of (out, r) (reads_alone (k (hd ls)) (hd ls))"
    by (rule steady_outcomes [OF steady_after_severity [OF assms(1) h k] sub(1) h ls(2)])
  moreover have "reads_alone (k (hd ls)) (hd ls) = message_events strftime (hd ls) severity msg"
    using vmlogf_reads_alone [of strftime severity msg "hd ls"] unfolding k by simp
  ultimately have "message_events strftime (hd ls) severity msg = (case r of None \<Rightarrow> Inr out | Some e \<Rightarrow> Inl e)"
    by (auto simp: result_of_def split: option.splits)
  with sub(2) show ?thesis by auto
qed

text \<open>C14: a setter beside a message that would go well alone: exactly when it turns time stamps on (the
  buffer of the time was not filled), fails to open a file (there is no stream for a moment) or takes
  the callback away (it is read again for the call) can the thread in \<open>mlogf\<close> go wrong.\<close>

theorem setter_race_faults_iff:
  assumes "lg_logfile l \<noteq> None"
  shows "(\<exists>out e. logs_with strftime fopen severity msg [c] l out (Some e)) \<longleftrightarrow>
    \<not> severity < lg_severity l \<and> races fopen c l"
  using races_can_fault [of fopen c l severity strftime msg] safe_setter [of fopen c l severity strftime msg] assms
  by (auto simp: logs_with_outcomes can_fault_def has_file_def)

text \<open>C26: a callback replaced beside a message: the call gets the old or the new function, and the old or the
  new data, in all four ways, and nothing else can happen.\<close>

theorem callback_race_pairs:
  assumes "\<not> severity < lg_severity l" "lg_callback l = Some f"
  shows "logs_with strftime fopen severity msg [Cb (Some g) d] l out r \<longleftrightarrow>
    r = None \<and> (\<exists>cb \<in> {f, g}. \<exists>p \<in> {lg_cb_data l, d}.
      out = [Callback cb (lg_severity l) (take (MAX_LOG - 1) msg) p])"
  using assms by (auto simp: logs_with_outcomes vmlogf_reads_def callback_reads_def)

text \<open>An example: a logger to the standard output without time stamps.\<close>

definition plain_logger :: mlog where
  "plain_logger = \<lparr>lg_type = MLOG_STDOUT, lg_severity = MLOG_DEBUG, lg_logtime = NONE, lg_handle = 0, lg_path = None,
     lg_logfile = Some Stdout, lg_callback = None, lg_cb_data = None, lg_next = None\<rparr>"

theorem severity_setters_atomic_witness:
  "\<exists>v \<in> set [MLOG_DEBUG, MLOG_ERROR].
     message_events (\<lambda>f u. []) (plain_logger\<lparr>lg_severity := v\<rparr>) MLOG_INFO ''x'' = Inr []"
proof -
  have "logs_with (\<lambda>f u. []) (\<lambda>p. True) MLOG_INFO ''x'' (map Sev [MLOG_ERROR]) plain_logger [] None"
    by (simp add: logs_with_outcomes vmlogf_reads_def plain_logger_def severity_defs less_logseverity_def)
  then show ?thesis
    using severity_setters_atomic [of plain_logger] by (fastforce simp: plain_logger_def)
qed

theorem setter_race_faults_iff_witness:
  "\<exists>out e. logs_with (\<lambda>f u. []) (\<lambda>p. True) MLOG_INFO ''x'' [Time UTC] plain_logger out (Some e)"
  using setter_race_faults_iff [of plain_logger "\<lambda>f u. []" "\<lambda>p. True" MLOG_INFO "''x''" "Time UTC"]
  by (simp add: plain_logger_def severity_defs less_logseverity_def)

theorem callback_race_pairs_witness:
  "logs_with (\<lambda>f u. []) (\<lambda>p. True) MLOG_INFO ''x'' [Cb (Some 2) (Some 20)]
     (plain_logger\<lparr>lg_callback := Some 1, lg_cb_data := Some 10\<rparr>) [Callback 2 MLOG_DEBUG ''x'' (Some 10)] None"
  using callback_race_pairs [of MLOG_INFO "plain_logger\<lparr>lg_callback := Some 1, lg_cb_data := Some 10\<rparr>" 1
      "\<lambda>f u. []" "\<lambda>p. True" "''x''" 2 "Some 20"]
  by (simp add: plain_logger_def severity_defs less_logseverity_def MAX_LOG_def)

end
