(* ===== verification/Fds.thy ===== *)
theory Fds
  imports Prelude
begin

section \<open>File descriptors\<close>

text \<open>
  The descriptor table of a process as the POSIX calls of the library use it: a new descriptor is
  the lowest free number below a limit, \<open>close\<close> of a number that is not open is an error the
  callers ignore, \<open>dup\<close> copies an entry to the lowest free number, \<open>pipe\<close> makes two new entries
  or none. What an entry refers to is a parameter, here a \<open>desc\<close>.
\<close>

datatype desc = File nat | Pipe_read nat | Pipe_write nat

type_synonym 'd table = "nat \<Rightarrow> 'd option"

type_synonym fdtab = "desc table"

definition lowest :: "nat \<Rightarrow> 'd table \<Rightarrow> nat option" where
  "lowest lim t = List.find (\<lambda>i. t i = None) [0..<lim]"

definition fd_open :: "nat \<Rightarrow> 'd \<Rightarrow> 'd table \<Rightarrow> (nat \<times> 'd table) option" where
  "fd_open lim d t = map_option (\<lambda>i. (i, t(i \<mapsto> d))) (lowest lim t)"

definition fd_close :: "nat \<Rightarrow> 'd table \<Rightarrow> 'd table" where
  "fd_close i t = t(i := None)"

definition fd_dup :: "nat \<Rightarrow> nat \<Rightarrow> 'd table \<Rightarrow> 'd table" where
  "fd_dup lim i t =
     (case t i of
        None \<Rightarrow> t
      | Some d \<Rightarrow> (case fd_open lim d t of None \<Rightarrow> t | Some (j, t') \<Rightarrow> t'))"

text \<open>The pipe number \<open>k\<close>.\<close>

definition fd_pipe :: "nat \<Rightarrow> nat \<Rightarrow> fdtab \<Rightarrow> (nat \<times> nat \<times> fdtab) option" where
  "fd_pipe lim k t =
     Option.bind (fd_open lim (Pipe_read k) t) (\<lambda>(r, t1).
     Option.bind (fd_open lim (Pipe_write k) t1) (\<lambda>(w, t2). Some (r, w, t2)))"

lemma lowest_Some_iff:
  "lowest lim t = Some i \<longleftrightarrow> i < lim \<and> t i = None \<and> (\<forall>j < i. t j \<noteq> None)"
  unfolding lowest_def find_Some_iff by (auto intro!: exI [of _ i])

lemma fd_open_Some:
  "fd_open lim d t = Some (i, t') \<Longrightarrow> t i = None \<and> i < lim \<and> t' = t(i \<mapsto> d)"
  by (auto simp: fd_open_def lowest_Some_iff)

lemma fd_pipe_Some:
  "fd_pipe lim k t = Some (r, w, t') \<Longrightarrow>
     r \<noteq> w \<and> t r = None \<and> t w = None \<and> t' = t(r \<mapsto> Pipe_read k, w \<mapsto> Pipe_write k)"
  by (auto simp: fd_pipe_def Option.bind_eq_Some_conv dest!: fd_open_Some split: if_splits)

lemma fd_dup_lowest:
  assumes "t i = Some d" "t k = None" "k < lim" "\<forall>j < k. t j \<noteq> None"
  shows "fd_dup lim i t = t(k \<mapsto> d)"
proof -
  have "lowest lim t = Some k" using assms by (simp add: lowest_Some_iff)
  then show ?thesis using assms by (simp add: fd_dup_def fd_open_def)
qed

text \<open>The number of free descriptors.\<close>

definition fd_free :: "nat \<Rightarrow> 'd table \<Rightarrow> nat" where
  "fd_free lim t = card {i. i < lim \<and> t i = None}"

lemma fd_open_None_iff: "fd_open lim d t = None \<longleftrightarrow> fd_free lim t = 0"
proof -
  have "finite {i. i < lim \<and> t i = None}" by simp
  then show ?thesis
    by (auto simp: fd_open_def lowest_def find_None_iff fd_free_def card_eq_0_iff)
qed

lemma fd_free_open:
  assumes "t i = None" "i < lim"
  shows "fd_free lim (t(i \<mapsto> d)) = fd_free lim t - 1"
proof -
  have "{j. j < lim \<and> (t(i \<mapsto> d)) j = None} = {j. j < lim \<and> t j = None} - {i}" by auto
  moreover have "i \<in> {j. j < lim \<and> t j = None}" using assms by simp
  ultimately show ?thesis by (simp only: fd_free_def card_Diff_singleton)
qed

end
