(* ===== verification/Popen.thy ===== *)
theory Popen
  imports Fds
begin

section \<open>popenRWE (mutil.c)\<close>

text \<open>
  A child process with its three standard streams on pipes. The result of \<open>fork\<close> is an argument
  (\<open>None\<close> when it fails, else the child's process id); the descriptor limit \<open>lim\<close> makes \<open>pipe\<close>
  fail. On success the parent has its table, the three descriptors and the pid, the child the
  table it has when it calls \<open>execvp\<close>.
\<close>

datatype popen_result =
    Popen_failed fdtab
  | Popen_forked nat fdtab "nat list" fdtab
    \<comment> \<open>pid, the parent's table, \<open>rwepipe\<close>, the child's table at \<open>execvp\<close>\<close>

definition popen_parent :: "nat \<times> nat \<Rightarrow> nat \<times> nat \<Rightarrow> nat \<times> nat \<Rightarrow> fdtab \<Rightarrow> fdtab \<times> nat list" where
  "popen_parent inp out err t =
     (fd_close (snd err) (fd_close (snd out) (fd_close (fst inp) t)), [snd inp, fst out, fst err])"

definition popen_child :: "nat \<Rightarrow> nat \<times> nat \<Rightarrow> nat \<times> nat \<Rightarrow> nat \<times> nat \<Rightarrow> fdtab \<Rightarrow> fdtab" where
  "popen_child lim inp out err t =
     (let t = fd_close (snd inp) t;
          t = fd_close (fst out) t;
          t = fd_close (fst err) t;
          t = fd_close 0 t;
          t = fd_dup lim (fst inp) t;
          t = fd_close 1 t;
          t = fd_dup lim (snd out) t;
          t = fd_close 2 t
      in fd_dup lim (snd err) t)"

definition popenRWE :: "nat \<Rightarrow> nat option \<Rightarrow> fdtab \<Rightarrow> popen_result" where
  "popenRWE lim fork t =
     (case fd_pipe lim 0 t of
        None \<Rightarrow> Popen_failed t
      | Some (in0, in1, t1) \<Rightarrow>
          (case fd_pipe lim 1 t1 of
             None \<Rightarrow> Popen_failed (fd_close in1 (fd_close in0 t1))
           | Some (out0, out1, t2) \<Rightarrow>
               (case fd_pipe lim 2 t2 of
                  None \<Rightarrow> Popen_failed (fd_close in1 (fd_close in0 (fd_close out1 (fd_close out0 t2))))
                | Some (err0, err1, t3) \<Rightarrow>
                    (case fork of
                       None \<Rightarrow> Popen_failed (fd_close in1 (fd_close in0 (fd_close out1 (fd_close out0
                         (fd_close err1 (fd_close err0 t3))))))
                     | Some pid \<Rightarrow>
                         (case popen_parent (in0, in1) (out0, out1) (err0, err1) t3 of (tp, rwe) \<Rightarrow>
                           Popen_forked pid tp rwe (popen_child lim (in0, in1) (out0, out1) (err0, err1) t3))))))"

lemma fd_pipe_undo:
  assumes "fd_pipe lim k t = Some (r, w, t')"
  shows "fd_close w (fd_close r t') = t"
  using fd_pipe_Some [OF assms] by (auto simp: fd_close_def fun_eq_iff)

lemma fd_pipe_limit: "fd_pipe lim k t = Some (r, w, t') \<Longrightarrow> r < lim \<and> w < lim"
  by (auto simp: fd_pipe_def Option.bind_eq_Some_conv dest!: fd_open_Some)

lemma fd_pipe_lowest: "fd_pipe lim k t = Some (r, w, t') \<Longrightarrow> t 0 = None \<Longrightarrow> r = 0"
  by (fastforce simp: fd_pipe_def fd_open_def lowest_Some_iff Option.bind_eq_Some_conv)

lemma popenRWE_failed: "popenRWE lim fork t = Popen_failed t' \<Longrightarrow> t' = t"
  by (auto simp: popenRWE_def fd_pipe_undo split: option.splits prod.splits)

text \<open>The three pipes of a successful run.\<close>

lemma fd_pipe_free: "fd_pipe lim k t = Some (r, w, t') \<Longrightarrow> t' x = None \<Longrightarrow> x \<noteq> r \<and> x \<noteq> w \<and> t x = None"
  using fd_pipe_Some [of lim k t r w t'] by (metis fun_upd_apply option.discI)

lemma popen_pipes:
  assumes p: "fd_pipe lim 0 t = Some (in0, in1, t1)" "fd_pipe lim 1 t1 = Some (out0, out1, t2)"
    "fd_pipe lim 2 t2 = Some (err0, err1, t3)"
  shows "t3 = t(in0 \<mapsto> Pipe_read 0, in1 \<mapsto> Pipe_write 0, out0 \<mapsto> Pipe_read 1, out1 \<mapsto> Pipe_write 1,
      err0 \<mapsto> Pipe_read 2, err1 \<mapsto> Pipe_write 2)"
    "distinct [in0, in1, out0, out1, err0, err1]" "\<forall>i \<in> set [in0, in1, out0, out1, err0, err1]. t i = None"
proof -
  note q1 = fd_pipe_Some [OF p(1)] and q2 = fd_pipe_Some [OF p(2)] and q3 = fd_pipe_Some [OF p(3)]
  show "t3 = t(in0 \<mapsto> Pipe_read 0, in1 \<mapsto> Pipe_write 0, out0 \<mapsto> Pipe_read 1, out1 \<mapsto> Pipe_write 1,
      err0 \<mapsto> Pipe_read 2, err1 \<mapsto> Pipe_write 2)"
    using q1 q2 q3 by simp
  have n: "in0 \<noteq> in1" "out0 \<noteq> out1" "err0 \<noteq> err1" "t in0 = None" "t in1 = None"
    "t1 out0 = None" "t1 out1 = None" "t2 err0 = None" "t2 err1 = None"
    by (rule q1 [THEN conjunct1] q2 [THEN conjunct1] q3 [THEN conjunct1]
        q1 [THEN conjunct2, THEN conjunct1] q1 [THEN conjunct2, THEN conjunct2, THEN conjunct1]
        q2 [THEN conjunct2, THEN conjunct1] q2 [THEN conjunct2, THEN conjunct2, THEN conjunct1]
        q3 [THEN conjunct2, THEN conjunct1] q3 [THEN conjunct2, THEN conjunct2, THEN conjunct1])+
  have o: "x \<noteq> in0" "x \<noteq> in1" "t x = None" if "x = out0 \<or> x = out1" for x
    using fd_pipe_free [OF p(1), of x] n that by metis+
  have e: "x \<noteq> in0" "x \<noteq> in1" "x \<noteq> out0" "x \<noteq> out1" "t x = None" if "x = err0 \<or> x = err1" for x
    using fd_pipe_free [OF p(1), of x] fd_pipe_free [OF p(2), of x] n that by metis+
  show "distinct [in0, in1, out0, out1, err0, err1]"
    using n(1-3) o(1,2) [of out0, simplified] o(1,2) [of out1, simplified] e(1-4) [of err0, simplified]
      e(1-4) [of err1, simplified] by auto
  show "\<forall>i \<in> set [in0, in1, out0, out1, err0, err1]. t i = None"
    using n o e by simp
qed

lemma popen_limit:
  assumes "fd_pipe lim 0 t = Some (in0, in1, t1)" "in1 \<noteq> 0" "in1 \<noteq> 1" "in1 \<noteq> 2"
  shows "2 < lim"
  using fd_pipe_limit [OF assms(1)] assms(2-4) by linarith

subsection \<open>Properties\<close>

lemma popen_child_table:
  assumes "2 < lim" "t in0 = Some (Pipe_read 0)" "t out1 = Some (Pipe_write 1)" "t err1 = Some (Pipe_write 2)"
    and "distinct [in0, out1, err1, in1, out0, err0]" "\<forall>i \<in> set [in0, out1, err1, in1, out0, err0]. i \<noteq> 0 \<and> i \<noteq> 1 \<and> i \<noteq> 2"
  shows "popen_child lim (in0, in1) (out0, out1) (err0, err1) t =
    t(in1 := None, out0 := None, err0 := None, 0 \<mapsto> Pipe_read 0, 1 \<mapsto> Pipe_write 1, 2 \<mapsto> Pipe_write 2)"
proof -
  define u where "u = t(in1 := None, out0 := None, err0 := None)"
  have u: "u in0 = Some (Pipe_read 0)" "u out1 = Some (Pipe_write 1)" "u err1 = Some (Pipe_write 2)"
    using assms(2-5) by (auto simp: u_def)
  have ne: "in0 \<noteq> 0" "out1 \<noteq> 0" "out1 \<noteq> 1" "err1 \<noteq> 0" "err1 \<noteq> 1" "err1 \<noteq> 2"
    using assms(6) by simp_all
  have d0: "fd_dup lim in0 (u(0 := None)) = (u(0 := None))(0 \<mapsto> Pipe_read 0)"
    by (rule fd_dup_lowest) (use u ne assms(1) in simp_all)
  define v where "v = (u(0 := None))(0 \<mapsto> Pipe_read 0)"
  have v: "v out1 = Some (Pipe_write 1)" "v err1 = Some (Pipe_write 2)" "v 0 \<noteq> None"
    using u ne by (simp_all add: v_def)
  have d1: "fd_dup lim out1 (v(1 := None)) = (v(1 := None))(1 \<mapsto> Pipe_write 1)"
    by (rule fd_dup_lowest) (use v ne assms(1) in simp_all)
  define w where "w = (v(1 := None))(1 \<mapsto> Pipe_write 1)"
  have w: "w err1 = Some (Pipe_write 2)" "w 0 \<noteq> None" "w 1 \<noteq> None"
    using v ne by (simp_all add: w_def)
  have d2: "fd_dup lim err1 (w(2 := None)) = (w(2 := None))(2 \<mapsto> Pipe_write 2)"
    by (rule fd_dup_lowest) (use w ne assms(1) in \<open>simp_all add: less_2_cases_iff\<close>)
  show ?thesis
    unfolding popen_child_def Let_def fd_close_def fst_conv snd_conv u_def [symmetric] d0 v_def [symmetric] d1
      w_def [symmetric] d2 by (simp add: w_def v_def)
qed

text \<open>C34: with descriptors 0, 1 and 2 open, \<open>popenRWE\<close> leaves the parent its table and the write
  end of the child's input and the read ends of its output and error stream, in this order; the
  child starts with the other ends as its standard streams and without the parent's ends.\<close>

theorem popenRWE_streams:
  assumes "popenRWE lim fork t = Popen_forked pid tp rwe tc"
    and "t 0 \<noteq> None" "t 1 \<noteq> None" "t 2 \<noteq> None"
  shows "\<exists>a b c. rwe = [a, b, c] \<and> distinct rwe \<and> t a = None \<and> t b = None \<and> t c = None \<and>
    tp = t(a \<mapsto> Pipe_write 0, b \<mapsto> Pipe_read 1, c \<mapsto> Pipe_read 2) \<and>
    tc 0 = Some (Pipe_read 0) \<and> tc 1 = Some (Pipe_write 1) \<and> tc 2 = Some (Pipe_write 2) \<and>
    tc a = None \<and> tc b = None \<and> tc c = None"
proof -
  obtain in0 in1 t1 out0 out1 t2 err0 err1 t3 where
    p: "fd_pipe lim 0 t = Some (in0, in1, t1)" "fd_pipe lim 1 t1 = Some (out0, out1, t2)"
      "fd_pipe lim 2 t2 = Some (err0, err1, t3)" and
    tp: "tp = fd_close err1 (fd_close out1 (fd_close in0 t3))" "rwe = [in1, out0, err0]" and
    tc: "tc = popen_child lim (in0, in1) (out0, out1) (err0, err1) t3"
    using assms(1) by (auto simp: popenRWE_def popen_parent_def split: option.splits prod.splits)
  let ?fds = "[in0, in1, out0, out1, err0, err1]"
  note t3 = popen_pipes(1) [OF p] and free = popen_pipes(2,3) [OF p]
  have std: "\<forall>i \<in> set ?fds. i \<noteq> 0 \<and> i \<noteq> 1 \<and> i \<noteq> 2" using free(2) assms(2-4) by metis
  then have "2 < lim" by (intro popen_limit [OF p(1)]) simp_all
  have neqs: "out1 \<noteq> in1" "out1 \<noteq> out0" "err1 \<noteq> in1" "err1 \<noteq> out0" "err1 \<noteq> err0" "err0 \<noteq> in1" "out0 \<noteq> in1"
    "in1 \<noteq> in0" "out0 \<noteq> in0" "out1 \<noteq> in0" "err0 \<noteq> in0" "err1 \<noteq> in0"
    using free(1) by auto
  have tc': "tc = t3(in1 := None, out0 := None, err0 := None, 0 \<mapsto> Pipe_read 0, 1 \<mapsto> Pipe_write 1, 2 \<mapsto> Pipe_write 2)"
    unfolding tc by (rule popen_child_table) (use \<open>2 < lim\<close> std free(1) neqs in \<open>simp_all add: t3\<close>)
  have "tp = t(in1 \<mapsto> Pipe_write 0, out0 \<mapsto> Pipe_read 1, err0 \<mapsto> Pipe_read 2)"
    unfolding tp t3 fd_close_def using free neqs by (intro ext) simp
  then show ?thesis
    using free std tp(2) by (intro exI [of _ in1] exI [of _ out0] exI [of _ err0] conjI) (simp_all add: tc')
qed

text \<open>Standard input, output and error open on files.\<close>

definition std_fds :: fdtab where
  "std_fds = [0 \<mapsto> File 0, 1 \<mapsto> File 1, 2 \<mapsto> File 2]"

theorem popenRWE_streams_witness:
  "\<exists>tp rwe tc. popenRWE 16 (Some 42) std_fds = Popen_forked 42 tp rwe tc \<and>
    tc 0 = Some (Pipe_read 0) \<and> tc 1 = Some (Pipe_write 1) \<and> tc 2 = Some (Pipe_write 2)"
proof -
  have "\<exists>tp rwe tc. popenRWE 16 (Some 42) std_fds = Popen_forked 42 tp rwe tc"
    by (simp add: popenRWE_def popen_parent_def fd_pipe_def fd_open_def lowest_def std_fds_def upt_rec)
  then obtain tp rwe tc where r: "popenRWE 16 (Some 42) std_fds = Popen_forked 42 tp rwe tc" by blast
  from popenRWE_streams [OF r] r show ?thesis by (auto simp: std_fds_def)
qed

text \<open>When a pipe or the fork fails, every descriptor made so far is closed: the table is what
  it was.\<close>

theorem popenRWE_failure_restores:
  assumes "popenRWE lim fork t = Popen_failed t'"
  shows "t' = t"
  using popenRWE_failed [OF assms] .

theorem popenRWE_failure_restores_witness:
  "popenRWE 7 (Some 42) std_fds = Popen_failed std_fds \<and> popenRWE 16 None std_fds = Popen_failed std_fds"
proof -
  have "\<exists>t'. popenRWE 7 (Some 42) std_fds = Popen_failed t'" "\<exists>t'. popenRWE 16 None std_fds = Popen_failed t'"
    by (simp_all add: popenRWE_def fd_pipe_def fd_open_def lowest_def std_fds_def upt_rec)
  then show ?thesis by (metis popenRWE_failure_restores)
qed

text \<open>When the parent has no standard input, the input pipe takes descriptor 0 and the child
  closes it before copying it: the pipes then land one descriptor too low, the output pipe as
  the child's standard input, the error pipe as its output, and no error stream.\<close>

theorem popenRWE_stdin_closed:
  assumes "popenRWE lim fork t = Popen_forked pid tp rwe tc"
    and "t 0 = None" "t 1 \<noteq> None" "t 2 \<noteq> None"
  shows "tc 0 = Some (Pipe_write 1) \<and> tc 1 = Some (Pipe_write 2) \<and> tc 2 = None"
proof -
  obtain in0 in1 t1 out0 out1 t2 err0 err1 t3 where
    p: "fd_pipe lim 0 t = Some (in0, in1, t1)" "fd_pipe lim 1 t1 = Some (out0, out1, t2)"
      "fd_pipe lim 2 t2 = Some (err0, err1, t3)" and
    tc: "tc = popen_child lim (in0, in1) (out0, out1) (err0, err1) t3"
    using assms(1) by (auto simp: popenRWE_def popen_parent_def split: option.splits prod.splits)
  have in0: "in0 = 0" using fd_pipe_lowest [OF p(1) assms(2)] .
  note t3 = popen_pipes(1) [OF p, unfolded in0] and free = popen_pipes(2,3) [OF p, unfolded in0]
  have "\<forall>i \<in> set [in1, out0, out1, err0, err1]. t i = None" using free(2) by simp
  then have std: "\<forall>i \<in> set [in1, out0, out1, err0, err1]. i \<noteq> 1 \<and> i \<noteq> 2" using assms(3,4) by metis
  moreover have "in1 \<noteq> 0" using free(1) by auto
  ultimately have "2 < lim" by (intro popen_limit [OF p(1)]) simp_all
  have neqs: "out1 \<noteq> in1" "out1 \<noteq> out0" "err1 \<noteq> in1" "err1 \<noteq> out0" "err1 \<noteq> err0"
    using free(1) by auto
  define u where "u = t3(in1 := None, out0 := None, err0 := None, 0 := None)"
  have ne: "out1 \<noteq> 0" "out1 \<noteq> 1" "err1 \<noteq> 0" "err1 \<noteq> 1" "err1 \<noteq> 2"
    using std free(1) by simp_all
  have u: "u 0 = None" "u out1 = Some (Pipe_write 1)" "u err1 = Some (Pipe_write 2)"
    using free(1) ne neqs by (simp_all add: u_def t3)
  have d0: "fd_dup lim 0 u = u" by (simp add: fd_dup_def u)
  have d1: "fd_dup lim out1 (u(1 := None)) = (u(1 := None))(0 \<mapsto> Pipe_write 1)"
    by (rule fd_dup_lowest) (use u ne \<open>2 < lim\<close> in simp_all)
  define v where "v = (u(1 := None))(0 \<mapsto> Pipe_write 1)"
  have v: "v 0 = Some (Pipe_write 1)" "v 1 = None" "v err1 = Some (Pipe_write 2)"
    using u ne by (simp_all add: v_def)
  have d2: "fd_dup lim err1 (v(2 := None)) = (v(2 := None))(1 \<mapsto> Pipe_write 2)"
    by (rule fd_dup_lowest) (use v ne \<open>2 < lim\<close> in simp_all)
  have "tc = (v(2 := None))(1 \<mapsto> Pipe_write 2)"
    unfolding tc popen_child_def Let_def fd_close_def fst_conv snd_conv in0 u_def [symmetric] d0 d1
      v_def [symmetric] d2 ..
  then show ?thesis using v by simp
qed

theorem popenRWE_stdin_closed_witness:
  "\<exists>tp rwe tc. popenRWE 16 (Some 42) (std_fds(0 := None)) = Popen_forked 42 tp rwe tc \<and>
    tc 0 = Some (Pipe_write 1) \<and> tc 2 = None"
proof -
  have "\<exists>tp rwe tc. popenRWE 16 (Some 42) (std_fds(0 := None)) = Popen_forked 42 tp rwe tc"
    by (simp add: popenRWE_def popen_parent_def fd_pipe_def fd_open_def lowest_def std_fds_def upt_rec)
  then obtain tp rwe tc where r: "popenRWE 16 (Some 42) (std_fds(0 := None)) = Popen_forked 42 tp rwe tc" by blast
  from popenRWE_stdin_closed [OF r] r show ?thesis by (auto simp: std_fds_def)
qed

end
