(* ===== verification/Followlink.thy ===== *)
theory Followlink
  imports Prelude
begin

section \<open>Following symbolic links (mutil.c, flink.c)\<close>

text \<open>
  \<open>followlink\<close> over a file system that says, for a path as the process writes it, whether it is a
  symbolic link and to which target. The result buffer has the \<open>bufsiz\<close> bytes the caller
  promises. The local array the recursive call takes its path from is not initialised: \<open>stk\<close> is
  what its bytes hold before, \<open>None\<close> (indeterminate, as C has it) or a byte. The recursion has no
  bound in the code; not returning is \<open>None\<close>.
\<close>

definition MAXPATH :: nat where
  "MAXPATH = 4096"

datatype node = Symlink "byte list" | Other_file

type_synonym filesystem = "byte list \<Rightarrow> node option"

text \<open>\<open>readlink\<close>: the target cut to the size, or an error.\<close>

definition readlink :: "filesystem \<Rightarrow> byte list \<Rightarrow> nat \<Rightarrow> byte list option" where
  "readlink fs path bufsiz =
     (case fs path of Some (Symlink t) \<Rightarrow> Some (take bufsiz t) | _ \<Rightarrow> None)"

text \<open>\<open>readlink\<close> into the buffer and the terminator.\<close>

definition store_target :: "byte block \<Rightarrow> byte list \<Rightarrow> byte block res" where
  "store_target buf t = rbind (write_at buf 0 t) (\<lambda>buf. blk_write buf (length t) 0)"

text \<open>\<open>strncpy (pathname, buf, nbytes)\<close> into the local array, and the path read from it.\<close>

definition local_path :: "byte option \<Rightarrow> byte block \<Rightarrow> nat \<Rightarrow> byte list res" where
  "local_path stk buf nbytes =
     rbind (read_cstr (blk_cells buf)) (\<lambda>s.
     rbind (write_at (Live (replicate MAXPATH stk)) 0 (strncpy_bytes s nbytes)) (\<lambda>arr.
     read_cstr (blk_cells arr)))"

text \<open>The result: the value returned and the buffer.\<close>

partial_function (option) followlink ::
  "filesystem \<Rightarrow> byte option \<Rightarrow> byte list \<Rightarrow> byte block \<Rightarrow> nat \<Rightarrow> (int \<times> byte block) prog" where
  "followlink fs stk pathname buf bufsiz =
     (case readlink fs pathname bufsiz of
        None \<Rightarrow> Some (Inr (-1, buf))
      | Some t \<Rightarrow> (case store_target buf t of
          Inl e \<Rightarrow> Some (Inl e)
        | Inr buf \<Rightarrow> (case read_cstr (blk_cells buf) of
            Inl e \<Rightarrow> Some (Inl e)
          | Inr s \<Rightarrow> (case fs s of
              None \<Rightarrow> Some (Inr (-1, buf))
            | Some Other_file \<Rightarrow> Some (Inr (int (length t), buf))
            | Some (Symlink u) \<Rightarrow> (case local_path stk buf (length t) of
                Inl e \<Rightarrow> Some (Inl e)
              | Inr p \<Rightarrow> followlink fs stk p buf bufsiz)))))"

text \<open>\<open>flink\<close>: the last argument, \<open>argv[0]\<close> included in the scan, is the path. What it prints, with
  its exit status.\<close>

definition starts_with_h :: "byte list \<Rightarrow> bool" where
  "starts_with_h a \<longleftrightarrow> take 2 a = [45, 104]"

definition flink :: "filesystem \<Rightarrow> byte option \<Rightarrow> byte list list \<Rightarrow> (int \<times> byte list option) prog" where
  "flink fs stk argv =
     (if length argv < 2 then ret (1, None)
      else if list_ex starts_with_h argv then ret (1, None)
      else pbind (followlink fs stk (last argv) (Live (replicate MAXPATH None)) MAXPATH) (\<lambda>(nbytes, buf).
        if nbytes < 0 then ret (1, None)
        else Some (rbind (read_cstr (blk_cells buf)) (\<lambda>s. Inr (0, Some s)))))"

subsection \<open>Memory lemmas\<close>

lemma store_target_ok:
  assumes "length t < length b"
  shows "store_target (Live b) t = Inr (Live (map Some t @ Some 0 # drop (length t + 1) b))"
proof -
  have "drop (length t) b = b ! length t # drop (length t + 1) b"
    using assms by (simp add: Cons_nth_drop_Suc)
  then show ?thesis
    using assms by (simp add: store_target_def write_at_ok list_update_append)
qed

lemma store_target_full: "length t = length b \<Longrightarrow> store_target (Live b) t = Inl Out_of_bounds"
  by (simp add: store_target_def write_at_ok)

lemma local_path_ok:
  assumes "0 \<notin> set t" "length t \<le> MAXPATH" "buf = Live (map Some t @ Some 0 # rest)"
  shows "local_path stk buf (length t) = read_cstr (map Some t @ replicate (MAXPATH - length t) stk)"
  using assms by (simp add: local_path_def read_cstr_string strncpy_bytes_def write_at_ok)

text \<open>One call.\<close>

lemma followlink_step:
  assumes "fs p = Some (Symlink t)" "length t < bufsiz" "0 \<notin> set t" "length b = bufsiz"
  shows "followlink fs stk p (Live b) bufsiz =
    (let b' = map Some t @ Some 0 # drop (length t + 1) b in
     case fs t of
       None \<Rightarrow> ret (-1, Live b')
     | Some Other_file \<Rightarrow> ret (int (length t), Live b')
     | Some (Symlink u) \<Rightarrow> (case local_path stk (Live b') (length t) of
         Inl e \<Rightarrow> Some (Inl e) | Inr q \<Rightarrow> followlink fs stk q (Live b') bufsiz))"
  using assms
  by (subst followlink.simps)
    (simp add: readlink_def store_target_ok read_cstr_string Let_def split: option.split node.split)

subsection \<open>Chains of links\<close>

text \<open>\<open>ts\<close> are the targets met from \<open>p\<close>: each but the last is itself a link.\<close>

fun link_chain :: "filesystem \<Rightarrow> byte list \<Rightarrow> byte list list \<Rightarrow> bool" where
  "link_chain fs p [] \<longleftrightarrow> False"
| "link_chain fs p [t] \<longleftrightarrow> fs p = Some (Symlink t) \<and> (\<forall>u. fs t \<noteq> Some (Symlink u))"
| "link_chain fs p (t # u # ts) \<longleftrightarrow> fs p = Some (Symlink t) \<and> link_chain fs t (u # ts)"

lemma link_chain_link: "link_chain fs p ts \<Longrightarrow> fs p = Some (Symlink (hd ts))"
  by (cases "(fs, p, ts)" rule: link_chain.cases) auto

text \<open>With a zeroed local array the recursion reaches the end of the chain.\<close>

lemma followlink_chain_ok:
  "link_chain fs p ts \<Longrightarrow> (\<forall>t \<in> set ts. 0 \<notin> set t \<and> length t < bufsiz \<and> length t < MAXPATH) \<Longrightarrow>
   length b = bufsiz \<Longrightarrow>
   \<exists>rest. followlink fs (Some 0) p (Live b) bufsiz =
     ret (if fs (last ts) = None then -1 else int (length (last ts)), Live (map Some (last ts) @ Some 0 # rest))"
proof (induction fs p ts arbitrary: b rule: link_chain.induct)
  case (2 fs p t)
  then show ?case
    by (auto simp: followlink_step Let_def split: option.split node.split)
next
  case (3 fs p t u ts)
  let ?b = "map Some t @ Some 0 # drop (length t + 1) b"
  have t: "0 \<notin> set t" "length t < bufsiz" "length t < MAXPATH" using 3(3) by auto
  have p: "fs p = Some (Symlink t)" and l: "fs t = Some (Symlink u)"
    using 3(2) link_chain_link [of fs t "u # ts"] by simp_all
  have "local_path (Some 0) (Live ?b) (length t) = Inr t"
    using t read_cstr_string [of t] by (cases "MAXPATH - length t") (auto simp: local_path_ok)
  then have "followlink fs (Some 0) p (Live b) bufsiz = followlink fs (Some 0) t (Live ?b) bufsiz"
    using followlink_step [of fs p t bufsiz b "Some 0"] p l t 3(4) by (simp add: Let_def)
  moreover have "length ?b = bufsiz" using t 3(4) by simp
  ultimately show ?case using 3(1) [of ?b] 3(2,3) by auto
qed simp

text \<open>A set of short links that point at each other is never left.\<close>

lemma followlink_closed:
  assumes closed: "\<And>p. p \<in> S \<Longrightarrow> \<exists>t. fs p = Some (Symlink t) \<and> t \<in> S \<and> 0 \<notin> set t \<and> length t < bufsiz \<and> length t < MAXPATH"
    and p: "p \<in> S" and b: "length b = bufsiz"
  shows "followlink fs (Some 0) p (Live b) bufsiz = None"
proof (rule ccontr)
  assume "followlink fs (Some 0) p (Live b) bufsiz \<noteq> None"
  then obtain r where r: "followlink fs (Some 0) p (Live b) bufsiz = Some r" by auto
  let ?P = "\<lambda>fs' stk p buf n r. \<not> (fs' = fs \<and> stk = Some 0 \<and> p \<in> S \<and> (\<exists>b. buf = Live b \<and> length b = bufsiz) \<and> n = bufsiz)"
  have "?P fs' stk p buf n r" if "followlink fs' stk p buf n = Some r" for fs' stk p buf n r
  proof (rule followlink.raw_induct [where P = ?P, OF _ that])
    fix f fs' stk p buf n r
    assume IH: "\<And>fs' stk p buf n r. f fs' stk p buf n = Some r \<Longrightarrow> ?P fs' stk p buf n r"
      and eq: "(case readlink fs' p n of
        None \<Rightarrow> Some (Inr (-1, buf))
      | Some t \<Rightarrow> (case store_target buf t of
          Inl e \<Rightarrow> Some (Inl e)
        | Inr buf \<Rightarrow> (case read_cstr (blk_cells buf) of
            Inl e \<Rightarrow> Some (Inl e)
          | Inr s \<Rightarrow> (case fs' s of
              None \<Rightarrow> Some (Inr (-1, buf))
            | Some Other_file \<Rightarrow> Some (Inr (int (length t), buf))
            | Some (Symlink u) \<Rightarrow> (case local_path stk buf (length t) of
                Inl e \<Rightarrow> Some (Inl e)
              | Inr p \<Rightarrow> f fs' stk p buf n))))) = Some r"
    show "?P fs' stk p buf n r"
    proof
      assume "fs' = fs \<and> stk = Some 0 \<and> p \<in> S \<and> (\<exists>b. buf = Live b \<and> length b = bufsiz) \<and> n = bufsiz"
      then obtain b where e: "fs' = fs" "stk = Some 0" "p \<in> S" "buf = Live b" "length b = bufsiz" "n = bufsiz" by blast
      from closed [OF e(3)] obtain t where
        t: "fs p = Some (Symlink t)" "t \<in> S" "0 \<notin> set t" "length t < bufsiz" "length t < MAXPATH" by blast
      from closed [OF t(2)] obtain u where u: "fs t = Some (Symlink u)" by blast
      let ?b = "map Some t @ Some 0 # drop (length t + 1) b"
      have "local_path (Some 0) (Live ?b) (length t) = Inr t"
        using t read_cstr_string [of t] by (cases "MAXPATH - length t") (auto simp: local_path_ok)
      then have "f fs (Some 0) t (Live ?b) bufsiz = Some r"
        using eq t u e by (simp add: readlink_def store_target_ok read_cstr_string)
      moreover have "length ?b = bufsiz" using t e by simp
      ultimately show False using IH t(2) by blast
    qed
  qed
  from this [OF r] p b show False by blast
qed

subsection \<open>Properties\<close>

lemma followlink_chain_read:
  assumes "link_chain fs p ts" "\<forall>t \<in> set ts. 0 \<notin> set t \<and> length t < bufsiz \<and> length t < MAXPATH" "length b = bufsiz"
  shows "\<exists>buf. followlink fs (Some 0) p (Live b) bufsiz =
      ret (if fs (last ts) = None then -1 else int (length (last ts)), buf) \<and>
    read_cstr (blk_cells buf) = Inr (last ts)"
proof -
  have "ts \<noteq> []" using assms(1) by (cases ts) auto
  then have "0 \<notin> set (last ts)" using assms(2) by simp
  then show ?thesis
    using followlink_chain_ok [OF assms] read_cstr_string by fastforce
qed

text \<open>C35: if the bytes of the recursion's local array happen to be zero, \<open>followlink\<close> returns for
  every chain of links whose targets fit the buffer and \<open>MAXPATH\<close>: the buffer holds the last
  target, NUL-terminated, and the value is its length, or -1 when nothing is there.\<close>

theorem followlink_chain:
  assumes "link_chain fs p ts" "\<forall>t \<in> set ts. 0 \<notin> set t \<and> length t < bufsiz \<and> length t < MAXPATH" "length b = bufsiz"
  shows "\<exists>buf. followlink fs (Some 0) p (Live b) bufsiz =
      ret (if fs (last ts) = None then -1 else int (length (last ts)), buf) \<and>
    read_cstr (blk_cells buf) = Inr (last ts)"
  by (rule followlink_chain_read [OF assms])

definition path_of :: "string \<Rightarrow> byte list" where
  "path_of s = map of_char s"

text \<open>\<open>./link\<close> points to \<open>b\<close>, which points to \<open>./target\<close>; \<open>loop\<close> points to itself.\<close>

definition sample_fs :: filesystem where
  "sample_fs p =
     (if p = path_of ''./link'' then Some (Symlink (path_of ''b''))
      else if p = path_of ''b'' then Some (Symlink (path_of ''./target''))
      else if p = path_of ''./target'' then Some Other_file
      else if p = path_of ''loop'' then Some (Symlink (path_of ''loop'')) else None)"

lemma sample_chain:
  "link_chain sample_fs (path_of ''./link'') [path_of ''b'', path_of ''./target'']"
  by (simp add: sample_fs_def path_of_def)

theorem followlink_chain_witness:
  "\<exists>buf. followlink sample_fs (Some 0) (path_of ''./link'') (Live (replicate 16 None)) 16 = ret (8, buf) \<and>
    read_cstr (blk_cells buf) = Inr (path_of ''./target'')"
  using followlink_chain [OF sample_chain, of 16 "replicate 16 None"]
  by (simp add: sample_fs_def path_of_def MAXPATH_def)

text \<open>C37: a target as long as the buffer makes \<open>followlink\<close> write its terminator one byte past it;
  and a second link makes it read bytes of its local array that were never written, or, when the
  first target is longer than \<open>MAXPATH\<close>, write past the array.\<close>

theorem followlink_memory_faults:
  assumes "fs p = Some (Symlink t)" "0 \<notin> set t" "length b = bufsiz"
  shows "(bufsiz \<le> length t \<longrightarrow> followlink fs stk p (Live b) bufsiz = Some (Inl Out_of_bounds)) \<and>
    (length t < bufsiz \<longrightarrow> fs t = Some (Symlink u) \<longrightarrow> MAXPATH < length t \<longrightarrow>
       followlink fs stk p (Live b) bufsiz = Some (Inl Out_of_bounds)) \<and>
    (length t < bufsiz \<longrightarrow> fs t = Some (Symlink u) \<longrightarrow> length t < MAXPATH \<longrightarrow>
       followlink fs None p (Live b) bufsiz = Some (Inl Uninit_read))"
proof (intro conjI impI)
  assume "bufsiz \<le> length t"
  then show "followlink fs stk p (Live b) bufsiz = Some (Inl Out_of_bounds)"
    using assms store_target_full [of "take bufsiz t" b]
    by (subst followlink.simps) (simp add: readlink_def)
next
  assume t: "length t < bufsiz" "fs t = Some (Symlink u)" "MAXPATH < length t"
  let ?b = "map Some t @ Some 0 # drop (length t + 1) b"
  have "local_path stk (Live ?b) (length t) = Inl Out_of_bounds"
    using assms(2) t(3) by (simp add: local_path_def read_cstr_string strncpy_bytes_def write_at_overflow)
  then show "followlink fs stk p (Live b) bufsiz = Some (Inl Out_of_bounds)"
    using followlink_step [of fs p t bufsiz b stk, OF assms(1) t(1) assms(2,3)] t(2) by (simp add: Let_def)
next
  assume t: "length t < bufsiz" "fs t = Some (Symlink u)" "length t < MAXPATH"
  let ?b = "map Some t @ Some 0 # drop (length t + 1) b"
  have "local_path None (Live ?b) (length t) = Inl Uninit_read"
    using assms(2) t(3) read_cstr_uninit [of t] by (cases "MAXPATH - length t") (auto simp: local_path_ok)
  then show "followlink fs None p (Live b) bufsiz = Some (Inl Uninit_read)"
    using followlink_step [of fs p t bufsiz b None, OF assms(1) t(1) assms(2,3)] t(2) by (simp add: Let_def)
qed

theorem followlink_memory_faults_witness:
  "followlink sample_fs (Some 0) (path_of ''b'') (Live (replicate 8 None)) 8 = Some (Inl Out_of_bounds) \<and>
   followlink sample_fs None (path_of ''./link'') (Live (replicate 16 None)) 16 = Some (Inl Uninit_read)"
  using followlink_memory_faults [of sample_fs "path_of ''b''" "path_of ''./target''" "replicate 8 None" 8 "Some 0"]
    followlink_memory_faults [of sample_fs "path_of ''./link''" "path_of ''b''" "replicate 16 None" 16 None "path_of ''./target''"]
  by (simp add: sample_fs_def path_of_def MAXPATH_def)

text \<open>On links that lead back to each other \<open>followlink\<close> never returns: there is no limit on
  the number of links it follows.\<close>

theorem followlink_cycle_diverges:
  assumes "p \<in> set ps" "length b = bufsiz"
    "\<forall>q \<in> set ps. \<exists>t \<in> set ps. fs q = Some (Symlink t) \<and> 0 \<notin> set t \<and> length t < bufsiz \<and> length t < MAXPATH"
  shows "followlink fs (Some 0) p (Live b) bufsiz = None"
  by (rule followlink_closed [of "set ps"]) (use assms in blast)+

theorem followlink_cycle_diverges_witness:
  "followlink sample_fs (Some 0) (path_of ''loop'') (Live (replicate 16 None)) 16 = None"
  by (rule followlink_cycle_diverges [of _ "[path_of ''loop'']"])
    (simp_all add: sample_fs_def path_of_def MAXPATH_def)

text \<open>\<open>flink\<close> prints the end of a chain of links that fit \<open>MAXPATH\<close>; with any argument that
  starts with \<open>-h\<close>, or none, it only prints its usage and fails.\<close>

theorem flink_prints_target:
  assumes "link_chain fs (last argv) ts" "\<forall>t \<in> set ts. 0 \<notin> set t \<and> length t < MAXPATH"
  shows "flink fs (Some 0) argv =
    (if length argv < 2 \<or> list_ex starts_with_h argv \<or> fs (last ts) = None then ret (1, None)
     else ret (0, Some (last ts)))"
proof -
  obtain buf where "followlink fs (Some 0) (last argv) (Live (replicate MAXPATH None)) MAXPATH =
      ret (if fs (last ts) = None then -1 else int (length (last ts)), buf)"
    "read_cstr (blk_cells buf) = Inr (last ts)"
    using followlink_chain_read [OF assms(1), of MAXPATH "replicate MAXPATH None"] assms(2) by auto
  then show ?thesis by (simp add: flink_def)
qed

theorem flink_prints_target_witness:
  "flink sample_fs (Some 0) [path_of ''./flink'', path_of ''./link''] = ret (0, Some (path_of ''./target''))"
proof -
  have "link_chain sample_fs (last [path_of ''./flink'', path_of ''./link'']) [path_of ''b'', path_of ''./target'']"
    using sample_chain by simp
  note f = flink_prints_target [OF this]
  have h: "\<not> list_ex starts_with_h [path_of ''./flink'', path_of ''./link'']"
    by (simp add: starts_with_h_def path_of_def)
  show ?thesis
    by (subst f) (use h in \<open>simp_all add: sample_fs_def path_of_def MAXPATH_def\<close>)
qed

end
