(* ===== verification/Evp_Base64.thy ===== *)
theory Evp_Base64
  imports Mbase64
begin

section \<open>Base64 over OpenSSL (mutil.c)\<close>

text \<open>
  \<open>base64_encode_openssl\<close> and \<open>base64_decode_openssl\<close> over the library's block functions, which are
  arguments: \<open>EVP_EncodeBlock\<close> and \<open>EVP_DecodeBlock\<close> take the input and its length as an \<open>int\<close> and
  give the octets they store, or \<open>None\<close> for a negative result; the encoder stores a NUL after its
  text. \<open>malloc\<close> is not checked by this code: storing to its NULL is a fault. What the manual page
  of the two functions says is the locale \<open>evp_block\<close>; mbase64.c meets it, which is its
  interpretation here.
\<close>

definition base64_encode_openssl ::
  "(u64 \<Rightarrow> bool) \<Rightarrow> (byte list \<Rightarrow> int \<Rightarrow> byte list option) \<Rightarrow> byte list \<Rightarrow> u64 \<Rightarrow> byte block option res" where
  "base64_encode_openssl mok encode_block data input_size =
     (let b64string_mem = to_int (4 * ((input_size + 2) div 3));
          size = to_size (b64string_mem + 1)
      in case encode_block data (sint (to_int input_size)) of
           None \<Rightarrow> Inr None
         | Some b64 \<Rightarrow>
             if mok size then rbind (write_at (blk_alloc (unat size)) 0 (b64 @ [0])) (\<lambda>b64string. Inr (Some b64string))
             else Inl Null_deref)"

text \<open>The two tests for \<open>=\<close> at the end of the string.\<close>

definition openssl_padding :: "byte list \<Rightarrow> nat" where
  "openssl_padding s =
     of_bool (0 < length s \<and> s ! (length s - 1) = chr (CHR ''='')) +
     of_bool (1 < length s \<and> s ! (length s - 2) = chr (CHR ''=''))"

text \<open>The pointer returned and what is stored in \<open>*output_size\<close>, if anything.\<close>

definition base64_decode_openssl ::
  "(u64 \<Rightarrow> bool) \<Rightarrow> (byte list \<Rightarrow> int \<Rightarrow> byte list option) \<Rightarrow> byte list \<Rightarrow> (byte block option \<times> u64 option) res" where
  "base64_decode_openssl mok decode_block b64string =
     (let input_size = of_nat (length b64string) :: u64;
          data_mem = to_int (3 * input_size div 4);
          size = to_size data_mem
      in case decode_block b64string (sint (to_int input_size)) of
           None \<Rightarrow> Inr (None, None)
         | Some out \<Rightarrow>
             rbind (if mok size then rbind (write_at (blk_alloc (unat size)) 0 out) (\<lambda>b. Inr (Some b))
                    else if out = [] then Inr None else Inl Null_deref) (\<lambda>data.
             Inr (data, Some (of_int (int (length out) - int (openssl_padding b64string))))))"

subsection \<open>The contract of the block functions\<close>

locale evp_block =
  fixes encode_block :: "byte list \<Rightarrow> int \<Rightarrow> byte list option"
    and decode_block :: "byte list \<Rightarrow> int \<Rightarrow> byte list option"
  assumes encode_block: "4 * ((length d + 2) div 3) < INT_MAX \<Longrightarrow>
      encode_block d (int (length d)) = Some (rfc4648_encode d)"
    and decode_block: "4 * ((length d + 2) div 3) < INT_MAX \<Longrightarrow>
      decode_block (rfc4648_encode d) (int (length (rfc4648_encode d))) =
        Some (d @ replicate ((3 - length d mod 3) mod 3) 0)"
    and decode_block_length: "set s \<subseteq> set b64_alphabet \<Longrightarrow> length s mod 4 \<noteq> 0 \<Longrightarrow> length s \<le> INT_MAX \<Longrightarrow>
      decode_block s (int (length s)) = None"
begin

lemma decode_encode:
  assumes "4 * ((length d + 2) div 3) < INT_MAX" "encode_block d (int (length d)) = Some s"
  shows "\<exists>out. decode_block s (int (length s)) = Some out \<and> take (length d) out = d"
  using assms encode_block [OF assms(1)] decode_block [OF assms(1)] by auto

end

lemma base64_encode_openssl_eq:
  assumes n: "unat n = length data" and b: "4 * ((length data + 2) div 3) < INT_MAX"
    and e: "encode_block data (int (length data)) = Some text" "length text = 4 * ((length data + 2) div 3)"
  shows "base64_encode_openssl (\<lambda>_. True) encode_block data n = Inr (Some (Live (map Some (text @ [0]))))"
proof -
  let ?m = "4 * ((length data + 2) div 3) + 1"
  have o: "to_int (4 * ((n + 2) div 3)) + 1 = of_nat ?m"
    using encoded_size [OF n encoded_bound(3) [OF b]] by simp
  have s: "to_size (of_nat ?m) = of_nat ?m"
    by (rule to_size_of_nat) (rule encoded_bound(2) [OF b])
  have u: "unat (of_nat ?m :: u64) = ?m"
    by (rule unat_of_nat_u64) (use encoded_bound(2) [OF b] in simp)
  have i: "sint (to_int n) = int (length data)"
    using n encoded_bound(1) [OF b] by (intro sint_to_int) simp_all
  have "write_at (blk_alloc ?m) 0 (text @ [0]) = Inr (Live (map Some (text @ [0])))"
    using e(2) by (intro write_all) simp
  then show ?thesis
    unfolding base64_encode_openssl_def Let_def o s i by (simp only: e(1) u option.case if_True rbind.simps)
qed

lemma base64_decode_openssl_eq:
  assumes "length s mod 4 = 0" "length s \<le> INT_MAX"
    and d: "decode_block s (int (length s)) = Some out" "length out = 3 * (length s div 4)"
  shows "base64_decode_openssl (\<lambda>_. True) decode_block s =
    Inr (Some (Live (map Some out)), Some (of_int (int (length out) - int (openssl_padding s))))"
proof -
  have l: "length s < 2 ^ 64" "length out < 2 ^ 31" "3 * length s < 2 ^ 64"
    using assms(2) d(2) by (auto simp: INT_MAX_def)
  have e: "3 * length s div 4 = 3 * (length s div 4)"
    using assms(1) by auto
  have "3 * (of_nat (length s) :: u64) = of_nat (3 * length s)" by simp
  then have "3 * (of_nat (length s) :: u64) div 4 = of_nat (length out)"
    using div_of_nat_u64 [of "3 * length s" 4] l(3) e d(2) by simp
  then have o: "to_int (3 * (of_nat (length s) :: u64) div 4) = of_nat (length out)"
    by (simp only: to_int_of_nat)
  have z: "to_size (of_nat (length out)) = of_nat (length out)" "unat (of_nat (length out) :: u64) = length out"
    using l(2) by (auto intro: to_size_of_nat unat_of_nat_u64)
  have i: "sint (to_int (of_nat (length s))) = int (length s)"
    using assms(2) l(1) by (intro sint_to_int unat_of_nat_u64)
  show ?thesis
    unfolding base64_decode_openssl_def Let_def o z i d(1)
    by (simp only: option.case if_True rbind.simps write_all)
qed

subsection \<open>mbase64.c meets the contract\<close>

definition own_encode_block :: "byte list \<Rightarrow> int \<Rightarrow> byte list option" where
  "own_encode_block d n =
     (case mbase64_encode (\<lambda>_. True) d (of_int n) of Inl e \<Rightarrow> None | Inr b \<Rightarrow> Some (c_string b))"

definition own_decode_block :: "byte list \<Rightarrow> int \<Rightarrow> byte list option" where
  "own_decode_block s n =
     (case mbase64_decode (\<lambda>_. True) s of
        Inr (Some (b, k)) \<Rightarrow> Some (values_of (blk_cells b))
      | _ \<Rightarrow> None)"

lemma own_encode_block_eq:
  assumes "4 * ((length d + 2) div 3) < INT_MAX"
  shows "own_encode_block d (int (length d)) = Some (rfc4648_encode d)"
proof -
  have "length d < 2 ^ 64" using encoded_bound(3) [OF assms] by simp
  then have "unat (of_int (int (length d)) :: u64) = length d"
    by (simp only: of_int_of_nat_eq unat_of_nat_u64)
  then have "mbase64_encode (\<lambda>_. True) d (of_int (int (length d))) = Inr (Live (map Some (enc_spec d @ [0])))"
    using assms by (rule mbase64_encode_eq) simp
  then show ?thesis
    using mb64.c_string_enc [of d "[]"] by (simp only: own_encode_block_def sum.case enc_spec_rfc4648)
qed

lemma length_rfc4648_encode: "length (rfc4648_encode d) = 4 * ((length d + 2) div 3)"
  by (simp only: enc_spec_rfc4648 [symmetric] length_enc_spec)

lemma own_decode_block_eq:
  assumes "length s mod 4 = 0" "length s \<le> INT_MAX"
  shows "own_decode_block s n = Some (dec_spec s)"
  using mbase64_decode_eq [of s "\<lambda>_. True"] assms by (simp add: own_decode_block_def)

interpretation own: evp_block own_encode_block own_decode_block
proof
  fix d :: "byte list" assume "4 * ((length d + 2) div 3) < INT_MAX"
  then show "own_encode_block d (int (length d)) = Some (rfc4648_encode d)"
    by (rule own_encode_block_eq)
next
  fix d :: "byte list" assume "4 * ((length d + 2) div 3) < INT_MAX"
  then show "own_decode_block (rfc4648_encode d) (int (length (rfc4648_encode d))) =
      Some (d @ replicate ((3 - length d mod 3) mod 3) 0)"
    by (subst own_decode_block_eq)
      (simp_all add: length_rfc4648_encode enc_spec_rfc4648 [symmetric] length_enc_spec dec_spec_enc_spec)
next
  fix s :: "byte list" assume "length s mod 4 \<noteq> 0" "length s \<le> INT_MAX"
  then show "own_decode_block s (int (length s)) = None"
    using mbase64_decode_cases [of s "\<lambda>_. True"] by (simp add: own_decode_block_def)
qed

subsection \<open>Properties\<close>

text \<open>\<open>base64_encode_openssl\<close> over block functions that keep their contract returns the same
  string as \<open>mbase64_encode\<close>, for every input whose encoding fits an \<open>int\<close>.\<close>

theorem base64_openssl_same_encoding:
  assumes "evp_block encode_block decode_block"
    "unat n = length data" "4 * ((length data + 2) div 3) < INT_MAX"
  shows "base64_encode_openssl (\<lambda>_. True) encode_block data n =
    rbind (mbase64_encode (\<lambda>_. True) data n) (\<lambda>b. Inr (Some b))"
proof -
  have "encode_block data (int (length data)) = Some (enc_spec data)"
    using evp_block.encode_block [OF assms(1,3)] by (simp only: enc_spec_rfc4648)
  from base64_encode_openssl_eq [where encode_block = encode_block, OF assms(2,3) this length_enc_spec]
    mbase64_encode_eq [OF assms(2,3), of "\<lambda>_. True"]
  show ?thesis by (simp only: simp_thms rbind.simps)
qed

theorem base64_openssl_same_encoding_witness:
  "base64_encode_openssl (\<lambda>_. True) own_encode_block [104, 105] 2 =
     rbind (mbase64_encode (\<lambda>_. True) [104, 105] 2) (\<lambda>b. Inr (Some b))"
  by (rule base64_openssl_same_encoding [OF own.evp_block_axioms]) (simp_all add: INT_MAX_def)

text \<open>C23: what one encoder wrote the other decoder reads: from the encoder's string both decoders
  store the same octets and the same size, the data and its length.\<close>

theorem base64_openssl_interoperates:
  assumes "evp_block encode_block decode_block"
    "unat n = length data" "4 * ((length data + 2) div 3) < INT_MAX"
  shows "\<exists>text out. base64_encode_openssl (\<lambda>_. True) encode_block data n = Inr (Some text) \<and>
    base64_decode_openssl (\<lambda>_. True) decode_block (c_string text) = Inr (Some out, Some n) \<and>
    mbase64_decode (\<lambda>_. True) (c_string text) = Inr (Some (out, n)) \<and>
    take (length data) (blk_cells out) = map Some data"
proof -
  let ?s = "enc_spec data" and ?p = "(3 - length data mod 3) mod 3"
  have d: "dec_spec ?s = data @ replicate ?p 0" by (rule dec_spec_enc_spec)
  have s: "length ?s mod 4 = 0" "length ?s \<le> INT_MAX" "length (dec_spec ?s) = 3 * (length ?s div 4)"
    using assms(3) by (simp_all add: length_enc_spec length_dec_spec)
  have "encode_block data (int (length data)) = Some ?s"
    "decode_block ?s (int (length ?s)) = Some (dec_spec ?s)"
    using evp_block.encode_block [OF assms(1,3)] evp_block.decode_block [OF assms(1,3)]
    by (simp_all only: enc_spec_rfc4648 [symmetric] d)
  moreover have "length ?s = 0 \<or> 3 < length ?s" by (simp add: length_enc_spec) arith
  then have p: "openssl_padding ?s = ?p"
    unfolding pad_count_enc_spec [symmetric] by (auto simp: openssl_padding_def pad_count_def)
  have n: "n = of_nat (length data)" using assms(2) by (rule word_eq_of_nat)
  have "of_int (int (length (dec_spec ?s)) - int ?p) = n" by (simp add: d n)
  moreover have "of_nat (length (dec_spec ?s)) - of_nat (pad_count ?s) = n"
    by (simp add: d n pad_count_enc_spec)
  moreover have "c_string (Live (map Some (?s @ [0]))) = ?s"
    using mb64.c_string_enc [of data "[]"] by simp
  ultimately show ?thesis
    using base64_encode_openssl_eq [where encode_block = encode_block, OF assms(2,3) _ length_enc_spec]
      base64_decode_openssl_eq [where decode_block = decode_block, OF s(1,2) _ s(3)] mbase64_decode_eq [OF s(1,2), of "\<lambda>_. True"]
    by (intro exI [of _ "Live (map Some (?s @ [0]))"] exI [of _ "Live (map Some (dec_spec ?s))"])
      (simp add: p d)
qed

theorem base64_openssl_interoperates_witness:
  "\<exists>text out. base64_encode_openssl (\<lambda>_. True) own_encode_block [104, 105] 2 = Inr (Some text) \<and>
    base64_decode_openssl (\<lambda>_. True) own_decode_block (c_string text) = Inr (Some out, Some 2) \<and>
    mbase64_decode (\<lambda>_. True) (c_string text) = Inr (Some (out, 2)) \<and>
    take (length [104, 105 :: byte]) (blk_cells out) = map Some [104, 105]"
  by (rule base64_openssl_interoperates [OF own.evp_block_axioms]) (simp_all add: INT_MAX_def)

text \<open>Text of the alphabet whose length is no multiple of 4 is refused by both decoders.\<close>

theorem base64_openssl_length_error:
  assumes "evp_block encode_block decode_block"
    "set s \<subseteq> set b64_alphabet" "length s mod 4 \<noteq> 0" "length s \<le> INT_MAX"
  shows "base64_decode_openssl mok decode_block s = Inr (None, None) \<and> mbase64_decode mok s = Inr None"
proof -
  have "sint (to_int (of_nat (length s))) = int (length s)"
    using assms(4) by (intro sint_to_int unat_of_nat_u64) (simp_all add: INT_MAX_def)
  then show ?thesis
    using evp_block.decode_block_length [OF assms] mbase64_decode_cases [OF assms(4), of mok] assms(3)
    by (simp add: base64_decode_openssl_def Let_def)
qed

end
