(* ===== verification/Uri.thy ===== *)
theory Uri
  imports Mutil_Num Evp_Cipher
begin

section \<open>URI encoding and the tools muri and sha1 (mutil.c, muri.c, sha1.c)\<close>

text \<open>
  \<open>uriencode\<close> and \<open>uridecode\<close> over libcurl's \<open>curl_easy_escape\<close> and \<open>curl_easy_unescape\<close>, which are
  arguments (\<open>None\<close> for NULL), as is \<open>CURL_MAX_READ_SIZE\<close>. The tools compose them, and the digest with
  \<open>tohex\<close>: a line of input or the arguments in, the line printed and the exit status out.
\<close>

text \<open>\<open>*out_length\<close> as an \<open>int\<close> and as the argument of \<open>malloc\<close> and \<open>strncpy\<close>.\<close>

definition uri_copy :: "(u64 \<Rightarrow> bool) \<Rightarrow> byte list \<Rightarrow> nat \<Rightarrow> (byte block option \<times> int) res" where
  "uri_copy mok s max_output =
     (let out_length = to_int (of_nat (strnlen s max_output));
          size = to_size out_length
      in if mok size
         then rbind (write_at (blk_alloc (unat size)) 0 (strncpy_bytes s (unat size))) (\<lambda>b. Inr (Some b, sint out_length))
         else Inr (None, sint out_length))"

definition uriencode ::
  "(u64 \<Rightarrow> bool) \<Rightarrow> nat \<Rightarrow> (byte list \<Rightarrow> byte list option) \<Rightarrow> byte list \<Rightarrow> (byte block option \<times> int) res" where
  "uriencode mok max_read escape s =
     (case escape s of
        None \<Rightarrow> Inl Null_deref
      | Some c_encoded \<Rightarrow> uri_copy mok c_encoded (max_read * 3))"

text \<open>The decoded octets may hold a NUL, where \<open>strnlen\<close> and \<open>strncpy\<close> stop.\<close>

definition uridecode ::
  "(u64 \<Rightarrow> bool) \<Rightarrow> nat \<Rightarrow> (byte list \<Rightarrow> byte list option) \<Rightarrow> byte list \<Rightarrow> (byte block option \<times> int) res" where
  "uridecode mok max_read unescape s =
     (case unescape s of
        None \<Rightarrow> Inl Null_deref
      | Some c_decoded \<Rightarrow> uri_copy mok (takeWhile (\<lambda>c. c \<noteq> 0) c_decoded) max_read)"

lemma uri_copy_eq:
  assumes "max_output \<le> INT_MAX"
  shows "uri_copy mok s max_output =
    (let n = min (length s) max_output
     in Inr (if mok (of_nat n) then Some (Live (map Some (take max_output s))) else None, int n))"
proof -
  let ?n = "min (length s) max_output"
  have l: "?n < 2 ^ 31" using assms(1) by (simp add: INT_MAX_def)
  then have u: "unat (of_nat ?n :: u64) = ?n" by (intro unat_of_nat_u64) simp
  then have z: "sint (to_int (of_nat ?n)) = int ?n" using assms(1) by (intro sint_to_int) simp_all
  have w: "write_at (blk_alloc ?n) 0 (strncpy_bytes s ?n) = Inr (Live (map Some (strncpy_bytes s ?n)))"
    by (rule write_all) simp
  have c: "strncpy_bytes s ?n = take max_output s" by (simp add: strncpy_bytes_def min_def)
  show ?thesis
    using z w unfolding uri_copy_def strnlen_def Let_def to_int_of_nat to_size_of_nat [OF l] u c by simp
qed

subsection \<open>muri\<close>

text \<open>\<open>fgets\<close>: up to and with the first newline, at most \<open>n - 1\<close> octets; \<open>None\<close> at the end of the
  input.\<close>

definition fgets :: "nat \<Rightarrow> byte list \<Rightarrow> byte list option" where
  "fgets n s =
     (if s = [] then None
      else let l = takeWhile (\<lambda>c. c \<noteq> 10) s
           in Some (take (n - 1) (if length l < length s then l @ [10] else l)))"

definition maximum_read :: nat where
  "maximum_read = 10 * 1024 * 1024"

text \<open>The loop over the arguments: \<open>None\<close> when one starts with \<open>-h\<close>, else whether to encode.\<close>

fun muri_args :: "byte list list \<Rightarrow> bool \<Rightarrow> bool option" where
  "muri_args [] encode = Some encode"
| "muri_args (a # as) encode =
     (if take 2 a = [45, 104] then None
      else if take 2 a = [45, 100] then muri_args as False
      else muri_args as encode)"

text \<open>The test for the newline reads the octet before the NUL, at index \<open>SIZE_MAX\<close> for an empty string.\<close>

definition muri_line :: "byte list \<Rightarrow> byte list option res" where
  "muri_line line =
     (let n = length (takeWhile (\<lambda>c. c \<noteq> 0) line) in
      if n = 0 then Inl Out_of_bounds
      else if line ! (n - 1) = 10 then Inr (Some (take (n - 1) line))
      else Inr None)"

fun muri_print :: "byte block option \<times> int \<Rightarrow> (int \<times> byte list option) res" where
  "muri_print (None, n) = Inr (1, None)"
| "muri_print (Some b, n) = rbind (read_cstr (blk_cells b)) (\<lambda>t. Inr (0, Some (t @ [10])))"

definition muri ::
  "(u64 \<Rightarrow> bool) \<Rightarrow> nat \<Rightarrow> (byte list \<Rightarrow> byte list option) \<Rightarrow> (byte list \<Rightarrow> byte list option) \<Rightarrow>
   byte list list \<Rightarrow> byte list \<Rightarrow> (int \<times> byte list option) res" where
  "muri mok max_read escape unescape argv stdin =
     (case muri_args (tl argv) True of
        None \<Rightarrow> Inr (1, None)
      | Some encode \<Rightarrow>
          rbind (require Assert_failed (mok (of_nat maximum_read))) (\<lambda>_.
          case fgets maximum_read stdin of
            None \<Rightarrow> Inr (1, None)
          | Some line \<Rightarrow>
              rbind (muri_line line) (\<lambda>s.
              case s of
                None \<Rightarrow> Inr (1, None)
              | Some s \<Rightarrow>
                  rbind (if encode then uriencode mok max_read escape s else uridecode mok max_read unescape s)
                    muri_print)))"

subsection \<open>sha1\<close>

fun size_args :: "byte list list \<Rightarrow> u32 \<Rightarrow> u32" where
  "size_args [] n = n"
| "size_args (a # as) n = size_args as (n + of_nat (length a))"

text \<open>\<open>strcpy\<close> of the first argument, \<open>strcat\<close> of the others.\<close>

fun strcat_args :: "byte list list \<Rightarrow> byte block \<Rightarrow> byte block res" where
  "strcat_args [] b = Inr b"
| "strcat_args (a # as) b =
     rbind (read_cstr (blk_cells b)) (\<lambda>s. rbind (write_at b (length s) (a @ [0])) (strcat_args as))"

definition sha1 ::
  "(nat \<Rightarrow> bool) \<Rightarrow> (byte list \<Rightarrow> evp_md) \<Rightarrow> nat \<Rightarrow> byte list list \<Rightarrow> (int \<times> byte list option) res" where
  "sha1 mok md md_size argv =
     (if length argv < 2 then Inr (1, None)
      else
        let size = size_args (tl argv) 0 + 1 in
        rbind (require Assert_failed (mok (unat size))) (\<lambda>_.
        rbind (write_at (blk_alloc (unat size)) 0 (argv ! 1 @ [0])) (\<lambda>input.
        rbind (strcat_args (drop 2 argv) input) (\<lambda>input.
        rbind (read_cstr (blk_cells input)) (\<lambda>s.
        rbind (digest_sha1 md md_size s) (\<lambda>(digest, n).
        rbind (case (digest, n) of
                 (Some (Live cs), Some m) \<Rightarrow> tohex mok (values_of (take m cs))
               | (Some _, _) \<Rightarrow> Inl Use_after_free
               | (None, _) \<Rightarrow> Inl Null_deref) (\<lambda>hdigest.
        case hdigest of
          None \<Rightarrow> Inl Null_deref
        | Some b \<Rightarrow> rbind (read_cstr (blk_cells b)) (\<lambda>t. Inr (0, Some (t @ [10]))))))))))"

subsection \<open>The lines of the tools\<close>

lemma uriencode_eq:
  assumes "escape s = Some e" "max_read * 3 \<le> INT_MAX"
  shows "uriencode (\<lambda>_. True) max_read escape s =
    Inr (Some (Live (map Some (take (max_read * 3) e))), int (min (length e) (max_read * 3)))"
  using assms by (simp add: uriencode_def uri_copy_eq Let_def)

lemma uridecode_eq:
  assumes "unescape s = Some d" "max_read \<le> INT_MAX"
  shows "uridecode (\<lambda>_. True) max_read unescape s =
    Inr (Some (Live (map Some (take max_read (takeWhile (\<lambda>c. c \<noteq> 0) d)))),
      int (min (length (takeWhile (\<lambda>c. c \<noteq> 0) d)) max_read))"
  using assms by (simp add: uridecode_def uri_copy_eq Let_def)

lemma strcat_args_ok:
  "\<forall>a \<in> set as. 0 \<notin> set a \<Longrightarrow> 0 \<notin> set s \<Longrightarrow> length (concat as) \<le> length rest \<Longrightarrow>
   strcat_args as (Live (map Some s @ Some 0 # rest)) =
     Inr (Live (map Some (s @ concat as) @ Some 0 # drop (length (concat as)) rest))"
proof (induction as arbitrary: s rest)
  case (Cons a as)
  have "write_at (Live (map Some s @ Some 0 # rest)) (length s) (a @ [0]) =
      Inr (Live (map Some (s @ a) @ Some 0 # drop (length a) rest))"
    using Cons.prems(3) by (simp add: write_at_ok)
  moreover have "strcat_args as (Live (map Some (s @ a) @ Some 0 # drop (length a) rest)) =
      Inr (Live (map Some ((s @ a) @ concat as) @ Some 0 # drop (length (concat as)) (drop (length a) rest)))"
    using Cons.prems by (intro Cons.IH) auto
  ultimately show ?case
    using Cons.prems by (simp add: read_cstr_string add.commute)
qed simp

lemma size_args_eq: "size_args as n = n + of_nat (length (concat as))"
  by (induction as arbitrary: n) (simp_all add: ac_simps)

lemma hex_digit_nonzero: "0 \<notin> set (hex_octet c)"
proof -
  have "list_all (\<lambda>d. hex_digit d \<noteq> 0) [0..<16]" by code_simp
  then have "hex_digit d \<noteq> 0" if "d < 16" for d using that by (auto simp: list_all_iff)
  moreover have "unat c div 16 < 16"
    using unsigned_less [where ?'a = nat, of c] by (simp add: less_mult_imp_div_less)
  ultimately show ?thesis by (auto simp: hex_octet_def)
qed

lemma tohex_read:
  assumes "tohex mok xs = Inr (Some b)" "2 * length xs \<le> INT_MAX"
  shows "read_cstr (blk_cells b) = Inl Uninit_read"
proof -
  have "b = Live (map Some (concat (map hex_octet xs)) @ [None])"
    using assms tohex_loop_ok [of "[]" xs 1]
    by (simp add: tohex_def blk_alloc_def mult.commute split: if_splits)
  moreover have "0 \<notin> set (concat (map hex_octet xs))" using hex_digit_nonzero by auto
  ultimately show ?thesis using read_cstr_uninit [of _ "[]"] by simp
qed

lemma sha1_input:
  assumes "2 \<le> length argv" "\<forall>a \<in> set argv. 0 \<notin> set a" "length (concat (tl argv)) + 1 < 2 ^ 32"
  shows "rbind (write_at (blk_alloc (unat (size_args (tl argv) 0 + 1))) 0 (argv ! 1 @ [0])) (strcat_args (drop 2 argv)) =
    Inr (Live (map Some (concat (tl argv)) @ [Some 0]))"
proof -
  obtain p a as where argv: "argv = p # a # as" 
    using assms(1) by (metis Suc_le_length_iff numeral_2_eq_2)
  let ?n = "length (concat as)"
  have "size_args (tl argv) 0 + 1 = of_nat (length (concat (tl argv)) + 1)"
    by (simp add: size_args_eq)
  moreover have "unat (of_nat k :: u32) = k" if "k < 2 ^ 32" for k
    using that by (simp add: unsigned_of_nat take_bit_nat_eq_self)
  from this [OF assms(3)] have "unat (of_nat (length (concat (tl argv)) + 1) :: u32) = length a + ?n + 1"
    by (simp only: argv list.sel concat.simps length_append)
  ultimately have n: "unat (size_args (tl argv) 0 + 1) = length a + ?n + 1"
    by (simp only:)
  have "write_at (blk_alloc (length a + ?n + 1)) 0 (a @ [0]) = Inr (Live (map Some a @ Some 0 # replicate ?n None))"
    by (simp add: blk_alloc_def write_at_ok)
  moreover have "strcat_args as (Live (map Some a @ Some 0 # replicate ?n None)) =
      Inr (Live (map Some (a @ concat as) @ Some 0 # drop ?n (replicate ?n None)))"
    using assms(2) by (intro strcat_args_ok) (auto simp: argv)
  ultimately show ?thesis unfolding n by (simp add: argv)
qed

lemma sha1_eq:
  assumes "2 \<le> length argv" "\<forall>a \<in> set argv. 0 \<notin> set a" "length (concat (tl argv)) + 1 < 2 ^ 32"
  shows "sha1 (\<lambda>_. True) md md_size argv =
    rbind (digest_sha1 md md_size (concat (tl argv))) (\<lambda>(digest, n).
    rbind (case (digest, n) of
             (Some (Live cs), Some m) \<Rightarrow> tohex (\<lambda>_. True) (values_of (take m cs))
           | (Some _, _) \<Rightarrow> Inl Use_after_free
           | (None, _) \<Rightarrow> Inl Null_deref) (\<lambda>hdigest.
    case hdigest of
      None \<Rightarrow> Inl Null_deref
    | Some b \<Rightarrow> rbind (read_cstr (blk_cells b)) (\<lambda>t. Inr (0, Some (t @ [10])))))"
proof -
  have "0 \<notin> set (concat (tl argv))" using assms(2) by (cases argv) auto
  then have r: "read_cstr (map Some (concat (tl argv)) @ [Some 0]) = Inr (concat (tl argv))"
    by (rule read_cstr_string)
  have "\<not> length argv < 2" using assms(1) by simp
  then show ?thesis
    using sha1_input [OF assms] r
    by (auto simp: sha1_def Let_def res_simps rbind_assoc [symmetric])
qed

subsection \<open>Properties\<close>

text \<open>With inverse escape functions and texts within the limits the round trip through
  \<open>uriencode\<close> and \<open>uridecode\<close> gives the text back with its length, but neither result is terminated:
  reading it as a C string leaves the allocation.\<close>

theorem uri_roundtrip_unterminated:
  assumes "escape s = Some e" "unescape e = Some s" "0 \<notin> set s" "0 \<notin> set e"
    "length s \<le> max_read" "length e \<le> max_read * 3" "max_read * 3 \<le> INT_MAX"
  shows "\<exists>b b'. uriencode (\<lambda>_. True) max_read escape s = Inr (Some b, int (length e)) \<and> blk_cells b = map Some e \<and>
    uridecode (\<lambda>_. True) max_read unescape e = Inr (Some b', int (length s)) \<and> blk_cells b' = map Some s \<and>
    read_cstr (blk_cells b) = Inl Out_of_bounds \<and> read_cstr (blk_cells b') = Inl Out_of_bounds"
proof -
  have "takeWhile (\<lambda>c. c \<noteq> 0) s = s" by (metis (mono_tags) assms(3) takeWhile_eq_all_conv)
  then have "uridecode (\<lambda>_. True) max_read unescape e = Inr (Some (Live (map Some s)), int (length s))"
    using uridecode_eq [of unescape e s max_read] assms(2,5,7) by (simp only:) simp
  then show ?thesis
    using uriencode_eq [of escape s e max_read] assms by (simp add: read_cstr_unterminated)
qed

text \<open>Percent-encoding of everything but letters and digits.\<close>

definition sample_escape :: "byte list \<Rightarrow> byte list option" where
  "sample_escape s = Some (concat (map (\<lambda>c. if 97 \<le> c \<and> c \<le> 122 then [c] else 37 # hex_octet c) s))"

definition sample_unescape :: "byte list \<Rightarrow> byte list option" where
  "sample_unescape s = Some (if s = [97, 37, 50, 48, 98] then [97, 32, 98] else s)"

theorem uri_roundtrip_unterminated_witness:
  "\<exists>b b'. uriencode (\<lambda>_. True) 16 sample_escape [97, 32, 98] = Inr (Some b, 5) \<and> blk_cells b = map Some [97, 37, 50, 48, 98] \<and>
    uridecode (\<lambda>_. True) 16 sample_unescape [97, 37, 50, 48, 98] = Inr (Some b', 3) \<and> blk_cells b' = map Some [97, 32, 98] \<and>
    read_cstr (blk_cells b) = Inl Out_of_bounds \<and> read_cstr (blk_cells b') = Inl Out_of_bounds"
proof -
  have "sample_escape [97, 32, 98] = Some [97, 37, 50, 48, 98]" by code_simp
  moreover have "sample_unescape [97, 37, 50, 48, 98] = Some [97, 32, 98]" by code_simp
  ultimately show ?thesis
    using uri_roundtrip_unterminated [of sample_escape "[97, 32, 98]" "[97, 37, 50, 48, 98]" sample_unescape 16]
    by (simp add: INT_MAX_def)
qed

text \<open>A whole line of text, through \<open>fgets\<close> and the test for the newline.\<close>

lemma muri_text_line:
  assumes "0 \<notin> set s" "10 \<notin> set s" "length s + 2 \<le> maximum_read"
  shows "fgets maximum_read (s @ 10 # rest) = Some (s @ [10]) \<and> muri_line (s @ [10]) = Inr (Some s)"
proof -
  have "takeWhile (\<lambda>c. c \<noteq> 10) (s @ 10 # rest) = s" using assms(2) by (subst takeWhile_append2) auto
  moreover have "takeWhile (\<lambda>c. c \<noteq> 0) (s @ [10 :: byte]) = s @ [10]" using assms(1) by (subst takeWhile_append2) auto
  ultimately show ?thesis using assms(3) by (simp add: fgets_def muri_line_def nth_append)
qed

text \<open>What is printed of a result: nothing, as its string has no terminator.\<close>

lemma muri_print_uri_copy:
  assumes "0 \<notin> set s" "m \<le> INT_MAX"
  shows "rbind (uri_copy mok s m) muri_print =
    (if mok (of_nat (min (length s) m)) then Inl Out_of_bounds else Inr (1, None))"
proof -
  have "0 \<notin> set (take m s)" using assms(1) by (auto dest: in_set_takeD)
  then show ?thesis using assms(2) by (simp add: uri_copy_eq Let_def read_cstr_unterminated)
qed

lemma muri_print_uri:
  assumes "max_read * 3 \<le> INT_MAX" "\<And>s e. escape s = Some e \<Longrightarrow> 0 \<notin> set e"
  shows "rbind (if encode then uriencode mok max_read escape s else uridecode mok max_read unescape s) muri_print =
    (case (if encode then escape s else map_option (takeWhile (\<lambda>c. c \<noteq> 0)) (unescape s)) of
       None \<Rightarrow> Inl Null_deref
     | Some e \<Rightarrow>
         if mok (of_nat (min (length e) (if encode then max_read * 3 else max_read))) then Inl Out_of_bounds
         else Inr (1, None))"
proof -
  have "0 \<notin> set (takeWhile (\<lambda>c. c \<noteq> 0) d)" for d :: "byte list" by (auto dest: set_takeWhileD)
  then show ?thesis
    using assms by (auto simp: uriencode_def uridecode_def muri_print_uri_copy split: option.split)
qed

text \<open>C40: \<open>muri\<close> never prints a result. On a line of text with its newline, once the line buffer is
  allocated, it dereferences the NULL of a failed library call, or exits with status 1 when the
  output cannot be allocated, and in every other run reads past the end of the output it has just
  encoded or decoded, which has no terminator, to print it. And no input and no arguments make it
  exit otherwise than with status 1 and nothing printed.\<close>

theorem muri_never_prints:
  assumes "max_read * 3 \<le> INT_MAX" "\<And>s e. escape s = Some e \<Longrightarrow> 0 \<notin> set e"
  shows "(\<forall>encode s rest. muri_args (tl argv) True = Some encode \<longrightarrow> mok (of_nat maximum_read) \<longrightarrow>
      0 \<notin> set s \<longrightarrow> 10 \<notin> set s \<longrightarrow> length s + 2 \<le> maximum_read \<longrightarrow>
      muri mok max_read escape unescape argv (s @ 10 # rest) =
        (case (if encode then escape s else map_option (takeWhile (\<lambda>c. c \<noteq> 0)) (unescape s)) of
           None \<Rightarrow> Inl Null_deref
         | Some e \<Rightarrow>
             if mok (of_nat (min (length e) (if encode then max_read * 3 else max_read))) then Inl Out_of_bounds
             else Inr (1, None))) \<and>
    (\<forall>stdin status out. muri mok max_read escape unescape argv stdin = Inr (status, out) \<longrightarrow>
      status = 1 \<and> out = None)"
proof (intro conjI allI impI)
  fix encode and s rest :: "byte list"
  assume "muri_args (tl argv) True = Some encode" "mok (of_nat maximum_read)"
    and "0 \<notin> set s" "10 \<notin> set s" "length s + 2 \<le> maximum_read"
  then show "muri mok max_read escape unescape argv (s @ 10 # rest) =
      (case (if encode then escape s else map_option (takeWhile (\<lambda>c. c \<noteq> 0)) (unescape s)) of
         None \<Rightarrow> Inl Null_deref
       | Some e \<Rightarrow>
           if mok (of_nat (min (length e) (if encode then max_read * 3 else max_read))) then Inl Out_of_bounds
           else Inr (1, None))"
    using muri_text_line [of s rest]
    by (simp only: muri_def option.case require_def rbind.simps sum.case muri_print_uri [OF assms] simp_thms if_True)
next
  fix stdin status out
  assume "muri mok max_read escape unescape argv stdin = Inr (status, out)"
  then have "(status, out) = (1, None)"
    unfolding muri_def by (auto simp: res_simps muri_print_uri [OF assms] split: option.splits if_splits)
  then show "status = 1" "out = None" by simp_all
qed

text \<open>The line \<open>a b\<close> is encoded, and \<open>a%20b\<close> decoded; with no memory for five octets of output the first
  run ends; a line without its newline is refused.\<close>

theorem muri_never_prints_witness:
  "sample_escape [97, 32, 98] = Some [97, 37, 50, 48, 98] \<and>
   muri (\<lambda>_. True) 16 sample_escape sample_unescape [[109]] [97, 32, 98, 10] = Inl Out_of_bounds \<and>
   muri (\<lambda>_. True) 16 sample_escape sample_unescape [[109], [45, 100]] [97, 37, 50, 48, 98, 10] = Inl Out_of_bounds \<and>
   muri (\<lambda>n. n \<noteq> 5) 16 sample_escape sample_unescape [[109]] [97, 32, 98, 10] = Inr (1, None) \<and>
   muri (\<lambda>_. True) 16 sample_escape sample_unescape [[109], [45, 100]] [97] = Inr (1, None)"
proof -
  have z: "0 \<notin> set f" if "sample_escape w = Some f" for w f
  proof -
    have "0 \<notin> set (if 97 \<le> c \<and> c \<le> 122 then [c] else 37 # hex_octet c)" for c
      using hex_digit_nonzero [of c] by auto
    moreover have "f = concat (map (\<lambda>c. if 97 \<le> c \<and> c \<le> 122 then [c] else 37 # hex_octet c) w)"
      using that by (simp add: sample_escape_def)
    ultimately show ?thesis by (simp only: set_concat set_map) blast
  qed
  have i: "(16 :: nat) * 3 \<le> INT_MAX" by (simp add: INT_MAX_def)
  have e: "sample_escape [97, 32, 98] = Some [97, 37, 50, 48, 98]" by code_simp
  have d: "sample_unescape [97, 37, 50, 48, 98] = Some [97, 32, 98]" by code_simp
  note muri = muri_never_prints [where escape = sample_escape and unescape = sample_unescape, OF i z]
  note line = conjunct1 [OF muri, rule_format]
  have "\<exists>r. muri (\<lambda>_. True) 16 sample_escape sample_unescape [[109], [45, 100]] [97] = Inr r"
    by (simp add: muri_def muri_line_def fgets_def maximum_read_def)
  moreover note muri [where argv = "[[109], [45, 100]]" and mok = "\<lambda>_. True", THEN conjunct2]
    line [where argv = "[[109]]" and mok = "\<lambda>_. True" and encode = True and s = "[97, 32, 98]" and rest = "[]"]
    line [where argv = "[[109], [45, 100]]" and mok = "\<lambda>_. True" and encode = False
      and s = "[97, 37, 50, 48, 98]" and rest = "[]"]
    line [where argv = "[[109]]" and mok = "\<lambda>n. n \<noteq> 5" and encode = True and s = "[97, 32, 98]" and rest = "[]"]
  ultimately show ?thesis
    using e d by (auto simp: maximum_read_def)
qed

text \<open>\<open>sha1\<close> digests the concatenation of its arguments, with no trace of where one ends; and
  when every call succeeds its output is the hexadecimal string without a terminator, so printing
  it reads memory that was never written.\<close>

theorem sha1_joins_arguments:
  assumes "2 \<le> length argv" "\<forall>a \<in> set argv. 0 \<notin> set a" "length (concat (tl argv)) + 1 < 2 ^ 32"
    "md (concat (tl argv)) = \<lparr>md_ctx_new = True, md_init = True, md_update = True, md_malloc = True, md_final = Some d\<rparr>"
    "length d = md_size" "2 * md_size \<le> INT_MAX"
  shows "sha1 (\<lambda>_. True) md md_size argv = sha1 (\<lambda>_. True) md md_size [hd argv, concat (tl argv)] \<and>
    sha1 (\<lambda>_. True) md md_size argv = Inl Uninit_read"
proof -
  have z: "0 \<notin> set (concat (tl argv))" "0 \<notin> set (hd argv)" using assms(1,2) by (cases argv; auto)+
  have dig: "digest_sha1 md md_size (concat (tl argv)) = Inr (Some (Live (map Some d)), Some md_size)"
    by (rule digest_sha1_ok) (simp_all add: assms(4,5))
  obtain b where "tohex (\<lambda>_. True) d = Inr (Some b)"
    using tohex_loop_ok [of "[]" d 1] assms(5,6) by (auto simp: tohex_def blk_alloc_def mult.commute)
  with tohex_read [OF this] assms(5,6) have t: "rbind (tohex (\<lambda>_. True) d) (\<lambda>h. case h of None \<Rightarrow> Inl Null_deref
      | Some b \<Rightarrow> rbind (read_cstr (blk_cells b)) (\<lambda>t. Inr (0, Some (t @ [10])))) = (Inl Uninit_read :: (int \<times> byte list option) res)"
    by simp
  have s: "sha1 (\<lambda>_. True) md md_size argv' = Inl Uninit_read"
    if "2 \<le> length argv'" "\<forall>a \<in> set argv'. 0 \<notin> set a" "concat (tl argv') = concat (tl argv)" for argv'
    using sha1_eq [OF that(1,2), of md md_size] assms(3,5) dig t by (simp add: that(3))
  have "sha1 (\<lambda>_. True) md md_size [hd argv, concat (tl argv)] = Inl Uninit_read"
    by (rule s) (use z in auto)
  then show ?thesis using s [OF assms(1,2) refl] by simp
qed

theorem sha1_joins_arguments_witness:
  "sha1 (\<lambda>_. True) (\<lambda>s. \<lparr>md_ctx_new = True, md_init = True, md_update = True, md_malloc = True, md_final = Some [7, 9]\<rparr>)
     2 [[115], [97], [98, 99]] = Inl Uninit_read"
  using sha1_joins_arguments [of "[[115], [97], [98, 99]]" "\<lambda>s. \<lparr>md_ctx_new = True, md_init = True, md_update = True,
    md_malloc = True, md_final = Some [7, 9]\<rparr>" "[7, 9]" 2, THEN conjunct2] by (simp add: INT_MAX_def)

end
