(* ===== verification/Mnet.thy ===== *)
theory Mnet
  imports Fds
begin

section \<open>Network helpers (mnet.c)\<close>

text \<open>
  The servers, the clients and the datagram reader over a descriptor table whose entries are
  sockets with what the calls set on them. What the operating system answers is an argument: a
  record of the calls' results. The functions print their errors and return a number; the models
  return it with the table.
\<close>

unbundle bit_operations_syntax

datatype mSockType = TCP | UDP | EITHER

datatype sock_kind = SOCK_STREAM | SOCK_DGRAM | SOCK_ANY

record sockaddr_in =
  sin_port :: "16 word"
  sin_addr :: u32

datatype peer = Inet sockaddr_in | Unix "byte list"

record sock =
  sk_kind :: sock_kind
  sk_reuse :: bool
  sk_rcvbuf :: nat
    \<comment> \<open>0 for the system's default\<close>
  sk_bound :: "sockaddr_in option"
  sk_backlog :: "int option"
  sk_peer :: "peer option"

datatype net_desc = Not_a_socket | Sock sock

type_synonym net_table = "net_desc table"

definition new_sock :: "sock_kind \<Rightarrow> sock" where
  "new_sock k = \<lparr>sk_kind = k, sk_reuse = False, sk_rcvbuf = 0, sk_bound = None, sk_backlog = None, sk_peer = None\<rparr>"

definition INADDR_NONE :: u32 where
  "INADDR_NONE = 0xFFFFFFFF"

text \<open>On a little-endian host.\<close>

definition htons :: "16 word \<Rightarrow> 16 word" where
  "htons w = push_bit 8 w OR drop_bit 8 w"

subsection \<open>Name lookup\<close>

record gai_hints =
  ai_passive :: bool
  hints_socktype :: sock_kind

record addrinfo =
  ai_socktype :: sock_kind
  ai_addr :: sockaddr_in

type_synonym getaddrinfo = "byte list \<Rightarrow> byte list \<Rightarrow> gai_hints \<Rightarrow> int \<times> addrinfo list"

definition maddrlookup :: "getaddrinfo \<Rightarrow> byte list \<Rightarrow> byte list \<Rightarrow> mSockType \<Rightarrow> int" where
  "maddrlookup getaddrinfo host service socktype =
     fst (getaddrinfo host service
       \<lparr>ai_passive = True,
        hints_socktype = (if socktype = TCP then SOCK_STREAM else if socktype = UDP then SOCK_DGRAM else SOCK_ANY)\<rparr>)"

subsection \<open>Servers\<close>

text \<open>The answers of the calls a server makes.\<close>

record net_env =
  env_socket :: "sock_kind \<Rightarrow> bool"
  env_reuse :: bool
  env_rcvbuf :: bool
  env_inet_addr :: "byte list \<Rightarrow> u32"
  env_bind :: "sockaddr_in \<Rightarrow> bool"
  env_listen :: bool
  env_connect :: "peer \<Rightarrow> bool"

definition net_socket :: "nat \<Rightarrow> net_env \<Rightarrow> sock_kind \<Rightarrow> net_table \<Rightarrow> (nat \<times> net_table) option" where
  "net_socket lim env k t = (if env_socket env k then fd_open lim (Sock (new_sock k)) t else None)"

text \<open>A call that succeeds changes the socket.\<close>

definition set_sock :: "nat \<Rightarrow> (sock \<Rightarrow> sock) \<Rightarrow> net_table \<Rightarrow> net_table" where
  "set_sock fd f t = t(fd := (case t fd of Some (Sock s) \<Rightarrow> Some (Sock (f s)) | d \<Rightarrow> d))"

definition rcvbuf :: nat where
  "rcvbuf = 262144"

definition setup_udp_server :: "nat \<Rightarrow> net_env \<Rightarrow> byte list \<Rightarrow> int \<Rightarrow> net_table \<Rightarrow> int \<times> net_table" where
  "setup_udp_server lim env address port t =
     (case net_socket lim env SOCK_DGRAM t of
        None \<Rightarrow> (0, t)
      | Some (socketfd, t) \<Rightarrow>
          (let t = (if env_reuse env then set_sock socketfd (\<lambda>s. s\<lparr>sk_reuse := True\<rparr>) t else t);
               t = (if env_rcvbuf env then set_sock socketfd (\<lambda>s. s\<lparr>sk_rcvbuf := rcvbuf\<rparr>) t else t);
               address_inet = \<lparr>sin_port = htons (of_int port), sin_addr = env_inet_addr env address\<rparr>
           in if sin_addr address_inet = INADDR_NONE then (0, t)
              else if \<not> env_bind env address_inet then (0, t)
              else (int socketfd, set_sock socketfd (\<lambda>s. s\<lparr>sk_bound := Some address_inet\<rparr>) t)))"

definition setup_tcp_server :: "nat \<Rightarrow> net_env \<Rightarrow> byte list \<Rightarrow> int \<Rightarrow> int \<Rightarrow> net_table \<Rightarrow> int \<times> net_table" where
  "setup_tcp_server lim env address port backlog t =
     (case net_socket lim env SOCK_STREAM t of
        None \<Rightarrow> (0, t)
      | Some (socketfd, t) \<Rightarrow>
          (let t = (if env_reuse env then set_sock socketfd (\<lambda>s. s\<lparr>sk_reuse := True\<rparr>) t else t);
               t = (if env_rcvbuf env then set_sock socketfd (\<lambda>s. s\<lparr>sk_rcvbuf := rcvbuf\<rparr>) t else t);
               address_inet = \<lparr>sin_port = htons (of_int port), sin_addr = env_inet_addr env address\<rparr>
           in if sin_addr address_inet = INADDR_NONE then (0, t)
              else if \<not> env_bind env address_inet then (0, t)
              else (let t = set_sock socketfd (\<lambda>s. s\<lparr>sk_bound := Some address_inet\<rparr>) t
                    in if \<not> env_listen env then (0, t)
                       else (int socketfd, set_sock socketfd (\<lambda>s. s\<lparr>sk_backlog := Some backlog\<rparr>) t))))"

subsection \<open>Datagrams\<close>

text \<open>\<open>recvfrom\<close> gives a datagram, cut to the size, or an error. The result: whether the pointer is
  returned (else NULL), and the buffer.\<close>

definition read_dgram :: "byte list option \<Rightarrow> byte block \<Rightarrow> nat \<Rightarrow> (bool \<times> byte block) res" where
  "read_dgram recv dgram dgram_size =
     rbind (write_at dgram 0 (replicate dgram_size 0)) (\<lambda>dgram.
     case recv of
       None \<Rightarrow> Inr (False, dgram)
     | Some msg \<Rightarrow>
         rbind (write_at dgram 0 (take dgram_size msg)) (\<lambda>dgram.
         if length (take dgram_size msg) = 0 then Inr (False, dgram) else Inr (True, dgram)))"

subsection \<open>Clients\<close>

text \<open>The loop over the addresses found: a failed \<open>socket\<close> goes on, a failed \<open>connect\<close> does not.\<close>

fun connect_loop :: "nat \<Rightarrow> net_env \<Rightarrow> addrinfo list \<Rightarrow> net_table \<Rightarrow> int \<times> net_table" where
  "connect_loop lim env [] t = (-1, t)"
| "connect_loop lim env (current # infop) t =
     (case net_socket lim env (ai_socktype current) t of
        None \<Rightarrow> connect_loop lim env infop t
      | Some (clientfd, t) \<Rightarrow>
          if \<not> env_connect env (Inet (ai_addr current)) then (-1, t)
          else (int clientfd, set_sock clientfd (\<lambda>s. s\<lparr>sk_peer := Some (Inet (ai_addr current))\<rparr>) t))"

definition connect_tcp_client ::
  "nat \<Rightarrow> net_env \<Rightarrow> getaddrinfo \<Rightarrow> byte list \<Rightarrow> byte list \<Rightarrow> net_table \<Rightarrow> int \<times> net_table" where
  "connect_tcp_client lim env getaddrinfo address port t =
     (case getaddrinfo address port \<lparr>ai_passive = False, hints_socktype = SOCK_STREAM\<rparr> of
        (rv, infop) \<Rightarrow> if rv \<noteq> 0 then (-1, t) else connect_loop lim env infop t)"

text \<open>The size of \<open>sun_path\<close> on Linux.\<close>

definition SUN_PATH_SIZE :: nat where
  "SUN_PATH_SIZE = 108"

definition connect_nix_streaming_client :: "nat \<Rightarrow> net_env \<Rightarrow> byte list \<Rightarrow> net_table \<Rightarrow> (int \<times> net_table) res" where
  "connect_nix_streaming_client lim env sockpath t =
     (case net_socket lim env SOCK_STREAM t of
        None \<Rightarrow> Inr (-1, t)
      | Some (fd, t) \<Rightarrow>
          rbind (write_at (Live (replicate SUN_PATH_SIZE (Some 0))) 0 (sockpath @ [0])) (\<lambda>sun_path.
          rbind (read_cstr (blk_cells sun_path)) (\<lambda>path.
          if \<not> env_connect env (Unix path) then Inr (-1, t)
          else Inr (int fd, set_sock fd (\<lambda>s. s\<lparr>sk_peer := Some (Unix path)\<rparr>) t))))"

subsection \<open>Tables\<close>

lemma net_socket_Some:
  "net_socket lim env k t = Some (fd, t') \<Longrightarrow> t fd = None \<and> fd < lim \<and> t' = t(fd \<mapsto> Sock (new_sock k))"
  by (auto simp: net_socket_def dest: fd_open_Some split: if_splits)

lemma set_sock_upd [simp]: "set_sock fd f (t(fd \<mapsto> Sock s)) = t(fd \<mapsto> Sock (f s))"
  by (simp add: set_sock_def)

text \<open>The socket a server has when it is bound, and the table a failed server leaves.\<close>

definition server_sock :: "net_env \<Rightarrow> sock_kind \<Rightarrow> sock" where
  "server_sock env k = (new_sock k)\<lparr>sk_reuse := env_reuse env, sk_rcvbuf := (if env_rcvbuf env then rcvbuf else 0)\<rparr>"

definition server_addr :: "net_env \<Rightarrow> byte list \<Rightarrow> int \<Rightarrow> sockaddr_in" where
  "server_addr env address port = \<lparr>sin_port = htons (of_int port), sin_addr = env_inet_addr env address\<rparr>"

lemma setup_udp_server_eq:
  "setup_udp_server lim env address port t =
     (case net_socket lim env SOCK_DGRAM t of
        None \<Rightarrow> (0, t)
      | Some (fd, t') \<Rightarrow>
          if env_inet_addr env address = INADDR_NONE \<or> \<not> env_bind env (server_addr env address port)
          then (0, t(fd \<mapsto> Sock (server_sock env SOCK_DGRAM)))
          else (int fd, t(fd \<mapsto> Sock ((server_sock env SOCK_DGRAM)\<lparr>sk_bound := Some (server_addr env address port)\<rparr>))))"
  by (auto simp: setup_udp_server_def server_sock_def server_addr_def new_sock_def Let_def
      dest!: net_socket_Some split: option.split)

lemma setup_tcp_server_eq:
  "setup_tcp_server lim env address port backlog t =
     (case net_socket lim env SOCK_STREAM t of
        None \<Rightarrow> (0, t)
      | Some (fd, t') \<Rightarrow>
          if env_inet_addr env address = INADDR_NONE \<or> \<not> env_bind env (server_addr env address port)
          then (0, t(fd \<mapsto> Sock (server_sock env SOCK_STREAM)))
          else if \<not> env_listen env
          then (0, t(fd \<mapsto> Sock ((server_sock env SOCK_STREAM)\<lparr>sk_bound := Some (server_addr env address port)\<rparr>)))
          else (int fd, t(fd \<mapsto> Sock ((server_sock env SOCK_STREAM)\<lparr>sk_bound := Some (server_addr env address port),
            sk_backlog := Some backlog\<rparr>))))"
  by (auto simp: setup_tcp_server_def server_sock_def server_addr_def new_sock_def Let_def
      dest!: net_socket_Some split: option.split)

lemma net_socket_free:
  "env_socket env k \<Longrightarrow> net_socket lim env k t = None \<longleftrightarrow> fd_free lim t = 0"
  by (simp add: net_socket_def fd_open_None_iff)

lemma failing_server_free:
  assumes "env_socket env k" "\<And>fd t'. net_socket lim env k t = Some (fd, t') \<Longrightarrow> f t = t(fd \<mapsto> Sock s)"
    "net_socket lim env k t = None \<Longrightarrow> f t = t"
  shows "fd_free lim (f t) = fd_free lim t - 1"
proof (cases "net_socket lim env k t")
  case None
  then show ?thesis using assms(1,3) by (simp add: net_socket_free)
next
  case (Some r)
  then obtain fd t' where r: "net_socket lim env k t = Some (fd, t')" by (cases r) simp
  from assms(2) [OF r] have "f t = t(fd \<mapsto> Sock s)" .
  moreover have "t fd = None" "fd < lim" using net_socket_Some [OF r] by simp_all
  ultimately show ?thesis by (simp only: fd_free_open)
qed

lemma iterate_free:
  fixes f :: "'d table \<Rightarrow> 'd table"
  shows "(\<And>t. fd_free lim (f t) = fd_free lim t - 1) \<Longrightarrow> fd_free lim ((f ^^ n) t) = fd_free lim t - n"
  by (induction n) simp_all

subsection \<open>Properties\<close>

text \<open>C28: with descriptor 0 in use \<open>setup_tcp_server\<close> returns a positive number exactly when it has a
  socket listening on the address, with the options the system accepted, in a descriptor that was
  free; else it returns 0, and the socket it made, if it got that far, stays open.\<close>

theorem setup_tcp_server_result:
  assumes "setup_tcp_server lim env address port backlog t = (r, t')" "t 0 \<noteq> None"
  shows "(0 < r \<longleftrightarrow> net_socket lim env SOCK_STREAM t \<noteq> None \<and> env_inet_addr env address \<noteq> INADDR_NONE \<and>
      env_bind env (server_addr env address port) \<and> env_listen env) \<and>
    (if 0 < r
     then t (nat r) = None \<and>
       t' = t(nat r \<mapsto> Sock \<lparr>sk_kind = SOCK_STREAM, sk_reuse = env_reuse env, sk_rcvbuf = (if env_rcvbuf env then 262144 else 0),
         sk_bound = Some (server_addr env address port), sk_backlog = Some backlog, sk_peer = None\<rparr>)
     else r = 0 \<and>
       (case net_socket lim env SOCK_STREAM t of None \<Rightarrow> t' = t | Some (fd, u) \<Rightarrow> t fd = None \<and> (\<exists>s. t' = t(fd \<mapsto> Sock s))))"
proof (cases "net_socket lim env SOCK_STREAM t")
  case None
  then show ?thesis using assms by (simp add: setup_tcp_server_eq)
next
  case (Some x)
  then obtain fd u where x: "net_socket lim env SOCK_STREAM t = Some (fd, u)" by (cases x) simp
  from net_socket_Some [OF x] have fd: "t fd = None" by simp
  with assms(2) have "0 < fd" by (cases fd) auto
  with assms(1) fd x show ?thesis
    by (auto simp: setup_tcp_server_eq server_sock_def new_sock_def rcvbuf_def split: if_splits)
qed

definition std_net :: net_table where
  "std_net = [0 \<mapsto> Not_a_socket, 1 \<mapsto> Not_a_socket, 2 \<mapsto> Not_a_socket]"

definition sample_env :: net_env where
  "sample_env = \<lparr>env_socket = (\<lambda>k. True), env_reuse = True, env_rcvbuf = False,
     env_inet_addr = (\<lambda>a. if a = [] then INADDR_NONE else 16777343), env_bind = (\<lambda>a. True), env_listen = True,
     env_connect = (\<lambda>p. p = Unix [47])\<rparr>"

theorem setup_tcp_server_result_witness:
  "\<exists>t'. setup_tcp_server 8 sample_env [49] 8080 5 std_net = (3, t') \<and>
    t' 3 = Some (Sock \<lparr>sk_kind = SOCK_STREAM, sk_reuse = True, sk_rcvbuf = 0,
      sk_bound = Some \<lparr>sin_port = 0x901F, sin_addr = 16777343\<rparr>, sk_backlog = Some 5, sk_peer = None\<rparr>)"
proof -
  have "fst (setup_tcp_server 8 sample_env [49] 8080 5 std_net) = 3"
    by (simp add: setup_tcp_server_eq net_socket_def fd_open_def lowest_def std_net_def sample_env_def upt_rec
        INADDR_NONE_def)
  then obtain t' where r: "setup_tcp_server 8 sample_env [49] 8080 5 std_net = (3, t')" by (metis prod.collapse)
  have "std_net 0 \<noteq> None" by (simp add: std_net_def)
  from setup_tcp_server_result [OF r this] r show ?thesis
    by (simp add: server_addr_def sample_env_def htons_def)
qed

text \<open>C32: every call of \<open>setup_udp_server\<close> or \<open>setup_tcp_server\<close> for an address that cannot be parsed or
  bound uses up a descriptor: after as many calls as there were free descriptors no socket can be
  made any more.\<close>

theorem server_failures_exhaust_descriptors:
  assumes "env_socket env SOCK_DGRAM" "env_socket env SOCK_STREAM"
    "env_inet_addr env address = INADDR_NONE \<or> \<not> env_bind env (server_addr env address port)"
  shows "fd_free lim (((\<lambda>t. snd (setup_udp_server lim env address port t)) ^^ n) t) = fd_free lim t - n \<and>
    fd_free lim (((\<lambda>t. snd (setup_tcp_server lim env address port backlog t)) ^^ n) t) = fd_free lim t - n \<and>
    net_socket lim env k (((\<lambda>t. snd (setup_tcp_server lim env address port backlog t)) ^^ fd_free lim t) t) = None"
proof -
  have u: "fd_free lim (snd (setup_udp_server lim env address port t)) = fd_free lim t - 1" for t
    by (rule failing_server_free [where s = "server_sock env SOCK_DGRAM", OF assms(1)]) (simp_all add: setup_udp_server_eq assms(3) fun_eq_iff)
  have s: "fd_free lim (snd (setup_tcp_server lim env address port backlog t)) = fd_free lim t - 1" for t
    by (rule failing_server_free [where s = "server_sock env SOCK_STREAM", OF assms(2)]) (simp_all add: setup_tcp_server_eq assms(3) fun_eq_iff)
  from iterate_free [of lim, OF u] iterate_free [of lim, OF s] show ?thesis
    by (auto simp: net_socket_def fd_open_None_iff)
qed

theorem server_failures_exhaust_descriptors_witness:
  "fd_free 8 (((\<lambda>t. snd (setup_udp_server 8 sample_env [] 53 t)) ^^ 2) std_net) = 3"
proof -
  have "{i. i < 8 \<and> std_net i = None} = {3, 4, 5, 6, 7}" by (auto simp: std_net_def)
  then have "fd_free 8 std_net = 5" by (simp add: fd_free_def)
  then show ?thesis
    using server_failures_exhaust_descriptors [of sample_env "[]" 53 8 2 std_net] by (simp add: sample_env_def)
qed

lemma connect_loop_result:
  "connect_loop lim env ais t =
     (case dropWhile (\<lambda>ai. net_socket lim env (ai_socktype ai) t = None) ais of
        [] \<Rightarrow> (-1, t)
      | ai # rest \<Rightarrow>
          (case net_socket lim env (ai_socktype ai) t of
             None \<Rightarrow> (-1, t)
           | Some (fd, t') \<Rightarrow>
               if env_connect env (Inet (ai_addr ai))
               then (int fd, t(fd \<mapsto> Sock ((new_sock (ai_socktype ai))\<lparr>sk_peer := Some (Inet (ai_addr ai))\<rparr>)))
               else (-1, t(fd \<mapsto> Sock (new_sock (ai_socktype ai))))))"
  by (induction ais) (auto dest: net_socket_Some split: option.splits)

text \<open>\<open>connect_tcp_client\<close> depends on one address only, the first for which a socket can be made: it
  returns the connected socket when that address accepts, and -1 when it refuses, with the socket
  left open and the addresses after it not tried; it returns -1 when there is none.\<close>

theorem connect_tcp_client_first_socket:
  assumes "getaddrinfo address port \<lparr>ai_passive = False, hints_socktype = SOCK_STREAM\<rparr> = (0, unusable @ ai # later)"
    "\<forall>x \<in> set unusable. net_socket lim env (ai_socktype x) t = None"
    "net_socket lim env (ai_socktype ai) t = Some (fd, t')"
  shows "connect_tcp_client lim env getaddrinfo address port t =
    (if env_connect env (Inet (ai_addr ai))
     then (int fd, t(fd \<mapsto> Sock ((new_sock (ai_socktype ai))\<lparr>sk_peer := Some (Inet (ai_addr ai))\<rparr>)))
     else (-1, t(fd \<mapsto> Sock (new_sock (ai_socktype ai)))))"
  using assms by (simp add: connect_tcp_client_def connect_loop_result dropWhile_append)

theorem connect_tcp_client_first_socket_witness:
  "fst (connect_tcp_client 8 (sample_env\<lparr>env_connect := \<lambda>p. p = Inet \<lparr>sin_port = 1, sin_addr = 2\<rparr>\<rparr>)
     (\<lambda>h s hints. (0, [\<lparr>ai_socktype = SOCK_STREAM, ai_addr = \<lparr>sin_port = 1, sin_addr = 1\<rparr>\<rparr>,
       \<lparr>ai_socktype = SOCK_STREAM, ai_addr = \<lparr>sin_port = 1, sin_addr = 2\<rparr>\<rparr>])) [49] [49] std_net) = -1"
proof -
  have "\<exists>t'. net_socket 8 (sample_env\<lparr>env_connect := f\<rparr>) SOCK_STREAM std_net = Some (3, t')" for f
    by (simp add: net_socket_def fd_open_def lowest_def std_net_def sample_env_def upt_rec)
  then obtain t' where "net_socket 8 (sample_env\<lparr>env_connect := \<lambda>p. p = Inet \<lparr>sin_port = 1, sin_addr = 2\<rparr>\<rparr>) SOCK_STREAM std_net =
      Some (3, t')" by blast
  then show ?thesis
    by (subst connect_tcp_client_first_socket [where unusable = "[]" and fd = 3 and t' = t',
        OF _ _ , of _ _ _ "\<lparr>ai_socktype = SOCK_STREAM, ai_addr = \<lparr>sin_port = 1, sin_addr = 1\<rparr>\<rparr>"]) simp_all
qed

text \<open>\<open>connect_nix_streaming_client\<close> connects to every path of at most 107 characters the system
  accepts and returns -1 when it refuses, with the socket left open; a longer path is written past
  the end of \<open>sun_path\<close>.\<close>

theorem connect_nix_path_length:
  assumes "net_socket lim env SOCK_STREAM t = Some (fd, t')" "0 \<notin> set sockpath"
  shows "connect_nix_streaming_client lim env sockpath t =
    (if 107 < length sockpath then Inl Out_of_bounds
     else if env_connect env (Unix sockpath)
     then Inr (int fd, t(fd \<mapsto> Sock ((new_sock SOCK_STREAM)\<lparr>sk_peer := Some (Unix sockpath)\<rparr>)))
     else Inr (-1, t(fd \<mapsto> Sock (new_sock SOCK_STREAM))))"
proof -
  have t': "t' = t(fd \<mapsto> Sock (new_sock SOCK_STREAM))" using net_socket_Some [OF assms(1)] by simp
  show ?thesis
  proof (cases "107 < length sockpath")
    case True
    then show ?thesis
      by (simp add: connect_nix_streaming_client_def assms(1) SUN_PATH_SIZE_def write_at_overflow)
  next
    case False
    then have w: "write_at (Live (replicate SUN_PATH_SIZE (Some 0))) 0 (sockpath @ [0]) =
        Inr (Live (map Some sockpath @ Some 0 # replicate (107 - length sockpath) (Some 0)))"
      by (simp add: write_at_ok SUN_PATH_SIZE_def)
    show ?thesis
      using False unfolding connect_nix_streaming_client_def assms(1) option.case prod.case w rbind.simps blk_cells.simps
        read_cstr_string [OF assms(2)] t' by simp
  qed
qed

theorem connect_nix_path_length_witness:
  "\<exists>t'. connect_nix_streaming_client 8 sample_env [47] std_net = Inr (3, t') \<and>
    connect_nix_streaming_client 8 sample_env (replicate 108 47) std_net = Inl Out_of_bounds"
proof -
  have "\<exists>t'. net_socket 8 sample_env SOCK_STREAM std_net = Some (3, t')"
    by (simp add: net_socket_def fd_open_def lowest_def std_net_def sample_env_def upt_rec)
  then obtain t' where t': "net_socket 8 sample_env SOCK_STREAM std_net = Some (3, t')" ..
  show ?thesis
    using connect_nix_path_length [OF t', of "[47]"] connect_nix_path_length [OF t', of "replicate 108 47"]
    by (simp add: sample_env_def)
qed

text \<open>\<open>read_dgram\<close> into a buffer of the size passed returns the datagram as a NUL-terminated string
  when it is shorter than the buffer, and its first octets without a terminator when it is not;
  NULL for an error and for an empty datagram, which cannot be told apart.\<close>

theorem read_dgram_string:
  assumes "length b = dgram_size" "\<forall>d. recv = Some d \<longrightarrow> 0 \<notin> set d"
  shows "\<exists>buf. read_dgram recv (Live b) dgram_size =
      Inr (case recv of None \<Rightarrow> False | Some d \<Rightarrow> d \<noteq> [] \<and> dgram_size \<noteq> 0, buf) \<and>
    (case recv of
       None \<Rightarrow> blk_cells buf = replicate dgram_size (Some 0)
     | Some d \<Rightarrow> if length d < dgram_size then read_cstr (blk_cells buf) = Inr d
                else blk_cells buf = map Some (take dgram_size d) \<and> read_cstr (blk_cells buf) = Inl Out_of_bounds)"
proof -
  have z: "write_at (Live b) 0 (replicate dgram_size 0) = Inr (Live (replicate dgram_size (Some 0)))"
    using assms(1) by (simp add: write_at_ok)
  show ?thesis
  proof (cases recv)
    case None
    then show ?thesis by (simp add: read_dgram_def z)
  next
    case (Some d)
    have w: "write_at (Live (replicate dgram_size (Some 0))) 0 (take dgram_size d) =
        Inr (Live (map Some (take dgram_size d) @ replicate (dgram_size - length d) (Some 0)))"
      by (simp add: write_at_ok min_def)
    have n: "0 \<notin> set d" "0 \<notin> set (take dgram_size d)" using assms(2) Some by (auto dest: in_set_takeD)
    have "replicate (dgram_size - length d) (Some (0 :: byte)) = Some 0 # replicate (dgram_size - length d - 1) (Some 0)"
      if "length d < dgram_size"
      using that by (cases "dgram_size - length d") auto
    then show ?thesis
      using n read_cstr_string [OF n(1)] read_cstr_unterminated [OF n(2)]
      by (auto simp: Some read_dgram_def z w)
  qed
qed

theorem read_dgram_string_witness:
  "\<exists>buf. read_dgram (Some [104, 105]) (Live (replicate 4 None)) 4 = Inr (True, buf) \<and>
    read_cstr (blk_cells buf) = Inr [104, 105]"
  using read_dgram_string [of "replicate 4 None" 4 "Some [104, 105]"] by simp

end
