(* ===== verification/Mb64.thy ===== *)
theory Mb64
  imports Mbase64
begin

section \<open>The tool mb64 (mb64.c)\<close>

text \<open>
  The command-line tool around mbase64.c. A file is the list of what successive calls of \<open>read\<close>
  give: the octets, none of them at the end, or \<open>None\<close> for an error. Every \<open>read\<close> stores at the start
  of the buffer. What the encoder may read of the buffer are the octets stored so far; a read beyond
  them is a fault.
\<close>

definition BUFSIZE :: nat where
  "BUFSIZE = 1024"

type_synonym reads = "byte list option list"

datatype line = Text "byte list" | Input_size int | Output_size u64 | Sizes_differ

text \<open>The loop over \<open>argv\<close>, from the name of the program on: encode, test and the input.\<close>

fun mb64_args :: "byte list list \<Rightarrow> bool \<times> bool \<times> byte list option \<Rightarrow> bool \<times> bool \<times> byte list option" where
  "mb64_args [] s = s"
| "mb64_args (a # as) (encode, test, input) =
     (if a = [45, 100] then mb64_args as (False, test, input)
      else if a = [45, 116] then mb64_args as (encode, True, input)
      else mb64_args as (encode, test, Some a))"

fun read_loop :: "reads \<Rightarrow> byte block \<Rightarrow> int \<Rightarrow> (byte block \<times> int) res" where
  "read_loop [] buffer input_size = Inr (buffer, input_size)"
| "read_loop (None # rs) buffer input_size = Inr (buffer, input_size - 1)"
| "read_loop (Some c # rs) buffer input_size =
     (if c = [] then Inr (buffer, input_size)
      else rbind (write_at buffer 0 c) (\<lambda>buffer. read_loop rs buffer (input_size + int (length c))))"

definition filled :: "byte block \<Rightarrow> byte list" where
  "filled b = values_of (takeWhile (\<lambda>c. c \<noteq> None) (blk_cells b))"

definition mb64_encode :: "(u64 \<Rightarrow> bool) \<Rightarrow> bool \<Rightarrow> byte block \<Rightarrow> int \<Rightarrow> line list res" where
  "mb64_encode mok test buffer input_size =
     rbind (mbase64_encode mok (filled buffer) (of_int input_size)) (\<lambda>b64.
     rbind (read_cstr (blk_cells b64)) (\<lambda>s.
     if \<not> test then Inr [Text s]
     else
       rbind (mbase64_decode mok s) (\<lambda>r.
       case r of
         None \<Rightarrow> Inl Null_deref
       | Some (out, outlen) \<Rightarrow>
           rbind (read_cstr (blk_cells out)) (\<lambda>d.
           Inr ([Text s, Text d, Input_size input_size, Output_size outlen] @
             (if of_int input_size \<noteq> outlen then [Sizes_differ] else []))))))"

definition mb64 :: "(u64 \<Rightarrow> bool) \<Rightarrow> (byte list \<Rightarrow> reads option) \<Rightarrow> reads \<Rightarrow> byte list list \<Rightarrow> (int \<times> line list) res" where
  "mb64 mok fopen stdin argv =
     (if length argv < 2 then Inr (1, [])
      else case mb64_args argv (True, False, None) of (encode, test, input) \<Rightarrow>
        (case (case input of None \<Rightarrow> Some stdin | Some a \<Rightarrow> if a = [45] then Some stdin else fopen a) of
           None \<Rightarrow> Inr (1, [])
         | Some rs \<Rightarrow>
             rbind (read_loop rs (blk_alloc BUFSIZE) 0) (\<lambda>(buffer, input_size).
             if encode then rbind (mb64_encode mok test buffer input_size) (\<lambda>out. Inr (0, out))
             else Inr (0, []))))"

subsection \<open>The encoder on too little data\<close>

lemma read_octets_short:
  assumes "unat n = k" "k < 2 ^ 31" "i < k"
    and d: "data = ys @ xs" "i = length ys" "length xs < 3" "length data < k"
  shows "read_octets data n i = Inl Out_of_bounds"
proof -
  have r: "sint (to_int (n - of_nat (length ys))) = int (k - length ys)"
    using remaining_eq [of n "replicate k (0 :: byte)" i] assms(1-3) d(2) by simp
  consider "xs = []" | a where "xs = [a]" | a b where "xs = [a, b]"
    using d(3) by (cases xs; cases "tl xs"; cases "tl (tl xs)") auto
  then show ?thesis
    using d by cases (auto simp: read_octets_def r arr_read_def nth_append Let_def)
qed

lemma encode_loop_short:
  assumes "unat n = k" "k + 3 \<le> INT_MAX" "length data < k" "data = ys @ xs"
    "4 * ((k - length ys + 2) div 3) \<le> m" "length pre + m \<le> INT_MAX"
  shows "encode_loop data n (Live (map Some pre @ replicate m None)) (length ys) (length pre) = Inl Out_of_bounds"
  using assms(4-6)
proof (induction "length xs" arbitrary: xs ys pre m rule: less_induct)
  case less
  have k: "k < 2 ^ 31" "length ys < k" using assms(2,3) less.prems(1) by (auto simp: INT_MAX_def)
  show ?case
  proof (cases "length xs < 3")
    case True
    then show ?thesis
      using read_octets_short [OF assms(1) k less.prems(1) refl _ assms(3)] k(2) assms(1)
      by (subst encode_loop.simps) simp
  next
    case False
    then obtain a b c zs where xs: "xs = a # b # c # zs"
      by (cases xs; cases "tl xs"; cases "tl (tl xs)") auto
    have s: "sint (to_int (n - of_nat (length ys))) = int (k - length ys)"
      using remaining_eq [of n "replicate k (0 :: byte)" "length ys"] assms(1) k by simp
    have rem: "length ys + 3 < k" using assms(3) less.prems(1) xs by simp
    then have r: "read_octets data n (length ys) = Inr (\<lparr>o_one = a, o_two = b, o_three = c\<rparr>, 0)"
      using s less.prems(1) xs by (auto simp: read_octets_def arr_read_def nth_append Let_def)
    have d: "(k - length ys + 2) div 3 = Suc ((k - (length ys + 3) + 2) div 3)"
      using quads_Suc [of "k - (length ys + 3)"] rem by simp
    define q where "q = (k - (length ys + 3) + 2) div 3"
    have "4 * Suc q \<le> m" using less.prems(2) unfolding d q_def .
    moreover have q: "(k - length (ys @ [a, b, c]) + 2) div 3 = q" by (simp add: q_def)
    ultimately have m: "m = (m - 4) + 4" "4 * ((k - length (ys @ [a, b, c]) + 2) div 3) \<le> m - 4"
      unfolding q by simp_all
    let ?pre = "pre @ quad a b c"
    have w: "write_quad (Live (map Some pre @ replicate m None)) (length pre)
        (convert_to_b64 \<lparr>o_one = a, o_two = b, o_three = c\<rparr>) 0 = Inr (Live (map Some ?pre @ replicate (m - 4) None))"
      by (subst m(1), subst write_quad_ok) (simp add: quad_def Let_def)
    have "encode_loop data n (Live (map Some ?pre @ replicate (m - 4) None)) (length (ys @ [a, b, c])) (length ?pre) =
        Inl Out_of_bounds"
      using less.prems(1,3) xs m by (intro less.hyps [of zs]) simp_all
    moreover have "length ys < unat n" "int_add (length ys) 3 = Inr (length (ys @ [a, b, c]))"
      "int_add (length pre) 4 = Inr (length ?pre)"
      using k(2) assms(1,2) less.prems(3) m(1) by simp_all
    ultimately show ?thesis
      by (subst encode_loop.simps) (simp only: if_True r w rbind.simps prod.case)
  qed
qed

subsection \<open>The buffer after the reads\<close>

definition buffer_of :: "byte list \<Rightarrow> byte block" where
  "buffer_of xs = Live (map Some xs @ replicate (BUFSIZE - length xs) None)"

lemma filled_buffer_of [simp]: "filled (buffer_of xs) = xs"
proof -
  have "takeWhile (\<lambda>c. c \<noteq> None) (map Some xs @ replicate k None) = map Some xs" for k
    by (induction xs) (auto simp: takeWhile_eq_Nil_iff)
  then show ?thesis by (simp add: filled_def buffer_of_def)
qed

lemma write_buffer:
  assumes "length xs \<le> BUFSIZE" "length c \<le> BUFSIZE"
  shows "write_at (buffer_of xs) 0 c = Inr (buffer_of (c @ drop (length c) xs))"
  using assms by (simp add: buffer_of_def write_at_ok drop_map)

lemma read_loop_buffer:
  "\<forall>c \<in> set cs. c \<noteq> [] \<and> length c \<le> BUFSIZE \<Longrightarrow> length xs \<le> BUFSIZE \<Longrightarrow>
   \<exists>ys. read_loop (map Some cs) (buffer_of xs) n = Inr (buffer_of ys, n + int (length (concat cs))) \<and>
     length ys \<le> max (length xs) (length (concat cs))"
proof (induction cs arbitrary: xs n)
  case (Cons c cs)
  let ?xs = "c @ drop (length c) xs"
  have "length c \<le> BUFSIZE" using Cons.prems(1) by simp
  with Cons.prems(2) have "length ?xs \<le> BUFSIZE" by simp
  then obtain ys where "read_loop (map Some cs) (buffer_of ?xs) (n + int (length c)) =
      Inr (buffer_of ys, n + int (length c) + int (length (concat cs)))" "length ys \<le> max (length ?xs) (length (concat cs))"
    using Cons.IH [of ?xs "n + int (length c)"] Cons.prems(1) by auto
  moreover have "length ?xs \<le> max (length xs) (length c)" by simp
  ultimately show ?case using Cons.prems write_buffer by (auto simp: ac_simps)
qed auto

lemma mbase64_encode_short:
  assumes "length data < k" "4 * ((k + 2) div 3) < INT_MAX"
  shows "mbase64_encode (\<lambda>_. True) data (of_nat k) = Inl Out_of_bounds"
proof -
  let ?m = "4 * ((k + 2) div 3) + 1"
  have n: "unat (of_nat k :: u64) = k" using encoded_bound(3) [OF assms(2)] by (intro unat_of_nat_u64) simp
  have o: "to_int (4 * ((of_nat k + 2) div 3)) + 1 = of_nat ?m"
    using encoded_size [of "of_nat k" "replicate k (0 :: byte)"] n encoded_bound(3) [OF assms(2)] by simp
  have s: "to_size (of_nat ?m) = of_nat ?m"
    by (rule to_size_of_nat) (rule encoded_bound(2) [OF assms(2)])
  have u: "unat (of_nat ?m :: u64) = ?m"
    by (rule unat_of_nat_u64) (use encoded_bound(2) [OF assms(2)] in simp)
  have "encode_loop data (of_nat k) (Live (map Some ([] :: byte list) @ replicate ?m None)) (length ([] :: byte list))
      (length ([] :: byte list)) = Inl Out_of_bounds"
    using assms encoded_bound(1) [OF assms(2)] by (intro encode_loop_short [OF n]) simp_all
  then show ?thesis
    unfolding mbase64_encode_def Let_def o s by (simp only: u blk_alloc_def require_simps rbind.simps)
      (simp only: list.map append_Nil list.size)
qed

subsection \<open>Properties\<close>

text \<open>C39: \<open>mb64\<close> with a file prints the encoding of its content when one \<open>read\<close> gives all of it; when
  it takes two reads or more, a file of more than 1024 octets for one, the encoder reads memory
  that does not hold the file.\<close>

theorem mb64_encodes_single_read:
  assumes "path \<notin> {[45, 100], [45, 116], [45]}" "prog \<notin> {[45, 100], [45, 116]}"
    "fopen path = Some (map Some (c # cs))" "\<forall>c \<in> set (c # cs). c \<noteq> [] \<and> length c \<le> BUFSIZE"
    "4 * ((length (concat (c # cs)) + 2) div 3) < INT_MAX"
  shows "mb64 (\<lambda>_. True) fopen stdin [prog, path] =
    (if cs = [] then Inr (0, [Text (rfc4648_encode c)]) else Inl Out_of_bounds)"
proof -
  let ?k = "length (concat (c # cs))"
  have c: "c \<noteq> []" "length c \<le> BUFSIZE" using assms(4) by simp_all
  have "read_loop (map Some (c # cs)) (blk_alloc BUFSIZE) 0 = read_loop (map Some cs) (buffer_of c) (int (length c))"
    using c write_buffer [of "[]" c] by (simp add: blk_alloc_def buffer_of_def)
  then obtain ys where ys: "read_loop (map Some (c # cs)) (blk_alloc BUFSIZE) 0 = Inr (buffer_of ys, int ?k)"
    "length ys \<le> max (length c) (length (concat cs))" "cs = [] \<Longrightarrow> ys = c"
    using read_loop_buffer [of cs c "int (length c)"] assms(4) c
    by (cases "cs = []") (auto simp: add.commute)
  have m: "mb64 (\<lambda>_. True) fopen stdin [prog, path] =
      rbind (mb64_encode (\<lambda>_. True) False (buffer_of ys) (int ?k)) (\<lambda>out. Inr (0, out))"
    using assms(1-3) ys(1) by (simp add: mb64_def)
  show ?thesis
  proof (cases "cs = []")
    case True
    have n: "unat (of_nat (length c) :: u64) = length c"
      using c(2) by (intro unat_of_nat_u64) (simp add: BUFSIZE_def)
    have "mbase64_encode (\<lambda>_. True) c (of_nat (length c)) = Inr (Live (map Some (enc_spec c @ [0])))"
      using assms(5) True by (intro mbase64_encode_eq n) simp_all
    moreover have "read_cstr (map Some (enc_spec c @ [0])) = Inr (enc_spec c)"
      using read_cstr_string [OF enc_spec_no_nul, of c "[]"] by simp
    ultimately show ?thesis
      using ys(3) True unfolding m mb64_encode_def by (simp add: enc_spec_rfc4648)
  next
    case False
    then have "concat cs \<noteq> []" using assms(4) by (cases cs) auto
    with c(1) have "0 < length c" "0 < length (concat cs)" by (simp_all only: length_greater_0_conv simp_thms)
    moreover have "?k = length c + length (concat cs)" by simp
    ultimately have "length ys < ?k" using ys(2) by linarith
    then have "mbase64_encode (\<lambda>_. True) ys (of_nat ?k) = Inl Out_of_bounds"
      by (rule mbase64_encode_short) (rule assms(5))
    then show ?thesis using False unfolding m mb64_encode_def by (simp del: of_nat_add)
  qed
qed

theorem mb64_encodes_single_read_witness:
  "mb64 (\<lambda>_. True) (\<lambda>p. Some (map Some [[104, 105]])) [] [[109], [102]] = Inr (0, [Text (map chr ''aGk='')]) \<and>
   mb64 (\<lambda>_. True) (\<lambda>p. Some (map Some [[104], [105]])) [] [[109], [102]] = Inl Out_of_bounds"
proof -
  have "rfc4648_encode [104, 105] = map chr ''aGk=''"
    by (simp only: enc_spec_rfc4648 [symmetric]) code_simp
  then show ?thesis
    using mb64_encodes_single_read [of "[102]" "[109]" "\<lambda>p. Some (map Some [[104, 105]])" "[104, 105]" "[]"]
      mb64_encodes_single_read [of "[102]" "[109]" "\<lambda>p. Some (map Some [[104], [105]])" "[104]" "[[105]]"]
    by (simp add: INT_MAX_def BUFSIZE_def)
qed

text \<open>With \<open>-d\<close> nothing is decoded and nothing printed.\<close>

lemma mb64_args_decode: "\<not> fst (mb64_args as (False, t, i))"
  by (induction as arbitrary: t i) simp_all

lemma mb64_args_d: "[45, 100] \<in> set as \<Longrightarrow> \<not> fst (mb64_args as (e, t, i))"
  by (induction as arbitrary: e t i) (auto simp: mb64_args_decode)

theorem mb64_decode_prints_nothing:
  assumes "[45, 100] \<in> set argv" "mb64 mok fopen stdin argv = Inr (status, out)"
  shows "out = []"
  using assms mb64_args_d [OF assms(1), of True False None]
  by (auto simp: mb64_def res_simps split: if_splits prod.splits option.splits)

end
