(* ===== verification/Bins.thy ===== *)
theory Bins
  imports Mstr
begin

section \<open>The tool bins (bins.c)\<close>

text \<open>
  \<open>bins\<close> splits the search path with \<open>msplit\<close> and prints the entries of each directory. The directories
  and the file modes are arguments; the lines printed and the number of directory streams left open
  are results.
\<close>

unbundle bit_operations_syntax
















subsection \<open>What it prints\<close>









subsection \<open>Properties\<close>





end
