(* ===== verification/Spec2Isabelle.thy ===== *)
theory Spec2Isabelle
  imports Repo_Tests Perf_Main Mdebug Version Btree Mbase64 Mlog_Threads_Spec Mlog_Setters Mstr Popen Followlink Evp_Base64 Uri Mnet Mb64 Bins
begin

text \<open>
  A verification of mikelibc, a C library of small components (a growing queue, list macros, a
  binary tree, base64, loggers, string splitting, utilities over POSIX, OpenSSL and libcurl,
  socket helpers) with a few command-line tools on top of them.

  \<^bold>\<open>How the code is modelled.\<close> Theory Prelude has what all components share. A function that can go
  wrong returns \<open>fault + 'a\<close>: the left side is what C leaves undefined or aborts on (a failed
  assertion, an access outside an allocation or to freed memory, a read of a byte that was never
  written, a NULL dereference, a signed overflow). Heap blocks and local arrays are lists of cells
  with checked accesses, \<open>uint64_t\<close> and \<open>size_t\<close> are 64-bit words that wrap, conversions between \<open>int\<close>
  and \<open>size_t\<close> are written out, and loop counters are checked against \<open>INT_MAX\<close>. A theorem that a
  function returns \<open>Inr\<close> is thus a proof that no such fault happens on the way. Loops whose end
  depends on a measure of their state are total functions; loops over linked lists and links, which
  may not end, are partial functions whose value \<open>None\<close> is not returning, and that they return is
  proved where they do. No fuel is used anywhere. Results of \<open>malloc\<close>, of the system and of other libraries are arguments of the
  definitions.

  \<^bold>\<open>The queue\<close> (madt.c, madt.h). Mqueue models \<open>mqueue_t\<close> as a record with its array, the counters
  and the countdown to the next vacuum, and every operation of the single-threaded build.
  \<open>mqueue_inv\<close> is its invariant and \<open>contents\<close> its abstraction. Mqueue_Spec has the locales of a FIFO
  and a bounded FIFO, interpreted on the operations, and the refinement of a bounded list by every
  sequence of calls, with the bound on the array for queues with a maximal size. Mqueue_Threads is
  the build with MIKELIBC_THREADS: the mutex, the two conditions with spurious wake-ups and the
  calls of any number of threads as step relations; safety is an invariant over the reachable states,
  then no lost wake-up, and termination of the steps without new calls. Perf puts the producer and the
  consumer of the benchmark (perf/perf.c) on this machine: they finish, in order, whatever the
  interleaving. Perf_Main is what the benchmark's \<open>main\<close> prints of the runs. Mutex holds what this
  machine shares with those of the loggers and of the debug output.

  \<^bold>\<open>Lists and trees\<close> (madt.h, madt.c). Linked_List has the four list macros over a heap with an
  abstract next field, in a locale for what a node type has to provide, interpreted on the node of
  the test program and, in Mlog, on the logger records. Btree has the tree of ints.

  \<^bold>\<open>Base64\<close> (mbase64.c, mutil.c, mb64.c). Mbase64 has the tables, the block conversions on bits and
  the loops of encoder and decoder; the encoder is proved equal to an encoding defined from the
  bit string. Evp_Base64 has the variants over OpenSSL; the contract of the two library functions
  is the locale \<open>evp_block\<close>, which mbase64.c is proved to meet too. Mb64 is the tool.

  \<^bold>\<open>Loggers\<close> (mlog.c, mlog.h). Mlog has the registry (a linked list of records on a heap, the
  handle counter, the default handle) and every operation on it, with the output as a list of
  events; it uses the list macros of Linked_List. Mlog_Spec has the registry as a list of loggers in
  order of creation, the simulation, and the isolation of loggers from each other. Mlog_Threads is the
  build with MIKELIBC_THREADS as a step relation, with the logging mutex, the unlocked rest of
  \<open>shutdown_mlogger\<close> access by access, and callbacks that log; Mlog_Threads_Spec shows that list, output and
  results are always those of a sequential run, that the counters are too when the main thread alone creates
  and shuts down, by runs the two races when it does not, the deadlock of a callback that logs, and
  that otherwise every call returns. Mlog_Setters cuts \<open>vmlogf\<close> into its reads of the logger and the setters,
  which take no mutex, into their stores: it says exactly when the main thread can break a message of another
  thread, and when a message is as if the setters had come before or after it.

  \<^bold>\<open>Debug output and version\<close> (mdebug.c, mikelib.c). Mdebug has \<open>dbg_printf\<close> as its writes and the threads
  that write under its mutex: messages never mix. Version has the two version functions over
  the numbers of config.h; Decimal is the printing of numbers both use.

  \<^bold>\<open>Strings\<close> (mstr.c, bins.c). Mstr has \<open>msplit\<close> and \<open>free_msplit\<close> over an allocator that says how many
  bytes can be used of each block, because the code writes one byte past each word. C promises that these
  are at least the bytes asked for (\<open>honest\<close>): whatever is returned then is what the theorems say. That
  something is returned needs bytes to spare (\<open>roomy\<close>, eight in every block, is enough), and with none
  (the allocator \<open>Some\<close>) the theorems say where it faults. Bins is the tool that splits the search path
  and lists directories, under the same allocators.

  \<^bold>\<open>Utilities\<close> (mutil.c, flink.c, muri.c, sha1.c). Mutil_Num has \<open>dstnow\<close>, the Fibonacci functions and \<open>tohex\<close>;
  Fds the descriptor table of a process, with Popen for \<open>popenRWE\<close>, parent and child; Followlink has
  \<open>followlink\<close> over a file system of links, and the tool flink; Evp_Cipher has encryption, decryption
  and the digest over OpenSSL's functions; Uri has the URI functions over libcurl's and the tools muri
  and sha1: muri faults or refuses, but never prints.

  \<^bold>\<open>Network\<close> (mnet.c). Mnet has the servers, the clients and the datagram reader over a table of
  descriptors with the state of each socket.

  \<^bold>\<open>Tests\<close> (t/). Repo_Tests runs the repository's tests of the lists, the Fibonacci numbers, msplit,
  base64 and the ciphers on the model, and shows which pass and on what their outcome depends.

  \<^bold>\<open>Bounds.\<close> Queue arrays are followed up to \<open>2 ^ 60\<close> slots, beyond which their size in bytes wraps;
  base64 inputs up to an encoding of \<open>INT_MAX\<close> characters, and one size above it as a fault. The
  other theorems name their limits, which are those of \<open>int\<close> or of the code's arrays.

  \<^bold>\<open>Not modelled.\<close> The calls of \<open>dbg_printf\<close> and of the loggers from other components: they have no
  influence on results. In Mlog_Threads what a thread does while it holds the mutex is one step, and the
  functions that set up a logger, which take no mutex and which mlog.h leaves to the main thread, run before
  the threads start; Mlog_Setters has them beside one message, with every access whole and in order, where C
  calls such accesses a data race and promises nothing. The arithmetic on \<open>double\<close> of perf.c (whose call of \<open>mqueue_init\<close> lacks an
  argument); build files and the tests that need the network, links or a shell. OpenSSL, libcurl, the C library's time functions and the kernel are
  arguments, with their documented behaviour as hypotheses where a theorem needs it. Enumerations have
  the values they declare only, and the operands of a call are read from left to right.
\<close>

end
